(* ===== verification/Prelude.thy ===== *)
theory Prelude
  imports Main "HOL-Library.Word" "HOL-Library.Code_Target_Nat"
begin

text \<open>
  Shared vocabulary of the development: machine integers, the result type of fallible Rust code,
  and the parts of Rust's standard library that the crates rely on (integer parsing and printing,
  string splitting and trimming, UTF-8 validation, big-endian byte order), together with the
  generic lemmas that the component theories use about them.

  A Rust \<open>str\<close> is a list of characters, one per byte of its UTF-8 encoding, so \<open>len()\<close> is
  \<open>length\<close>. A byte slice is a list of 8-bit words.
\<close>

type_synonym u8 = "8 word"
type_synonym u16 = "16 word"
type_synonym u32 = "32 word"
type_synonym u64 = "64 word"
type_synonym u128 = "128 word"
type_synonym i16 = "16 word"
type_synonym i32 = "32 word"
type_synonym i64 = "64 word"
type_synonym bytes = "u8 list"

named_theorems result_simps \<open>unfolding rules for fallible code\<close>
named_theorems rust_std \<open>unfolding rules for the modelled standard library\<close>

lemma unat_lt: "unat (w :: 'a::len word) < 2 ^ LENGTH('a)"
  by (rule unsigned_less)

lemma unat_inject [simp]: "unat a = unat b \<longleftrightarrow> (a :: 'a::len word) = b"
  by (simp add: word_unat_eq_iff)

lemma unat_ucast: "unat (ucast (w :: 'a::len word) :: 'b::len word) = unat w mod 2 ^ LENGTH('b)"
  by (simp add: unsigned_ucast_eq take_bit_eq_mod)

lemma unat_ucast_up:
  "LENGTH('a) \<le> LENGTH('b) \<Longrightarrow> unat (ucast (w :: 'a::len word) :: 'b::len word) = unat w"
  using order_less_le_trans [OF unat_lt [of w] power_increasing [of "LENGTH('a)" "LENGTH('b)"]]
  by (simp add: unat_ucast)

section \<open>Results\<close>

abbreviation Ok :: "'a \<Rightarrow> 'e + 'a" where
  "Ok \<equiv> Inr"

abbreviation Err :: "'e \<Rightarrow> 'e + 'a" where
  "Err \<equiv> Inl"

text \<open>The \<open>?\<close> operator.\<close>

definition bind_res :: "'e + 'a \<Rightarrow> ('a \<Rightarrow> 'e + 'b) \<Rightarrow> 'e + 'b" where
  "bind_res m f = (case m of Inl e \<Rightarrow> Inl e | Inr x \<Rightarrow> f x)"

definition map_err :: "('e \<Rightarrow> 'f) \<Rightarrow> 'e + 'a \<Rightarrow> 'f + 'a" where
  "map_err g m = (case m of Inl e \<Rightarrow> Inl (g e) | Inr x \<Rightarrow> Inr x)"

definition ok_or :: "'e \<Rightarrow> 'a option \<Rightarrow> 'e + 'a" where
  "ok_or e m = (case m of None \<Rightarrow> Inl e | Some x \<Rightarrow> Inr x)"

definition ok_of :: "'e + 'a \<Rightarrow> 'a option" where
  "ok_of m = (case m of Inl _ \<Rightarrow> None | Inr x \<Rightarrow> Some x)"

definition is_ok :: "'e + 'a \<Rightarrow> bool" where
  "is_ok m = (case m of Inl _ \<Rightarrow> False | Inr _ \<Rightarrow> True)"

text \<open>\<open>iter().map(f).collect::<Result<Vec<_>, _>>()\<close>: stops at the first error.\<close>

fun collect_res :: "('a \<Rightarrow> 'e + 'b) \<Rightarrow> 'a list \<Rightarrow> 'e + 'b list" where
  "collect_res f [] = Inr []"
| "collect_res f (x # xs) =
     (case f x of Inl e \<Rightarrow> Inl e
      | Inr y \<Rightarrow> (case collect_res f xs of Inl e \<Rightarrow> Inl e | Inr ys \<Rightarrow> Inr (y # ys)))"

text \<open>\<open>collect::<Option<Vec<_>>>()\<close>.\<close>

fun collect_opt :: "('a \<Rightarrow> 'b option) \<Rightarrow> 'a list \<Rightarrow> 'b list option" where
  "collect_opt f [] = Some []"
| "collect_opt f (x # xs) =
     (case f x of None \<Rightarrow> None
      | Some y \<Rightarrow> (case collect_opt f xs of None \<Rightarrow> None | Some ys \<Rightarrow> Some (y # ys)))"

text \<open>\<open>iter().position(p)\<close>.\<close>

fun position :: "('a \<Rightarrow> bool) \<Rightarrow> 'a list \<Rightarrow> nat option" where
  "position p [] = None"
| "position p (x # xs) = (if p x then Some 0 else map_option Suc (position p xs))"

text \<open>\<open>slice.get(i)\<close>.\<close>

definition nth_opt :: "'a list \<Rightarrow> nat \<Rightarrow> 'a option" where
  "nth_opt xs i = (if i < length xs then Some (xs ! i) else None)"

lemma bind_res_simps [simp, result_simps]:
  "bind_res (Inl e) f = Inl e"
  "bind_res (Inr x) f = f x"
  by (simp_all add: bind_res_def)

lemma bind_res_eq_Inr:
  "bind_res m f = Inr y \<longleftrightarrow> (\<exists>x. m = Inr x \<and> f x = Inr y)"
  by (cases m) auto

lemma bind_res_split:
  "P (bind_res m f) \<longleftrightarrow> (\<forall>e. m = Inl e \<longrightarrow> P (Inl e)) \<and> (\<forall>x. m = Inr x \<longrightarrow> P (f x))"
  by (cases m) auto

lemma map_err_simps [simp, result_simps]:
  "map_err g (Inl e) = Inl (g e)"
  "map_err g (Inr x) = Inr x"
  by (simp_all add: map_err_def)

lemma map_err_eq_Inr [simp]: "map_err g m = Inr x \<longleftrightarrow> m = Inr x"
  by (cases m) auto

lemma ok_or_simps [simp, result_simps]:
  "ok_or e None = Inl e"
  "ok_or e (Some x) = Inr x"
  by (simp_all add: ok_or_def)

lemma ok_or_eq_Inr [simp]: "ok_or e m = Inr x \<longleftrightarrow> m = Some x"
  by (cases m) auto

lemma is_ok_simps [simp]: "is_ok (Inr x)" "\<not> is_ok (Inl e)"
  by (simp_all add: is_ok_def)

lemma collect_res_Inr:
  "collect_res f xs = Inr ys \<longleftrightarrow> list_all2 (\<lambda>x y. f x = Inr y) xs ys"
proof (induction xs arbitrary: ys)
  case Nil
  then show ?case by auto
next
  case (Cons x xs)
  show ?case
    by (cases ys; cases "f x"; cases "collect_res f xs") (auto simp: Cons.IH [symmetric])
qed

lemma collect_opt_Some:
  "collect_opt f xs = Some ys \<longleftrightarrow> list_all2 (\<lambda>x y. f x = Some y) xs ys"
proof (induction xs arbitrary: ys)
  case Nil
  then show ?case by auto
next
  case (Cons x xs)
  show ?case
    by (cases ys; cases "f x"; cases "collect_opt f xs") (auto simp: Cons.IH [symmetric])
qed

lemma position_Some:
  "position p xs = Some i \<longleftrightarrow> i < length xs \<and> p (xs ! i) \<and> (\<forall>j < i. \<not> p (xs ! j))"
proof (induction xs arbitrary: i)
  case Nil
  then show ?case by simp
next
  case (Cons x xs)
  show ?case
  proof (cases i)
    case 0
    then show ?thesis by auto
  next
    case (Suc k)
    then show ?thesis
      using Cons.IH [of k] by (auto simp: less_Suc_eq_0_disj)
  qed
qed

lemma position_None: "position p xs = None \<longleftrightarrow> (\<forall>x \<in> set xs. \<not> p x)"
  by (induction xs) auto

lemma nth_opt_Some: "nth_opt xs i = Some x \<longleftrightarrow> i < length xs \<and> xs ! i = x"
  by (auto simp: nth_opt_def)

lemma nth_opt_Cons [simp]:
  "nth_opt (x # xs) 0 = Some x"
  "nth_opt (x # xs) (Suc i) = nth_opt xs i"
  by (simp_all add: nth_opt_def)

section \<open>Characters and digits\<close>

definition digit_val :: "char \<Rightarrow> nat option" where
  "digit_val c = (let n = (of_char c :: nat) in
     if 48 \<le> n \<and> n \<le> 57 then Some (n - 48) else None)"

definition hex_val :: "char \<Rightarrow> nat option" where
  "hex_val c = (let n = (of_char c :: nat) in
     if 48 \<le> n \<and> n \<le> 57 then Some (n - 48)
     else if 97 \<le> n \<and> n \<le> 102 then Some (n - 87)
     else if 65 \<le> n \<and> n \<le> 70 then Some (n - 55) else None)"

definition is_ascii_digit :: "char \<Rightarrow> bool" where
  "is_ascii_digit c = (let n = (of_char c :: nat) in 48 \<le> n \<and> n \<le> 57)"

definition is_ascii_hexdigit :: "char \<Rightarrow> bool" where
  "is_ascii_hexdigit c = (let n = (of_char c :: nat) in
     (48 \<le> n \<and> n \<le> 57) \<or> (97 \<le> n \<and> n \<le> 102) \<or> (65 \<le> n \<and> n \<le> 70))"

definition lower_digit :: "nat \<Rightarrow> char" where
  "lower_digit n = char_of (if n < 10 then 48 + n else 87 + n)"

definition upper_digit :: "nat \<Rightarrow> char" where
  "upper_digit n = char_of (if n < 10 then 48 + n else 55 + n)"

lemma of_char_lower_digit [simp]:
  "n < 16 \<Longrightarrow> (of_char (lower_digit n) :: nat) = (if n < 10 then 48 + n else 87 + n)"
  by (simp add: lower_digit_def)

lemma of_char_upper_digit [simp]:
  "n < 16 \<Longrightarrow> (of_char (upper_digit n) :: nat) = (if n < 10 then 48 + n else 55 + n)"
  by (simp add: upper_digit_def)

lemma hex_val_lower_digit [simp]: "n < 16 \<Longrightarrow> hex_val (lower_digit n) = Some n"
  by (simp add: hex_val_def Let_def)

lemma hex_val_upper_digit [simp]: "n < 16 \<Longrightarrow> hex_val (upper_digit n) = Some n"
  by (auto simp: hex_val_def Let_def)

lemma digit_val_lower_digit [simp]: "n < 10 \<Longrightarrow> digit_val (lower_digit n) = Some n"
  by (simp add: digit_val_def Let_def)

lemma hex_val_bound: "hex_val c = Some n \<Longrightarrow> n < 16"
  by (auto simp: hex_val_def Let_def split: if_splits)

lemma digit_val_bound: "digit_val c = Some n \<Longrightarrow> n < 10"
  by (auto simp: digit_val_def Let_def split: if_splits)

lemma is_ascii_hexdigit_iff: "is_ascii_hexdigit c \<longleftrightarrow> (\<exists>n. hex_val c = Some n)"
  by (auto simp: is_ascii_hexdigit_def hex_val_def Let_def)

section \<open>Printing and parsing integers\<close>

fun radix_val :: "(char \<Rightarrow> nat option) \<Rightarrow> nat \<Rightarrow> nat \<Rightarrow> string \<Rightarrow> nat option" where
  "radix_val dv b acc [] = Some acc"
| "radix_val dv b acc (c # cs) =
     (case dv c of None \<Rightarrow> None | Some d \<Rightarrow> radix_val dv b (acc * b + d) cs)"

text \<open>
  \<open>from_str_radix\<close> on an unsigned type: empty input and a lone sign are errors and one leading
  \<open>+\<close> is accepted. The caller compares the value with the type's bound.
\<close>

definition parse_unsigned :: "(char \<Rightarrow> nat option) \<Rightarrow> nat \<Rightarrow> string \<Rightarrow> nat option" where
  "parse_unsigned dv b s = (case s of [] \<Rightarrow> None
     | c # cs \<Rightarrow> if c = CHR ''+'' then (if cs = [] then None else radix_val dv b 0 cs)
                else radix_val dv b 0 s)"

definition from_str_radix16_u64 :: "string \<Rightarrow> u64 option" where
  "from_str_radix16_u64 s = (case parse_unsigned hex_val 16 s of None \<Rightarrow> None
     | Some n \<Rightarrow> if n < 2 ^ 64 then Some (of_nat n) else None)"

definition from_str_radix16_u8 :: "string \<Rightarrow> u8 option" where
  "from_str_radix16_u8 s = (case parse_unsigned hex_val 16 s of None \<Rightarrow> None
     | Some n \<Rightarrow> if n < 2 ^ 8 then Some (of_nat n) else None)"

text \<open>\<open>str::parse::<i64>()\<close>: an optional sign, then at least one decimal digit, in range.\<close>

definition parse_int :: "string \<Rightarrow> int option" where
  "parse_int s = (case s of [] \<Rightarrow> None
     | c # cs \<Rightarrow>
         if c = CHR ''-'' then
           (if cs = [] then None else map_option (\<lambda>n. - int n) (radix_val digit_val 10 0 cs))
         else if c = CHR ''+'' then
           (if cs = [] then None else map_option int (radix_val digit_val 10 0 cs))
         else map_option int (radix_val digit_val 10 0 s))"

definition in_i64 :: "int \<Rightarrow> bool" where
  "in_i64 v \<longleftrightarrow> - (2 ^ 63) \<le> v \<and> v < 2 ^ 63"

definition parse_i64 :: "string \<Rightarrow> i64 option" where
  "parse_i64 s = (case parse_int s of None \<Rightarrow> None
     | Some v \<Rightarrow> if in_i64 v then Some (word_of_int v) else None)"

fun num_str :: "(nat \<Rightarrow> char) \<Rightarrow> nat \<Rightarrow> nat \<Rightarrow> string" where
  "num_str dg b n =
     (if n < b \<or> b < 2 then [dg n] else num_str dg b (n div b) @ [dg (n mod b)])"

declare num_str.simps [simp del]

text \<open>\<open>{:016x}\<close> prints \<open>hex_fixed 16\<close>; \<open>{:X}\<close> prints \<open>upper_hex\<close>; \<open>i64\<close> prints \<open>i64_str\<close>.\<close>

fun hex_fixed :: "nat \<Rightarrow> nat \<Rightarrow> string" where
  "hex_fixed 0 n = []"
| "hex_fixed (Suc k) n = hex_fixed k (n div 16) @ [lower_digit (n mod 16)]"

definition upper_hex :: "nat \<Rightarrow> string" where
  "upper_hex n = num_str upper_digit 16 n"

definition nat_str :: "nat \<Rightarrow> string" where
  "nat_str n = num_str lower_digit 10 n"

definition int_str :: "int \<Rightarrow> string" where
  "int_str v = (if v < 0 then CHR ''-'' # nat_str (nat (- v)) else nat_str (nat v))"

definition i64_str :: "i64 \<Rightarrow> string" where
  "i64_str w = int_str (sint w)"

lemma radix_val_append:
  "radix_val dv b a (xs @ ys) =
     (case radix_val dv b a xs of None \<Rightarrow> None | Some v \<Rightarrow> radix_val dv b v ys)"
  by (induction xs arbitrary: a) (auto split: option.splits)

lemma radix_val_acc:
  "radix_val dv b a xs = map_option (\<lambda>v. a * b ^ length xs + v) (radix_val dv b 0 xs)"
proof (induction xs arbitrary: a)
  case Nil
  then show ?case by simp
next
  case (Cons c cs)
  show ?case
  proof (cases "dv c")
    case None
    then show ?thesis by simp
  next
    case (Some d)
    have "radix_val dv b (a * b + d) cs =
        map_option (\<lambda>v. (a * b + d) * b ^ length cs + v) (radix_val dv b 0 cs)"
      by (rule Cons.IH)
    moreover have "radix_val dv b d cs = map_option (\<lambda>v. d * b ^ length cs + v) (radix_val dv b 0 cs)"
      by (rule Cons.IH)
    ultimately show ?thesis
      using Some by (simp add: option.map_comp comp_def algebra_simps)
  qed
qed

lemma radix_val_num_str:
  assumes "\<And>d. d < b \<Longrightarrow> dv (dg d) = Some d" and "2 \<le> b"
  shows "radix_val dv b 0 (num_str dg b n) = Some n"
  using assms
proof (induction dg b n rule: num_str.induct)
  case (1 dg b n)
  show ?case
  proof (cases "n < b")
    case True
    with 1 show ?thesis by (simp add: num_str.simps)
  next
    case False
    with 1 have "radix_val dv b 0 (num_str dg b (n div b)) = Some (n div b)"
      by simp
    with False 1 show ?thesis
      by (simp add: num_str.simps [of dg b n] radix_val_append)
  qed
qed

lemma num_str_not_Nil [simp]: "num_str dg b n \<noteq> []"
  by (simp add: num_str.simps)

lemma num_str_digits: "2 \<le> b \<Longrightarrow> c \<in> set (num_str dg b n) \<Longrightarrow> \<exists>d < b. c = dg d"
proof (induction dg b n rule: num_str.induct)
  case (1 dg b n)
  show ?case
  proof (cases "n < b")
    case True
    with 1 show ?thesis by (auto simp: num_str.simps)
  next
    case False
    then have "num_str dg b n = num_str dg b (n div b) @ [dg (n mod b)]"
      using 1 by (simp add: num_str.simps)
    then consider "c = dg (n mod b)" | "c \<in> set (num_str dg b (n div b))"
      using 1 by auto
    then show ?thesis
    proof cases
      case 1
      then show ?thesis using \<open>2 \<le> b\<close> by (intro exI [of _ "n mod b"]) simp
    next
      case 2
      then show ?thesis using 1 False by simp
    qed
  qed
qed

lemma radix_val_hex_fixed:
  "radix_val hex_val 16 0 (hex_fixed k n) = Some (n mod 16 ^ k)"
proof (induction k arbitrary: n)
  case 0
  then show ?case by simp
next
  case (Suc k)
  have "n div 16 mod 16 ^ k * 16 + n mod 16 = n mod (16 * 16 ^ k)"
    by (metis mod_mult2_eq mult.commute)
  then show ?case
    by (simp add: Suc.IH radix_val_append)
qed

lemma length_hex_fixed [simp]: "length (hex_fixed k n) = k"
  by (induction k arbitrary: n) auto

lemma hex_fixed_digits: "c \<in> set (hex_fixed k n) \<Longrightarrow> \<exists>d < 16. c = lower_digit d"
proof (induction k arbitrary: n)
  case (Suc k)
  then consider "c = lower_digit (n mod 16)" | "c \<in> set (hex_fixed k (n div 16))"
    by auto
  then show ?case
    by cases (auto intro: exI [of _ "n mod 16"] Suc.IH)
qed simp

lemma digit_not_sign:
  "d < 16 \<Longrightarrow> lower_digit d \<noteq> CHR ''+''" "d < 16 \<Longrightarrow> lower_digit d \<noteq> CHR ''-''"
  "d < 16 \<Longrightarrow> upper_digit d \<noteq> CHR ''+''" "d < 16 \<Longrightarrow> upper_digit d \<noteq> CHR ''/''"
proof -
  have eqs: "(of_char (CHR ''+'') :: nat) = 43" "(of_char (CHR ''-'') :: nat) = 45"
    "(of_char (CHR ''/'') :: nat) = 47"
    by simp_all
  show "d < 16 \<Longrightarrow> lower_digit d \<noteq> CHR ''+''" "d < 16 \<Longrightarrow> lower_digit d \<noteq> CHR ''-''"
    "d < 16 \<Longrightarrow> upper_digit d \<noteq> CHR ''+''" "d < 16 \<Longrightarrow> upper_digit d \<noteq> CHR ''/''"
    using eqs of_char_lower_digit [of d] of_char_upper_digit [of d] by (fastforce split: if_splits)+
qed

lemma parse_unsigned_plain:
  "s \<noteq> [] \<Longrightarrow> hd s \<noteq> CHR ''+'' \<Longrightarrow> parse_unsigned dv b s = radix_val dv b 0 s"
  by (cases s) (auto simp: parse_unsigned_def)

lemma parse_int_int_str: "parse_int (int_str v) = Some v"
proof -
  have val: "radix_val digit_val 10 0 (nat_str n) = Some n" for n
    unfolding nat_str_def by (rule radix_val_num_str) auto
  have ne: "nat_str n \<noteq> []" for n by (simp add: nat_str_def)
  have hd_digit: "\<exists>d < 10. hd (nat_str n) = lower_digit d" for n
    using num_str_digits [of 10 "hd (nat_str n)" lower_digit n] ne [of n]
    by (auto simp: nat_str_def)
  show ?thesis
  proof (cases "v < 0")
    case True
    then show ?thesis by (simp add: int_str_def parse_int_def val ne)
  next
    case False
    obtain c cs where s: "nat_str (nat v) = c # cs" using ne [of "nat v"] by (cases "nat_str (nat v)") auto
    obtain d where "d < 10" "c = lower_digit d" using hd_digit [of "nat v"] s by auto
    then have "c \<noteq> CHR ''-''" "c \<noteq> CHR ''+''" using digit_not_sign [of d] by simp_all
    with False s val [of "nat v"] show ?thesis by (simp add: int_str_def parse_int_def)
  qed
qed

lemma in_i64_sint: "in_i64 (sint (w :: i64))"
  using sint_ge [of w] sint_lt [of w] by (simp add: in_i64_def)

lemma parse_i64_i64_str [simp]: "parse_i64 (i64_str w) = Some w"
  by (simp add: parse_i64_def i64_str_def parse_int_int_str in_i64_sint)

section \<open>Strings\<close>

definition split_once :: "char \<Rightarrow> string \<Rightarrow> (string \<times> string) option" where
  "split_once d s = (case dropWhile (\<lambda>c. c \<noteq> d) s of [] \<Rightarrow> None
     | _ # rest \<Rightarrow> Some (takeWhile (\<lambda>c. c \<noteq> d) s, rest))"

definition strip_prefix :: "string \<Rightarrow> string \<Rightarrow> string option" where
  "strip_prefix p s = (if take (length p) s = p then Some (drop (length p) s) else None)"

definition starts_with :: "string \<Rightarrow> char \<Rightarrow> bool" where
  "starts_with s c \<longleftrightarrow> s \<noteq> [] \<and> hd s = c"

definition ends_with :: "string \<Rightarrow> char \<Rightarrow> bool" where
  "ends_with s c \<longleftrightarrow> s \<noteq> [] \<and> last s = c"

text \<open>
  \<open>str::trim\<close> removes leading and trailing characters with Unicode's \<open>White_Space\<close> property; the
  table lists the UTF-8 encoding of each of them.
\<close>

definition ws_encodings :: "string list" where
  "ws_encodings = map (map char_of)
     ([[9 :: nat], [10], [11], [12], [13], [32], [194, 133], [194, 160], [225, 154, 128]]
      @ map (\<lambda>k. [226, 128, k]) [128 ..< 139]
      @ [[226, 128, 168], [226, 128, 169], [226, 128, 175], [226, 129, 159], [227, 128, 128]])"

function trim_with :: "string list \<Rightarrow> string \<Rightarrow> string" where
  "trim_with ws s = (case List.find (\<lambda>w. w \<noteq> [] \<and> take (length w) s = w) ws of
     None \<Rightarrow> s | Some w \<Rightarrow> trim_with ws (drop (length w) s))"
  by pat_completeness auto
termination
proof (relation "measure (\<lambda>(ws, s). length s)")
  fix ws and s w :: string
  assume "List.find (\<lambda>w. w \<noteq> [] \<and> take (length w) s = w) ws = Some w"
  then have "w \<noteq> []" "take (length w) s = w" by (auto simp: find_Some_iff)
  then show "((ws, drop (length w) s), ws, s) \<in> measure (\<lambda>(ws, s). length s)"
    by (cases s) (auto simp: Suc_le_eq)
qed simp

declare trim_with.simps [simp del]

definition trim :: "string \<Rightarrow> string" where
  "trim s = rev (trim_with (map rev ws_encodings) (rev (trim_with ws_encodings s)))"

lemma split_once_append [simp]:
  "d \<notin> set xs \<Longrightarrow> split_once d (xs @ d # ys) = Some (xs, ys)"
  by (auto simp: split_once_def dropWhile_append takeWhile_append split: if_splits)

lemma trim_with_id:
  assumes "s = [] \<or> (\<forall>w \<in> set ws. w \<noteq> [] \<longrightarrow> hd w \<noteq> hd s)"
  shows "trim_with ws s = s"
proof -
  have "\<not> (w \<noteq> [] \<and> take (length w) s = w)" if "w \<in> set ws" for w
    using assms that by (cases w; cases s) auto
  then have "List.find (\<lambda>w. w \<noteq> [] \<and> take (length w) s = w) ws = None"
    by (simp add: find_None_iff)
  then show ?thesis by (simp add: trim_with.simps)
qed

definition prefix_free :: "string list \<Rightarrow> bool" where
  "prefix_free ws \<longleftrightarrow>
     list_all (\<lambda>w. w \<noteq> [] \<and> list_all (\<lambda>v. take (length v) w = v \<longrightarrow> v = w) ws) ws"

lemma trim_with_step:
  assumes pf: "prefix_free ws" and w: "w \<in> set ws"
  shows "trim_with ws (w @ s) = trim_with ws s"
proof -
  let ?P = "\<lambda>v. v \<noteq> [] \<and> take (length v) (w @ s) = v"
  have eq: "v = w" if "v \<in> set ws" "?P v" for v
  proof (cases "length v \<le> length w")
    case True
    then have "take (length v) w = v" using that by simp
    then show ?thesis using pf w that(1) by (auto simp: prefix_free_def list_all_iff)
  next
    case False
    then have "take (length w) v = w" using arg_cong [OF conjunct2 [OF that(2)], of "take (length w)"]
      by simp
    then show ?thesis using pf w that(1) by (auto simp: prefix_free_def list_all_iff)
  qed
  have "w \<noteq> []" using pf w by (auto simp: prefix_free_def list_all_iff)
  then have "List.find ?P ws \<noteq> None" using w by (auto simp: find_None_iff)
  then obtain v where v: "List.find ?P ws = Some v" by blast
  then have "v \<in> set ws" "?P v" by (auto simp: find_Some_iff)
  then have "v = w" by (rule eq)
  with v show ?thesis by (simp add: trim_with.simps [of ws "w @ s"])
qed

lemma trim_with_concat:
  "prefix_free ws \<Longrightarrow> set us \<subseteq> set ws \<Longrightarrow> trim_with ws (concat us @ s) = trim_with ws s"
  by (induction us) (auto simp: trim_with_step)

lemma ws_encodings_prefix_free: "prefix_free ws_encodings" "prefix_free (map rev ws_encodings)"
  by code_simp+

definition graphic :: "char \<Rightarrow> bool" where
  "graphic c \<longleftrightarrow> 33 \<le> (of_char c :: nat) \<and> (of_char c :: nat) \<le> 126"

lemma ws_encodings_not_graphic:
  "list_all (\<lambda>w. w \<noteq> [] \<and> \<not> graphic (hd w) \<and> \<not> graphic (last w)) ws_encodings"
  by code_simp

lemma trim_padded:
  assumes "set us \<subseteq> set ws_encodings" and "set vs \<subseteq> set ws_encodings"
    and "s \<noteq> []" and "graphic (hd s)" and "graphic (last s)"
  shows "trim (concat us @ s @ concat vs) = s"
proof -
  have ng: "w \<noteq> []" "\<not> graphic (hd w)" "\<not> graphic (last w)" if "w \<in> set ws_encodings" for w
    using ws_encodings_not_graphic that by (auto simp: list_all_iff)
  have "trim_with ws_encodings (s @ concat vs) = s @ concat vs"
    using assms(3,4) ng(2) by (intro trim_with_id) (metis hd_append2)
  then have "trim_with ws_encodings (concat us @ s @ concat vs) = s @ concat vs"
    using assms(1) by (simp add: trim_with_concat ws_encodings_prefix_free)
  moreover have "trim_with (map rev ws_encodings) (concat (map rev (rev vs)) @ rev s) = rev s"
  proof -
    have "trim_with (map rev ws_encodings) (rev s) = rev s"
      using assms(3,5) by (intro trim_with_id) (auto simp: hd_rev dest: ng(3))
    then show ?thesis
      using assms(2) by (subst trim_with_concat) (auto simp: ws_encodings_prefix_free)
  qed
  ultimately show ?thesis by (simp add: trim_def rev_concat rev_map)
qed

lemma trim_plain: "s \<noteq> [] \<Longrightarrow> graphic (hd s) \<Longrightarrow> graphic (last s) \<Longrightarrow> trim s = s"
  using trim_padded [of "[]" "[]" s] by simp

lemma graphic_digits: "d < 16 \<Longrightarrow> graphic (lower_digit d)" "d < 16 \<Longrightarrow> graphic (upper_digit d)"
  by (simp_all add: graphic_def)

lemma graphic_hex: "hex_val c = Some d \<Longrightarrow> graphic c"
  by (auto simp: hex_val_def graphic_def Let_def split: if_splits)

lemma int_str_graphic: "graphic (hd (int_str v))" "graphic (last (int_str v))" "int_str v \<noteq> []"
proof -
  have digits: "graphic c" if "c \<in> set (nat_str n)" for c n
    using num_str_digits [of 10 c lower_digit n] that by (auto simp: nat_str_def graphic_digits)
  have ne: "nat_str n \<noteq> []" for n by (simp add: nat_str_def)
  show "int_str v \<noteq> []" by (simp add: int_str_def ne)
  show "graphic (hd (int_str v))"
    using digits [OF hd_in_set [OF ne]] by (auto simp: int_str_def graphic_def)
  show "graphic (last (int_str v))"
    using digits [OF last_in_set [OF ne]] by (auto simp: int_str_def ne)
qed

section \<open>Bytes\<close>

definition byte_of_char :: "char \<Rightarrow> u8" where
  "byte_of_char c = of_nat (of_char c)"

definition char_of_byte :: "u8 \<Rightarrow> char" where
  "char_of_byte b = char_of (unat b)"

definition as_bytes :: "string \<Rightarrow> bytes" where
  "as_bytes s = map byte_of_char s"

definition cont_byte :: "u8 \<Rightarrow> bool" where
  "cont_byte b \<longleftrightarrow> 128 \<le> b \<and> b \<le> 191"

text \<open>Well-formed UTF-8 (Unicode Table 3-7), the check of \<open>std::str::from_utf8\<close>.\<close>

fun valid_utf8 :: "bytes \<Rightarrow> bool" where
  "valid_utf8 [] = True"
| "valid_utf8 (b # bs) =
     (if b \<le> 127 then valid_utf8 bs
      else if 194 \<le> b \<and> b \<le> 223 then
        (case bs of c # r \<Rightarrow> cont_byte c \<and> valid_utf8 r | _ \<Rightarrow> False)
      else if 224 \<le> b \<and> b \<le> 239 then
        (case bs of c # d # r \<Rightarrow>
           (if b = 224 then 160 \<le> c \<and> c \<le> 191
            else if b = 237 then 128 \<le> c \<and> c \<le> 159 else cont_byte c)
           \<and> cont_byte d \<and> valid_utf8 r
         | _ \<Rightarrow> False)
      else if 240 \<le> b \<and> b \<le> 244 then
        (case bs of c # d # e # r \<Rightarrow>
           (if b = 240 then 144 \<le> c \<and> c \<le> 191
            else if b = 244 then 128 \<le> c \<and> c \<le> 143 else cont_byte c)
           \<and> cont_byte d \<and> cont_byte e \<and> valid_utf8 r
         | _ \<Rightarrow> False)
      else False)"

definition from_utf8 :: "bytes \<Rightarrow> string option" where
  "from_utf8 bs = (if valid_utf8 bs then Some (map char_of_byte bs) else None)"

fun be_enc :: "nat \<Rightarrow> nat \<Rightarrow> bytes" where
  "be_enc 0 n = []"
| "be_enc (Suc k) n = be_enc k (n div 256) @ [of_nat (n mod 256)]"

definition be_dec :: "bytes \<Rightarrow> nat" where
  "be_dec bs = foldl (\<lambda>a b. a * 256 + unat b) 0 bs"

definition to_be_bytes64 :: "64 word \<Rightarrow> bytes" where
  "to_be_bytes64 w = be_enc 8 (unat w)"

definition to_be_bytes32 :: "32 word \<Rightarrow> bytes" where
  "to_be_bytes32 w = be_enc 4 (unat w)"

lemma char_byte_inverse [simp]: "char_of_byte (byte_of_char c) = c"
proof -
  have "(of_char c :: nat) < 256" by (rule nat_of_char_less_256)
  then show ?thesis by (simp add: char_of_byte_def byte_of_char_def unat_of_nat)
qed

lemma byte_char_inverse [simp]: "byte_of_char (char_of_byte b) = b"
proof -
  have "unat b < 256" using unat_lt [of b] by simp
  then show ?thesis by (simp add: char_of_byte_def byte_of_char_def)
qed

lemma from_utf8_Some: "from_utf8 bs = Some s \<longleftrightarrow> valid_utf8 bs \<and> bs = as_bytes s"
  by (auto simp: from_utf8_def as_bytes_def comp_def)

lemma from_utf8_as_bytes: "valid_utf8 (as_bytes s) \<Longrightarrow> from_utf8 (as_bytes s) = Some s"
  by (simp add: from_utf8_Some)

lemma length_be_enc [simp]: "length (be_enc k n) = k"
  by (induction k arbitrary: n) auto

lemma be_dec_snoc [simp]: "be_dec (bs @ [b]) = be_dec bs * 256 + unat b"
  by (simp add: be_dec_def)

lemma be_dec_Nil [simp]: "be_dec [] = 0"
  by (simp add: be_dec_def)

lemma be_dec_be_enc: "be_dec (be_enc k n) = n mod 256 ^ k"
proof (induction k arbitrary: n)
  case 0
  then show ?case by simp
next
  case (Suc k)
  have "n div 256 mod 256 ^ k * 256 + n mod 256 = n mod (256 * 256 ^ k)"
    by (metis mod_mult2_eq mult.commute)
  then show ?case by (simp add: Suc.IH unat_of_nat)
qed

lemma be_dec_bound: "be_dec bs < 256 ^ length bs"
proof (induction bs rule: rev_induct)
  case Nil
  then show ?case by simp
next
  case (snoc b bs)
  have "unat b < 256" using unat_lt [of b] by simp
  with snoc show ?case by simp
qed

lemma be_enc_be_dec: "be_enc (length bs) (be_dec bs) = bs"
proof (induction bs rule: rev_induct)
  case Nil
  then show ?case by simp
next
  case (snoc b bs)
  have "unat b < 256" using unat_lt [of b] by simp
  with snoc show ?case by simp
qed

lemma be_dec_to_be_bytes64 [simp]: "be_dec (to_be_bytes64 w) = unat w"
  using unat_lt [of w] by (simp add: to_be_bytes64_def be_dec_be_enc)

lemma be_dec_to_be_bytes32 [simp]: "be_dec (to_be_bytes32 w) = unat w"
  using unat_lt [of w] by (simp add: to_be_bytes32_def be_dec_be_enc)

lemma length_to_be_bytes [simp]:
  "length (to_be_bytes64 w) = 8" "length (to_be_bytes32 v) = 4"
  by (simp_all add: to_be_bytes64_def to_be_bytes32_def)

end
