(* ===== verification/Keyspace.thy ===== *)
theory Keyspace
  imports Prelude
begin

text \<open>
  The 64-bit keyspace of \<open>pgshard-core/src/keyspace.rs\<close>: half-open key ranges, even splitting, the
  canonical hexadecimal spelling of bounds and ranges, and the partition check of a shard set.
  A range's bounds are 64-bit words; the code widens to \<open>u128\<close> where an end of \<open>2^64\<close> has to be
  representable, and so does the model.
\<close>

section \<open>Definitions\<close>

type_synonym keyspace_id = u64

record key_range =
  kr_start :: u64
  kr_end :: "u64 option"

datatype key_range_error =
    KR_Empty u64 u64
  | KR_InvalidBound string
  | KR_InvalidSyntax string
  | KR_InvalidSplit u32

definition FULL :: key_range where
  "FULL = \<lparr>kr_start = 0, kr_end = None\<rparr>"

definition key_range_new :: "u64 \<Rightarrow> u64 option \<Rightarrow> key_range_error + key_range" where
  "key_range_new start end =
     (case end of
        Some e \<Rightarrow> if start \<ge> e then Err (KR_Empty start e)
                  else Ok \<lparr>kr_start = start, kr_end = end\<rparr>
      | None \<Rightarrow> Ok \<lparr>kr_start = start, kr_end = end\<rparr>)"

definition end_exclusive :: "key_range \<Rightarrow> u128" where
  "end_exclusive r = (case kr_end r of None \<Rightarrow> push_bit 64 1 | Some e \<Rightarrow> ucast e)"

definition contains :: "key_range \<Rightarrow> keyspace_id \<Rightarrow> bool" where
  "contains r i \<longleftrightarrow> i \<ge> kr_start r \<and> ucast i < end_exclusive r"

definition intersects :: "key_range \<Rightarrow> key_range \<Rightarrow> bool" where
  "intersects r other \<longleftrightarrow>
     (ucast (kr_start r) :: u128) < end_exclusive other
     \<and> (ucast (kr_start other) :: u128) < end_exclusive r"

definition split_bound :: "u128 \<Rightarrow> u128 \<Rightarrow> u32 \<Rightarrow> u128 \<Rightarrow> u128" where
  "split_bound start width parts i = start + (i * width) div ucast parts"

definition split_evenly :: "key_range \<Rightarrow> u32 \<Rightarrow> key_range_error + key_range list" where
  "split_evenly r parts =
     (if parts = 0 then Err (KR_InvalidSplit parts)
      else
        let start = ucast (kr_start r) :: u128;
            width = end_exclusive r - start
        in if width < ucast parts then Err (KR_InvalidSplit parts)
           else Ok (map (\<lambda>i.
                  let lo = ucast (split_bound start width parts (of_nat i)) :: u64;
                      hi = split_bound start width parts (of_nat i + 1)
                  in \<lparr>kr_start = lo,
                      kr_end = (if hi = end_exclusive r then kr_end r else Some (ucast hi))\<rparr>)
                [0 ..< unat parts]))"

text \<open>\<open>trim_end_matches("00")\<close>, on the reversed string.\<close>

fun trim_end_00 :: "string \<Rightarrow> string" where
  "trim_end_00 (c # d # s) =
     (if c = CHR ''0'' \<and> d = CHR ''0'' then trim_end_00 s else c # d # s)"
| "trim_end_00 s = s"

definition format_bound :: "u64 \<Rightarrow> string" where
  "format_bound v = (if v = 0 then [] else rev (trim_end_00 (rev (hex_fixed 16 (unat v)))))"

definition bound_char :: "char \<Rightarrow> bool" where
  "bound_char c \<longleftrightarrow> is_ascii_digit c \<or> (97 \<le> (of_char c :: nat) \<and> (of_char c :: nat) \<le> 102)"

definition parse_bound :: "string \<Rightarrow> key_range_error + u64" where
  "parse_bound s =
     (if s = [] then Ok 0
      else if \<not> even (length s) \<or> length s > 16 \<or> \<not> list_all bound_char s
        then Err (KR_InvalidBound s)
      else case from_str_radix16_u64 s of
             None \<Rightarrow> Err (KR_InvalidBound s)
           | Some parsed \<Rightarrow> Ok (push_bit (4 * (16 - length s)) parsed))"

definition key_range_to_string :: "key_range \<Rightarrow> string" where
  "key_range_to_string r = format_bound (kr_start r) @ ''-''
     @ (case kr_end r of None \<Rightarrow> [] | Some e \<Rightarrow> format_bound e)"

definition key_range_from_str :: "string \<Rightarrow> key_range_error + key_range" where
  "key_range_from_str s =
     (case split_once (CHR ''-'') s of
        None \<Rightarrow> Err (KR_InvalidSyntax s)
      | Some (start, end) \<Rightarrow>
          bind_res (parse_bound start) (\<lambda>start.
          bind_res (if end = [] then Ok None
                    else bind_res (parse_bound end) (\<lambda>e. Ok (Some e))) (\<lambda>end.
          key_range_new start end)))"

datatype partition_error =
    PE_Empty
  | PE_DoesNotStartAtZero u64
  | PE_GapOrOverlap nat "u64 option" u64
  | PE_DoesNotEndAtMax u64

fun check_windows :: "nat \<Rightarrow> key_range list \<Rightarrow> partition_error + unit" where
  "check_windows index (a # b # rest) =
     (if kr_end a \<noteq> Some (kr_start b)
      then Err (PE_GapOrOverlap (index + 1) (kr_end a) (kr_start b))
      else check_windows (Suc index) (b # rest))"
| "check_windows index _ = Ok ()"

definition validate_partition :: "key_range list \<Rightarrow> partition_error + unit" where
  "validate_partition ranges =
     (case ranges of
        [] \<Rightarrow> Err PE_Empty
      | first # _ \<Rightarrow>
          if kr_start first \<noteq> 0 then Err (PE_DoesNotStartAtZero (kr_start first))
          else bind_res (check_windows 0 ranges) (\<lambda>_.
                 case kr_end (last ranges) of
                   None \<Rightarrow> Ok ()
                 | Some e \<Rightarrow> Err (PE_DoesNotEndAtMax e)))"

section \<open>The interval view of a range\<close>

text \<open>
  \<open>wf_range\<close> is what the private constructor guarantees. The lemmas below read a range as the
  interval \<open>[lo, hi)\<close> of natural numbers.
\<close>

definition wf_range :: "key_range \<Rightarrow> bool" where
  "wf_range r \<longleftrightarrow> (case kr_end r of None \<Rightarrow> True | Some e \<Rightarrow> kr_start r < e)"

definition lo :: "key_range \<Rightarrow> nat" where
  "lo r = unat (kr_start r)"

definition hi :: "key_range \<Rightarrow> nat" where
  "hi r = unat (end_exclusive r)"

lemma unat_end_exclusive: "hi r = (case kr_end r of None \<Rightarrow> 2 ^ 64 | Some e \<Rightarrow> unat e)"
  by (cases "kr_end r") (simp_all add: hi_def end_exclusive_def unat_ucast_up push_bit_eq_mult)

lemma lo_less: "lo r < 2 ^ 64"
  using unat_lt [of "kr_start r"] by (simp add: lo_def)

lemma hi_le: "hi r \<le> 2 ^ 64"
  using unat_lt [where w = "the (kr_end r)"]
  by (cases "kr_end r") (simp_all add: unat_end_exclusive)

lemma contains_iff: "contains r i \<longleftrightarrow> lo r \<le> unat i \<and> unat i < hi r"
  by (simp add: contains_def lo_def hi_def word_le_nat_alt word_less_nat_alt unat_ucast_up)

lemma wf_range_iff: "wf_range r \<longleftrightarrow> lo r < hi r"
  using lo_less [of r]
  by (cases "kr_end r") (auto simp: wf_range_def lo_def unat_end_exclusive word_less_nat_alt)

lemma intersects_iff: "intersects r s \<longleftrightarrow> lo r < hi s \<and> lo s < hi r"
  by (simp add: intersects_def lo_def hi_def word_less_nat_alt unat_ucast_up)

lemma kr_end_Some_iff: "kr_end r = Some s \<longleftrightarrow> hi r = unat s"
  using unat_lt [of s] by (cases "kr_end r") (auto simp: unat_end_exclusive)

lemma kr_end_None_iff: "kr_end r = None \<longleftrightarrow> hi r = 2 ^ 64"
  using unat_lt [where w = "the (kr_end r)"] by (cases "kr_end r") (auto simp: unat_end_exclusive)

lemma key_range_eqI:
  assumes "lo r = lo s" and "hi r = hi s"
  shows "r = (s :: key_range)"
proof (rule key_range.equality)
  show "kr_start r = kr_start s" using assms(1) by (simp add: lo_def)
  show "kr_end r = kr_end s"
  proof (cases "kr_end r")
    case None
    then have "hi s = 2 ^ 64" using assms(2) kr_end_None_iff [of r] by simp
    then have "kr_end s = None" by (simp only: kr_end_None_iff)
    with None show ?thesis by simp
  next
    case (Some e)
    then have "hi s = unat e" using assms(2) kr_end_Some_iff [of r e] by simp
    then have "kr_end s = Some e" by (simp only: kr_end_Some_iff)
    with Some show ?thesis by simp
  qed
qed simp

lemma key_range_new_wf: "key_range_new s e = Ok r \<Longrightarrow> wf_range r"
  by (auto simp: key_range_new_def wf_range_def split: option.splits if_splits)

lemma key_range_new_Ok:
  "wf_range r \<Longrightarrow> key_range_new (kr_start r) (kr_end r) = Ok r"
  by (cases "kr_end r") (auto simp: key_range_new_def wf_range_def intro: key_range.equality)

section \<open>Adjacent ranges cover an interval exactly once\<close>

definition adjacent :: "key_range list \<Rightarrow> bool" where
  "adjacent rs \<longleftrightarrow> (\<forall>i. Suc i < length rs \<longrightarrow> hi (rs ! i) = lo (rs ! Suc i))"

lemma adjacent_Cons_Cons:
  "adjacent (a # b # rs) \<longleftrightarrow> hi a = lo b \<and> adjacent (b # rs)"
proof
  assume adj: "adjacent (a # b # rs)"
  have "hi ((a # b # rs) ! i) = lo ((a # b # rs) ! Suc i)" if "Suc i < length (a # b # rs)" for i
    using adj that unfolding adjacent_def by blast
  then have "hi a = lo b" and "\<And>i. Suc i < length (b # rs) \<Longrightarrow> hi ((b # rs) ! i) = lo ((b # rs) ! Suc i)"
    by force+
  then show "hi a = lo b \<and> adjacent (b # rs)"
    unfolding adjacent_def by blast
next
  assume adj: "hi a = lo b \<and> adjacent (b # rs)"
  show "adjacent (a # b # rs)"
    unfolding adjacent_def
  proof (intro allI impI)
    fix i
    assume "Suc i < length (a # b # rs)"
    with adj show "hi ((a # b # rs) ! i) = lo ((a # b # rs) ! Suc i)"
      by (cases i) (auto simp: adjacent_def)
  qed
qed

lemma adjacent_le:
  assumes "adjacent rs" and "\<forall>r \<in> set rs. wf_range r" and "i < j" and "j < length rs"
  shows "hi (rs ! i) \<le> lo (rs ! j)"
  using assms(3,4)
proof (induction j)
  case 0
  then show ?case by simp
next
  case (Suc j)
  have step: "hi (rs ! j) = lo (rs ! Suc j)"
    using assms(1) Suc.prems by (simp add: adjacent_def)
  show ?case
  proof (cases "i = j")
    case True
    with step show ?thesis by simp
  next
    case False
    with Suc have "hi (rs ! i) \<le> lo (rs ! j)" by simp
    moreover have "lo (rs ! j) < hi (rs ! j)"
      using assms(2) Suc.prems by (simp add: wf_range_iff)
    ultimately show ?thesis using step by simp
  qed
qed

lemma adjacent_cover_ex:
  assumes "adjacent rs" and "rs \<noteq> []" and "lo (hd rs) \<le> n" and "n < hi (last rs)"
  shows "\<exists>i < length rs. lo (rs ! i) \<le> n \<and> n < hi (rs ! i)"
  using assms
proof (induction rs rule: induct_list012)
  case (3 a b rs)
  show ?case
  proof (cases "n < hi a")
    case True
    with 3 show ?thesis by (intro exI [of _ 0]) simp
  next
    case False
    with 3 have "\<exists>i < length (b # rs). lo ((b # rs) ! i) \<le> n \<and> n < hi ((b # rs) ! i)"
      by (auto simp: adjacent_Cons_Cons)
    then show ?thesis by (metis Suc_less_eq length_Cons nth_Cons_Suc)
  qed
qed auto

lemma adjacent_cover:
  assumes "adjacent rs" and "\<forall>r \<in> set rs. wf_range r" and "rs \<noteq> []"
    and "lo (hd rs) \<le> unat i" and "unat i < hi (last rs)"
  shows "\<exists>!k. k < length rs \<and> contains (rs ! k) i"
proof -
  obtain k where k: "k < length rs" "contains (rs ! k) i"
    using adjacent_cover_ex [OF assms(1,3,4,5)] by (auto simp: contains_iff)
  moreover have "j = k" if "j < length rs" "contains (rs ! j) i" for j
  proof (rule ccontr)
    assume "j \<noteq> k"
    then consider "j < k" | "k < j" by linarith
    then show False
      using adjacent_le [OF assms(1,2)] that k by cases (fastforce simp: contains_iff)+
  qed
  ultimately show ?thesis by blast
qed

lemma contained_in_adjacent:
  assumes "adjacent rs" and "\<forall>r \<in> set rs. wf_range r" and "k < length rs"
    and "contains (rs ! k) i"
  shows "lo (hd rs) \<le> unat i" and "unat i < hi (last rs)"
proof -
  have ne: "rs \<noteq> []" using assms(3) by auto
  have wf0: "lo (rs ! 0) < hi (rs ! 0)" and wfl: "lo (last rs) < hi (last rs)"
    using assms(2) ne by (auto simp: wf_range_iff)
  have "lo (hd rs) \<le> lo (rs ! k)"
    using adjacent_le [OF assms(1,2), of 0 k] assms(3) wf0 ne
    by (cases "k = 0") (auto simp: hd_conv_nth)
  then show "lo (hd rs) \<le> unat i" using assms(4) by (simp add: contains_iff)
  have "hi (rs ! k) \<le> hi (last rs)"
  proof (cases "k = length rs - 1")
    case True
    then show ?thesis using ne by (simp add: last_conv_nth)
  next
    case False
    then have "hi (rs ! k) \<le> lo (rs ! (length rs - 1))"
      using assms(3) by (intro adjacent_le [OF assms(1,2)]) simp_all
    then show ?thesis using wfl ne by (simp add: last_conv_nth)
  qed
  then show "unat i < hi (last rs)" using assms(4) by (simp add: contains_iff)
qed

lemma check_windows_Ok:
  "check_windows n rs = Ok () \<longleftrightarrow> adjacent rs"
proof (induction n rs rule: check_windows.induct)
  case (1 n a b rs)
  then show ?case
    by (auto simp: adjacent_Cons_Cons kr_end_Some_iff lo_def)
qed (auto simp: adjacent_def)

lemma validate_partition_Ok:
  "validate_partition rs = Ok () \<longleftrightarrow>
     rs \<noteq> [] \<and> lo (hd rs) = 0 \<and> adjacent rs \<and> hi (last rs) = 2 ^ 64"
proof (cases rs)
  case Nil
  then show ?thesis by (simp add: validate_partition_def)
next
  case (Cons a as)
  have zero: "kr_start a = 0 \<longleftrightarrow> lo a = 0" by (simp add: lo_def unat_eq_0)
  have "validate_partition rs = Ok () \<longleftrightarrow>
      kr_start a = 0 \<and> check_windows 0 rs = Ok () \<and> kr_end (last rs) = None"
    by (auto simp: Cons validate_partition_def bind_res_def split: option.splits sum.splits)
  then show ?thesis
    by (simp only: Cons list.distinct list.sel zero check_windows_Ok kr_end_None_iff) simp
qed

lemma validate_partition_covers:
  assumes "validate_partition rs = Ok ()" and "\<forall>r \<in> set rs. wf_range r"
  shows "\<exists>!k. k < length rs \<and> contains (rs ! k) i"
  using assms unat_lt [of i] by (intro adjacent_cover) (simp_all add: validate_partition_Ok)

section \<open>Even splitting\<close>

definition cut :: "key_range \<Rightarrow> u32 \<Rightarrow> nat \<Rightarrow> nat" where
  "cut r parts i = lo r + (i * (hi r - lo r)) div unat parts"

lemma cut_ends:
  assumes "wf_range r" and "parts \<noteq> 0"
  shows "cut r parts 0 = lo r" and "cut r parts (unat parts) = hi r"
  using assms by (simp_all add: cut_def wf_range_iff unat_eq_0)

lemma cut_Suc_less:
  assumes "parts \<noteq> 0" and "unat parts \<le> hi r - lo r"
  shows "cut r parts i < cut r parts (Suc i)"
proof -
  have "unat parts \<noteq> 0" using assms(1) by (simp add: unat_eq_0)
  then have "i * (hi r - lo r) div unat parts < (i * (hi r - lo r) + unat parts) div unat parts"
    by (simp add: div_add_self2 [OF \<open>unat parts \<noteq> 0\<close>])
  also have "\<dots> \<le> (Suc i * (hi r - lo r)) div unat parts"
    using assms(2) by (intro div_le_mono) simp
  finally show ?thesis by (simp add: cut_def)
qed

lemma cut_le_hi:
  assumes "wf_range r" and "parts \<noteq> 0" and "i \<le> unat parts"
  shows "cut r parts i \<le> hi r"
proof -
  have "i * (hi r - lo r) div unat parts \<le> unat parts * (hi r - lo r) div unat parts"
    using assms(3) by (intro div_le_mono mult_le_mono1)
  then have "cut r parts i \<le> cut r parts (unat parts)" by (simp only: cut_def add_le_cancel_left)
  with assms cut_ends(2) show ?thesis by simp
qed

lemma unat_width: "wf_range r \<Longrightarrow> unat (end_exclusive r - ucast (kr_start r)) = hi r - lo r"
  by (simp add: wf_range_iff lo_def hi_def unat_sub word_le_nat_alt unat_ucast_up)

lemma unat_split_bound:
  assumes "wf_range r" and "parts \<noteq> 0" and "i \<le> unat parts"
  shows "unat (split_bound (ucast (kr_start r)) (end_exclusive r - ucast (kr_start r)) parts (of_nat i))
    = cut r parts i"
proof -
  let ?w = "end_exclusive r - ucast (kr_start r) :: u128"
  have P: "unat parts < 2 ^ 32" using unat_lt [of parts] by simp
  have i: "unat (of_nat i :: u128) = i" using assms(3) P by (simp add: unat_of_nat)
  have w: "unat ?w = hi r - lo r" using assms(1) by (rule unat_width)
  have W: "hi r - lo r \<le> 2 ^ 64" using hi_le [of r] by linarith
  have "i * (hi r - lo r) \<le> 2 ^ 32 * 2 ^ 64"
    using assms(3) P W by (intro mult_le_mono) simp_all
  then have prod: "unat (of_nat i * ?w) = i * (hi r - lo r)"
    using unat_mult_lem [of "of_nat i :: u128" ?w] i w by simp
  have quot: "unat ((of_nat i * ?w) div ucast parts) = i * (hi r - lo r) div unat parts"
    by (simp add: unat_div prod unat_ucast_up)
  have "cut r parts i \<le> 2 ^ 64" using cut_le_hi [OF assms] hi_le [of r] by linarith
  then show ?thesis
    using unat_add_lem [of "ucast (kr_start r) :: u128" "(of_nat i * ?w) div ucast parts"] quot
    by (simp add: split_bound_def cut_def lo_def unat_ucast_up)
qed

lemma split_evenly_Ok:
  assumes "wf_range r" and "split_evenly r parts = Ok rs"
  shows "parts \<noteq> 0" and "unat parts \<le> hi r - lo r" and "length rs = unat parts"
    and "\<And>i. i < length rs \<Longrightarrow> lo (rs ! i) = cut r parts i"
    and "\<And>i. i < length rs \<Longrightarrow> hi (rs ! i) = cut r parts (Suc i)"
proof -
  let ?s = "ucast (kr_start r) :: u128" and ?w = "end_exclusive r - ucast (kr_start r) :: u128"
  let ?b = "\<lambda>i. split_bound ?s ?w parts i"
  show parts: "parts \<noteq> 0" using assms(2) by (auto simp: split_evenly_def)
  with assms(2) have fits: "\<not> ?w < ucast parts"
    and rs: "rs = map (\<lambda>i. \<lparr>kr_start = ucast (?b (of_nat i)),
      kr_end = (if ?b (of_nat i + 1) = end_exclusive r then kr_end r
                else Some (ucast (?b (of_nat i + 1))))\<rparr>) [0 ..< unat parts]"
    by (auto simp: split_evenly_def Let_def split: if_splits)
  show le: "unat parts \<le> hi r - lo r"
    using fits unat_width [OF assms(1)] by (simp add: word_less_nat_alt unat_ucast_up)
  show len: "length rs = unat parts" by (simp add: rs)
  fix i
  assume i: "i < length rs"
  have bi: "unat (?b (of_nat i)) = cut r parts i"
    using i len by (intro unat_split_bound [OF assms(1) parts]) simp
  have bs: "unat (?b (of_nat i + 1)) = cut r parts (Suc i)"
    using unat_split_bound [OF assms(1) parts, of "Suc i"] i len by (simp add: add.commute)
  have less: "cut r parts i < cut r parts (Suc i)" by (rule cut_Suc_less [OF parts le])
  have le_hi: "cut r parts (Suc i) \<le> hi r" using i len by (intro cut_le_hi [OF assms(1) parts]) simp
  show "lo (rs ! i) = cut r parts i"
    using i len less le_hi hi_le [of r] by (simp add: rs lo_def unat_ucast bi)
  show "hi (rs ! i) = cut r parts (Suc i)"
  proof (cases "?b (of_nat i + 1) = end_exclusive r")
    case True
    then have "cut r parts (Suc i) = hi r" using bs by (simp add: hi_def)
    moreover have "hi (rs ! i) = hi r"
      using i len True by (simp add: rs unat_end_exclusive)
    ultimately show ?thesis by simp
  next
    case False
    then have "cut r parts (Suc i) \<noteq> hi r" using bs by (metis hi_def unat_inject)
    with le_hi hi_le [of r] have "cut r parts (Suc i) < 2 ^ 64" by linarith
    then show ?thesis
      using i len False by (simp add: rs unat_end_exclusive unat_ucast bs)
  qed
qed

lemma split_evenly_adjacent:
  assumes "wf_range r" and "split_evenly r parts = Ok rs"
  shows "rs \<noteq> []" and "adjacent rs" and "\<forall>r \<in> set rs. wf_range r"
    and "lo (hd rs) = lo r" and "hi (last rs) = hi r"
proof -
  note ok = split_evenly_Ok [OF assms]
  show ne: "rs \<noteq> []" using ok(1,3) by (auto simp: unat_eq_0)
  show "adjacent rs" using ok(4,5) by (simp add: adjacent_def)
  show "\<forall>r \<in> set rs. wf_range r"
    using ok(4,5) cut_Suc_less [OF ok(1,2)] by (auto simp: wf_range_iff in_set_conv_nth)
  show "lo (hd rs) = lo r"
    using ne ok(4) [of 0] cut_ends(1) [OF assms(1) ok(1)] by (simp add: hd_conv_nth)
  have "length rs - 1 < length rs" and "Suc (length rs - 1) = unat parts"
    using ne ok(3) by (cases rs; simp)+
  then have "hi (rs ! (length rs - 1)) = hi r"
    using ok(5) [of "length rs - 1"] cut_ends(2) [OF assms(1) ok(1)] by (simp only:)
  then show "hi (last rs) = hi r" using ne by (simp add: last_conv_nth)
qed

lemma cut_step:
  assumes "parts \<noteq> 0" and "lo r \<le> hi r"
  shows "(hi r - lo r) div unat parts \<le> cut r parts (Suc i) - cut r parts i"
    and "cut r parts (Suc i) - cut r parts i \<le> (hi r - lo r) div unat parts + 1"
proof -
  let ?W = "hi r - lo r" and ?P = "unat parts"
  have P: "0 < ?P" using assms(1) by (simp add: unat_gt_0)
  have "(i * ?W mod ?P + ?W mod ?P) div ?P < 2"
    using P mod_less_divisor [OF P, of "i * ?W"] mod_less_divisor [OF P, of ?W]
    by (simp only: less_mult_imp_div_less)
  moreover have "(i * ?W + ?W) div ?P = i * ?W div ?P + ?W div ?P + (i * ?W mod ?P + ?W mod ?P) div ?P"
    by (rule div_add1_eq)
  ultimately show "?W div ?P \<le> cut r parts (Suc i) - cut r parts i"
    and "cut r parts (Suc i) - cut r parts i \<le> ?W div ?P + 1"
    by (simp_all add: cut_def add.commute)
qed

section \<open>Bounds and their spelling\<close>

lemma trim_end_00_split:
  "\<exists>k. s = replicate (2 * k) (CHR ''0'') @ trim_end_00 s"
proof (induction s rule: trim_end_00.induct)
  case (1 c d s)
  show ?case
  proof (cases "c = CHR ''0'' \<and> d = CHR ''0''")
    case True
    with 1 obtain k where "s = replicate (2 * k) (CHR ''0'') @ trim_end_00 s" by blast
    with True have "c # d # s = replicate (2 * Suc k) (CHR ''0'') @ trim_end_00 (c # d # s)"
      by simp
    then show ?thesis by blast
  next
    case False
    then have "trim_end_00 (c # d # s) = c # d # s" by auto
    then show ?thesis by (intro exI [of _ 0]) (simp only: mult_0_right replicate_0 append_Nil)
  qed
qed auto

lemma format_bound_split:
  assumes "v \<noteq> 0"
  obtains k where "hex_fixed 16 (unat v) = format_bound v @ replicate (2 * k) (CHR ''0'')"
proof -
  obtain k where k: "rev (hex_fixed 16 (unat v)) =
      replicate (2 * k) (CHR ''0'') @ trim_end_00 (rev (hex_fixed 16 (unat v)))"
    using trim_end_00_split by blast
  then have "hex_fixed 16 (unat v) =
      rev (replicate (2 * k) (CHR ''0'') @ trim_end_00 (rev (hex_fixed 16 (unat v))))"
    by (metis rev_rev_ident)
  then have "hex_fixed 16 (unat v) = format_bound v @ replicate (2 * k) (CHR ''0'')"
    using assms by (simp add: format_bound_def)
  then show thesis by (rule that)
qed

lemma radix_val_zeros:
  "radix_val hex_val 16 n (replicate k (CHR ''0'')) = Some (n * 16 ^ k)"
proof (induction k arbitrary: n)
  case (Suc k)
  have "hex_val (CHR ''0'') = Some 0" by (simp add: hex_val_def)
  with Suc show ?case by (simp add: mult.assoc)
qed simp

lemma format_bound_chars:
  assumes "v \<noteq> 0"
  shows "list_all bound_char (format_bound v)" and "CHR ''-'' \<notin> set (format_bound v)"
    and "CHR ''+'' \<notin> set (format_bound v)"
proof -
  obtain k where "hex_fixed 16 (unat v) = format_bound v @ replicate (2 * k) (CHR ''0'')"
    using format_bound_split [OF assms] by blast
  then have sub: "set (format_bound v) \<subseteq> set (hex_fixed 16 (unat v))" by simp
  have digits: "\<exists>d < 16. c = lower_digit d" if "c \<in> set (format_bound v)" for c
    using hex_fixed_digits sub that by blast
  show "list_all bound_char (format_bound v)"
    using digits by (force simp: list_all_iff bound_char_def is_ascii_digit_def)
  show "CHR ''-'' \<notin> set (format_bound v)" "CHR ''+'' \<notin> set (format_bound v)"
    using digits digit_not_sign by metis+
qed

lemma radix_val_bound: "radix_val hex_val 16 0 s = Some n \<Longrightarrow> n < 16 ^ length s"
proof (induction s arbitrary: n rule: rev_induct)
  case Nil
  then show ?case by simp
next
  case (snoc c s)
  then obtain m d where m: "radix_val hex_val 16 0 s = Some m" and d: "hex_val c = Some d"
    and n: "n = m * 16 + d"
    by (auto simp: radix_val_append split: option.splits)
  have "m < 16 ^ length s" using m by (rule snoc.IH)
  moreover have "d < 16" using d by (rule hex_val_bound)
  ultimately show ?case using n by simp
qed

lemma parse_format_bound: "parse_bound (format_bound v) = Ok v"
proof (cases "v = 0")
  case True
  then show ?thesis by (simp add: format_bound_def parse_bound_def)
next
  case False
  let ?s = "format_bound v"
  obtain k where k: "hex_fixed 16 (unat v) = ?s @ replicate (2 * k) (CHR ''0'')"
    using format_bound_split [OF False] by blast
  have "length ?s + 2 * k = 16" using arg_cong [OF k, of length] by simp
  then have len: "length ?s = 16 - 2 * k" "2 * k \<le> 16" by linarith+
  have v: "radix_val hex_val 16 0 (hex_fixed 16 (unat v)) = Some (unat v)"
    using unat_lt [of v] by (simp only: radix_val_hex_fixed) simp
  then obtain m where m: "radix_val hex_val 16 0 ?s = Some m" and mv: "m * 16 ^ (2 * k) = unat v"
    by (auto simp: k radix_val_append radix_val_zeros split: option.splits)
  have ne: "?s \<noteq> []"
  proof
    assume "?s = []"
    with m mv have "unat v = 0" by simp
    with False show False by (simp add: unat_eq_0)
  qed
  have "hd ?s \<noteq> CHR ''+''" using format_bound_chars(3) [OF False] ne by (metis hd_in_set)
  then have pu: "parse_unsigned hex_val 16 ?s = Some m" using ne m by (simp add: parse_unsigned_plain)
  have "m \<le> m * 16 ^ (2 * k)" by simp
  then have "m < 2 ^ 64" using mv unat_lt [of v] by simp
  then have fs: "from_str_radix16_u64 ?s = Some (of_nat m)" by (simp add: from_str_radix16_u64_def pu)
  have "4 * (16 - length ?s) = 8 * k" using len by linarith
  moreover have "push_bit (8 * k) (of_nat m :: u64) = v"
  proof -
    have "push_bit (8 * k) (of_nat m :: u64) = of_nat (m * 16 ^ (2 * k))"
      by (simp add: push_bit_eq_mult power_mult)
    then show ?thesis by (simp add: mv)
  qed
  ultimately show ?thesis
    using ne len format_bound_chars(1) [OF False] by (simp add: parse_bound_def fs)
qed

lemma format_bound_eq_Nil [simp]: "format_bound v = [] \<longleftrightarrow> v = 0"
  using parse_format_bound [of v] by (auto simp: format_bound_def parse_bound_def)

lemma format_bound_no_dash: "CHR ''-'' \<notin> set (format_bound v)"
  using format_bound_chars(2) [of v] by (cases "v = 0") (simp_all add: format_bound_def)

section \<open>An exact cover in start order is accepted\<close>

definition exact_cover :: "key_range list \<Rightarrow> bool" where
  "exact_cover rs \<longleftrightarrow>
     (\<forall>i j. i < j \<and> j < length rs \<longrightarrow> kr_start (rs ! i) < kr_start (rs ! j))
     \<and> (\<forall>key. \<exists>!k. k < length rs \<and> contains (rs ! k) key)"

lemma exact_cover_starts:
  "exact_cover rs \<Longrightarrow> i < j \<Longrightarrow> j < length rs \<Longrightarrow> lo (rs ! i) < lo (rs ! j)"
  by (simp add: exact_cover_def lo_def word_less_nat_alt)

lemma exact_cover_unique:
  "exact_cover rs \<Longrightarrow> i < length rs \<Longrightarrow> j < length rs \<Longrightarrow>
   contains (rs ! i) key \<Longrightarrow> contains (rs ! j) key \<Longrightarrow> i = j"
  unfolding exact_cover_def by blast

lemma exact_cover_ex: "exact_cover rs \<Longrightarrow> \<exists>k < length rs. contains (rs ! k) key"
  unfolding exact_cover_def by blast

lemma contains_start: "wf_range r \<Longrightarrow> contains r (kr_start r)"
  by (simp add: contains_iff wf_range_iff lo_def)

text \<open>In an exact cover the id at a range's end can only lie in a later range.\<close>

lemma exact_cover_end:
  assumes cov: "exact_cover rs" and wf: "\<forall>r \<in> set rs. wf_range r"
    and i: "i < length rs" and below: "hi (rs ! i) < 2 ^ 64"
  shows "\<exists>k. i < k \<and> k < length rs \<and> lo (rs ! k) \<le> hi (rs ! i)"
proof -
  let ?key = "of_nat (hi (rs ! i)) :: u64"
  have key: "unat ?key = hi (rs ! i)" using below by (simp add: unat_of_nat)
  obtain k where k: "k < length rs" "contains (rs ! k) ?key" using exact_cover_ex [OF cov] by blast
  then have in_k: "lo (rs ! k) \<le> hi (rs ! i)" "hi (rs ! i) < hi (rs ! k)"
    using key by (simp_all add: contains_iff)
  have wf_i: "lo (rs ! i) < hi (rs ! i)" using wf i by (simp add: wf_range_iff)
  have "\<not> k < i"
  proof
    assume "k < i"
    then have "lo (rs ! k) < lo (rs ! i)" using exact_cover_starts [OF cov] i by blast
    with in_k wf_i have "contains (rs ! k) (kr_start (rs ! i))" by (simp add: contains_iff lo_def)
    then show False
      using exact_cover_unique [OF cov k(1) i] contains_start wf i \<open>k < i\<close> by fastforce
  qed
  moreover have "k \<noteq> i" using in_k by auto
  ultimately show ?thesis using k in_k by (intro exI [of _ k]) simp
qed

lemma exact_cover_accepted:
  assumes cov: "exact_cover rs" and wf: "\<forall>r \<in> set rs. wf_range r"
  shows "validate_partition rs = Ok ()"
proof -
  obtain k where k: "k < length rs" "contains (rs ! k) 0" using exact_cover_ex [OF cov] by blast
  then have ne: "rs \<noteq> []" and "lo (rs ! k) = 0" by (auto simp: contains_iff)
  with k have "lo (rs ! 0) = 0" using exact_cover_starts [OF cov, of 0 k] by (cases "k = 0") auto
  moreover have "adjacent rs"
    unfolding adjacent_def
  proof (intro allI impI)
    fix i
    assume i: "Suc i < length rs"
    have starts: "lo (rs ! i) < lo (rs ! Suc i)" using exact_cover_starts [OF cov] i by simp
    have "\<not> lo (rs ! Suc i) < hi (rs ! i)"
    proof
      assume "lo (rs ! Suc i) < hi (rs ! i)"
      with starts have "contains (rs ! i) (kr_start (rs ! Suc i))" by (simp add: contains_iff lo_def)
      then show False
        using exact_cover_unique [OF cov _ i, of i] contains_start wf i by fastforce
    qed
    moreover have "\<not> hi (rs ! i) < lo (rs ! Suc i)"
    proof
      assume gap: "hi (rs ! i) < lo (rs ! Suc i)"
      then have "hi (rs ! i) < 2 ^ 64" using lo_less [of "rs ! Suc i"] by linarith
      then obtain k where k: "i < k" "k < length rs" "lo (rs ! k) \<le> hi (rs ! i)"
        using exact_cover_end [OF cov wf, of i] i by auto
      then have "lo (rs ! Suc i) \<le> lo (rs ! k)"
        using exact_cover_starts [OF cov, of "Suc i" k] by (cases "k = Suc i") auto
      with gap k show False by linarith
    qed
    ultimately show "hi (rs ! i) = lo (rs ! Suc i)" by linarith
  qed
  moreover have "hi (rs ! (length rs - 1)) = 2 ^ 64"
  proof (rule ccontr)
    assume "hi (rs ! (length rs - 1)) \<noteq> 2 ^ 64"
    then have "hi (rs ! (length rs - 1)) < 2 ^ 64" using hi_le [of "rs ! (length rs - 1)"] by linarith
    then show False using exact_cover_end [OF cov wf, of "length rs - 1"] ne by auto
  qed
  ultimately show ?thesis using ne by (simp add: validate_partition_Ok hd_conv_nth last_conv_nth)
qed

section \<open>Properties\<close>

text \<open>C14: \<open>validate_partition\<close> accepts a list of well-formed ranges exactly when the ranges are
  listed in strictly increasing order of their starts and every 64-bit keyspace id lies in exactly
  one of them.\<close>

theorem validate_partition_exact:
  assumes "\<forall>r \<in> set rs. wf_range r"
  shows "validate_partition rs = Ok () \<longleftrightarrow>
    (\<forall>i j. i < j \<and> j < length rs \<longrightarrow> kr_start (rs ! i) < kr_start (rs ! j))
    \<and> (\<forall>key. \<exists>!k. k < length rs \<and> contains (rs ! k) key)"
proof
  assume "validate_partition rs = Ok ()"
  then have adj: "adjacent rs" by (simp add: validate_partition_Ok)
  have "kr_start (rs ! i) < kr_start (rs ! j)" if "i < j" "j < length rs" for i j
  proof -
    have "lo (rs ! i) < hi (rs ! i)" using assms that by (simp add: wf_range_iff)
    also have "\<dots> \<le> lo (rs ! j)" using adjacent_le [OF adj assms] that by simp
    finally show ?thesis by (simp add: lo_def word_less_nat_alt)
  qed
  then show "(\<forall>i j. i < j \<and> j < length rs \<longrightarrow> kr_start (rs ! i) < kr_start (rs ! j))
    \<and> (\<forall>key. \<exists>!k. k < length rs \<and> contains (rs ! k) key)"
    using validate_partition_covers [OF \<open>validate_partition rs = Ok ()\<close> assms] by blast
next
  assume "(\<forall>i j. i < j \<and> j < length rs \<longrightarrow> kr_start (rs ! i) < kr_start (rs ! j))
    \<and> (\<forall>key. \<exists>!k. k < length rs \<and> contains (rs ! k) key)"
  then have "exact_cover rs" unfolding exact_cover_def .
  then show "validate_partition rs = Ok ()" using assms by (rule exact_cover_accepted)
qed

theorem validate_partition_exact_witness:
  "list_all wf_range [\<lparr>kr_start = 0, kr_end = Some 5\<rparr>, \<lparr>kr_start = 5, kr_end = None\<rparr>]
   \<and> (\<exists>!k. k < length [\<lparr>kr_start = 0, kr_end = Some 5\<rparr>, \<lparr>kr_start = 5, kr_end = None\<rparr>]
        \<and> contains ([\<lparr>kr_start = 0, kr_end = Some 5\<rparr>, \<lparr>kr_start = 5, kr_end = None\<rparr>] ! k) 7)"
proof -
  let ?rs = "[\<lparr>kr_start = 0, kr_end = Some 5\<rparr>, \<lparr>kr_start = 5, kr_end = None\<rparr>] :: key_range list"
  have wf: "\<forall>r \<in> set ?rs. wf_range r" by (simp add: wf_range_def)
  moreover have "validate_partition ?rs = Ok ()" by (simp add: validate_partition_def)
  ultimately have "\<exists>!k. k < length ?rs \<and> contains (?rs ! k) 7"
    using validate_partition_exact [OF wf] by blast
  then show ?thesis using wf by (simp add: list_all_iff)
qed

text \<open>C39: A successful \<open>split_evenly\<close> of a well-formed range into \<open>parts\<close> parts returns exactly
  that many well-formed ranges, starting and ending where the input does, each beginning where the
  one before ends, so that an id of the input lies in exactly one of them; the widths of any two
  parts differ by at most one.\<close>

theorem split_evenly_partitions:
  assumes "wf_range r" and "split_evenly r parts = Ok rs"
  shows "length rs = unat parts \<and> (\<forall>p \<in> set rs. wf_range p)
    \<and> kr_start (hd rs) = kr_start r \<and> kr_end (last rs) = kr_end r
    \<and> (\<forall>i. Suc i < length rs \<longrightarrow> kr_end (rs ! i) = Some (kr_start (rs ! Suc i)))
    \<and> (\<forall>key. contains r key \<longleftrightarrow> (\<exists>!k. k < length rs \<and> contains (rs ! k) key))
    \<and> (\<forall>i j. i < length rs \<and> j < length rs \<longrightarrow>
         hi (rs ! i) - lo (rs ! i) \<le> hi (rs ! j) - lo (rs ! j) + 1)"
proof -
  note ok = split_evenly_Ok [OF assms] and adj = split_evenly_adjacent [OF assms]
  have "lo r \<le> hi r" using assms(1) by (simp add: wf_range_iff)
  then have widths: "hi (rs ! i) - lo (rs ! i) \<le> hi (rs ! j) - lo (rs ! j) + 1"
    if "i < length rs" "j < length rs" for i j
    using cut_step [OF ok(1), of r i] cut_step [OF ok(1), of r j] ok(4,5) that by simp
  have "kr_start (hd rs) = kr_start r" using adj(4) by (simp add: lo_def)
  moreover have "kr_end (last rs) = kr_end r"
    using adj(5) kr_end_Some_iff kr_end_None_iff by (metis option.exhaust)
  moreover have "\<forall>i. Suc i < length rs \<longrightarrow> kr_end (rs ! i) = Some (kr_start (rs ! Suc i))"
    using adj(2) by (simp add: adjacent_def kr_end_Some_iff lo_def)
  moreover have "contains r key \<longleftrightarrow> (\<exists>!k. k < length rs \<and> contains (rs ! k) key)" for key
  proof
    assume "contains r key"
    then show "\<exists>!k. k < length rs \<and> contains (rs ! k) key"
      using adj by (intro adjacent_cover) (simp_all add: contains_iff)
  next
    assume "\<exists>!k. k < length rs \<and> contains (rs ! k) key"
    then obtain k where "k < length rs" "contains (rs ! k) key" by blast
    then show "contains r key"
      using contained_in_adjacent [OF adj(2,3)] adj(4,5) by (simp add: contains_iff)
  qed
  ultimately show ?thesis using ok(3) adj(3) widths by blast
qed

theorem split_evenly_partitions_witness:
  "wf_range FULL \<and> (\<exists>rs. split_evenly FULL 3 = Ok rs \<and> length rs = 3)"
proof -
  have wf: "wf_range FULL" by (simp add: wf_range_def FULL_def)
  obtain rs where ok: "split_evenly FULL 3 = Ok rs"
    by (simp add: split_evenly_def FULL_def end_exclusive_def)
  show ?thesis using wf ok split_evenly_partitions [OF wf, of 3] by simp
qed

text \<open>The \<open>Display\<close> form of a well-formed range parses back to the same range, and whatever
  string \<open>FromStr\<close> accepts, the range it returns is well formed.\<close>

theorem key_range_roundtrip:
  assumes "wf_range r"
  shows "key_range_from_str (key_range_to_string r) = Ok r
    \<and> (\<forall>s q. key_range_from_str s = Ok q \<longrightarrow> wf_range q)"
proof -
  have split: "split_once (CHR ''-'') (key_range_to_string r)
      = Some (format_bound (kr_start r), case kr_end r of None \<Rightarrow> [] | Some e \<Rightarrow> format_bound e)"
    by (simp add: key_range_to_string_def format_bound_no_dash)
  have "key_range_from_str (key_range_to_string r) = Ok r"
  proof (cases "kr_end r")
    case None
    then show ?thesis
      using key_range_new_Ok [OF assms] by (simp add: key_range_from_str_def split parse_format_bound)
  next
    case (Some e)
    then have "e \<noteq> 0" using assms by (auto simp: wf_range_def)
    with Some show ?thesis
      using key_range_new_Ok [OF assms] by (simp add: key_range_from_str_def split parse_format_bound)
  qed
  moreover have "wf_range q" if "key_range_from_str s = Ok q" for s q
    using that by (auto simp: key_range_from_str_def bind_res_eq_Inr
        intro: key_range_new_wf split: option.splits prod.splits if_splits)
  ultimately show ?thesis by blast
qed

theorem key_range_roundtrip_witness:
  "wf_range \<lparr>kr_start = 0x4000000000000000, kr_end = Some 0x8000000000000000\<rparr>
   \<and> key_range_to_string \<lparr>kr_start = 0x4000000000000000, kr_end = Some 0x8000000000000000\<rparr> = ''40-80''
   \<and> key_range_from_str ''40-80''
     = Ok \<lparr>kr_start = 0x4000000000000000, kr_end = Some 0x8000000000000000\<rparr>"
proof -
  let ?r = "\<lparr>kr_start = 0x4000000000000000, kr_end = Some 0x8000000000000000\<rparr> :: key_range"
  have wf: "wf_range ?r" by (simp add: wf_range_def)
  have str: "key_range_to_string ?r = ''40-80''" by code_simp
  show ?thesis using wf str key_range_roundtrip [OF wf] by simp
qed

end
