(* ===== verification/Lsn.thy ===== *)
theory Lsn
  imports Prelude
begin

text \<open>
  PostgreSQL log sequence numbers (\<open>pgshard-core/src/lsn.rs\<close>): the \<open>X/X\<close> text form, printed by
  \<open>Display\<close> and read by \<open>FromStr\<close>. An LSN is its 64-bit value; its order is the order of words.
\<close>

type_synonym lsn = u64

datatype invalid_lsn = InvalidLsn string

definition lsn_to_string :: "lsn \<Rightarrow> string" where
  "lsn_to_string l = upper_hex (unat (drop_bit 32 l)) @ ''/'' @ upper_hex (unat (ucast l :: u32))"

definition lsn_from_str :: "string \<Rightarrow> invalid_lsn + lsn" where
  "lsn_from_str s =
     (case split_once (CHR ''/'') s of
        None \<Rightarrow> Err (InvalidLsn s)
      | Some (hi, lo) \<Rightarrow>
          (case from_str_radix16_u64 hi of
             None \<Rightarrow> Err (InvalidLsn s)
           | Some hi \<Rightarrow>
               (case from_str_radix16_u64 lo of
                  None \<Rightarrow> Err (InvalidLsn s)
                | Some lo \<Rightarrow>
                    if hi > 0xFFFFFFFF \<or> lo > 0xFFFFFFFF then Err (InvalidLsn s)
                    else Ok (or (push_bit 32 hi) lo))))"

lemma upper_hex_facts:
  "upper_hex n \<noteq> []" "hd (upper_hex n) \<noteq> CHR ''+''" "CHR ''/'' \<notin> set (upper_hex n)"
  "radix_val hex_val 16 0 (upper_hex n) = Some n"
proof -
  show ne: "upper_hex n \<noteq> []" by (simp add: upper_hex_def)
  have digits: "\<exists>d < 16. c = upper_digit d" if "c \<in> set (upper_hex n)" for c
    using num_str_digits [of 16 c upper_digit n] that by (simp add: upper_hex_def)
  show "hd (upper_hex n) \<noteq> CHR ''+''" using digits [OF hd_in_set [OF ne]] digit_not_sign(3) by metis
  show "CHR ''/'' \<notin> set (upper_hex n)" using digits digit_not_sign(4) by metis
  show "radix_val hex_val 16 0 (upper_hex n) = Some n"
    unfolding upper_hex_def by (rule radix_val_num_str) auto
qed

lemma from_str_radix16_upper_hex:
  "n < 2 ^ 64 \<Longrightarrow> from_str_radix16_u64 (upper_hex n) = Some (of_nat n)"
  by (simp add: from_str_radix16_u64_def parse_unsigned_plain upper_hex_facts)

lemma lsn_halves: "or (push_bit 32 (drop_bit 32 l)) (ucast (ucast l :: u32)) = (l :: u64)"
  by (rule bit_word_eqI) (auto simp: bit_or_iff bit_push_bit_iff bit_drop_bit_eq bit_unsigned_iff)

text \<open>Every LSN's text form reads back as that LSN.\<close>

theorem lsn_roundtrip: "lsn_from_str (lsn_to_string l) = Ok l"
proof -
  have "unat (drop_bit 32 l) < 2 ^ 32"
    using unat_lt [of l] by (simp add: drop_bit_eq_div unat_div)
  moreover have "unat (ucast l :: u32) < 2 ^ 32" using unat_lt [of "ucast l :: u32"] by simp
  ultimately show ?thesis
    by (simp add: lsn_from_str_def lsn_to_string_def upper_hex_facts from_str_radix16_upper_hex
        lsn_halves word_less_nat_alt unat_ucast_up)
qed

text \<open>The parser reads a sign that no printed LSN has: \<open>"+16/+B374D848"\<close> is accepted as the LSN
  \<open>16/B374D848\<close>, although the error text promises \<open><hex>/<hex>\<close>.\<close>

theorem lsn_accepts_plus_sign: "lsn_from_str ''+16/+B374D848'' = Ok 0x16B374D848"
proof -
  have "split_once (CHR ''/'') ''+16/+B374D848'' = Some (''+16'', ''+B374D848'')" by code_simp
  moreover have "from_str_radix16_u64 ''+16'' = Some 0x16" by code_simp
  moreover have "from_str_radix16_u64 ''+B374D848'' = Some 0xB374D848" by code_simp
  ultimately show ?thesis by (simp add: lsn_from_str_def)
qed

end
