(* ===== verification/Shardfn.thy ===== *)
theory Shardfn
  imports Keyspace
begin

text \<open>
  Shard-key values and shard functions (\<open>pgshard-core/src/shardfn.rs\<close>): coercion of SQL literals
  to the canonical value of a column type, and the map from values to keyspace ids. The hash
  itself (\<open>xxh64\<close> of the \<open>xxhash_rust\<close> crate) is a parameter of the model.
\<close>

section \<open>Definitions\<close>

datatype scalar_value =
    Int16 i16
  | Int32 i32
  | Int64 i64
  | Text string
  | Uuid bytes
  | Bytea bytes

datatype scalar_type = TyInt | TyText | TyUuid | TyBytea

definition coerce_int :: "string \<Rightarrow> i64 option" where
  "coerce_int s = parse_i64 (trim s)"

definition hex_byte_at :: "string \<Rightarrow> nat \<Rightarrow> u8 option" where
  "hex_byte_at hex i = from_str_radix16_u8 (take 2 (drop (2 * i) hex))"

definition uuid_body :: "string \<Rightarrow> bytes option" where
  "uuid_body t =
     (let hex = filter (\<lambda>c. c \<noteq> CHR ''-'') t
      in if length hex \<noteq> 32 \<or> \<not> list_all is_ascii_hexdigit hex then None
         else collect_opt (hex_byte_at hex) [0 ..< 16])"

definition coerce_uuid :: "string \<Rightarrow> bytes option" where
  "coerce_uuid s =
     (let t = trim s
      in case (starts_with t (CHR ''{''), ends_with t (CHR ''}'')) of
           (True, True) \<Rightarrow> uuid_body (take (length t - 1 - 1) (drop 1 t))
         | (False, False) \<Rightarrow> uuid_body t
         | _ \<Rightarrow> None)"

definition coerce_bytea :: "string \<Rightarrow> bytes option" where
  "coerce_bytea s =
     (case strip_prefix [CHR 0x5C, CHR ''x''] s of
        None \<Rightarrow> None
      | Some hex \<Rightarrow>
          if length hex mod 2 \<noteq> 0 \<or> \<not> list_all is_ascii_hexdigit hex then None
          else collect_opt (hex_byte_at hex) [0 ..< length hex div 2])"

fun coerce :: "scalar_type \<Rightarrow> scalar_value \<Rightarrow> scalar_value option" where
  "coerce TyInt (Int16 v) = Some (Int64 (scast v))"
| "coerce TyInt (Int32 v) = Some (Int64 (scast v))"
| "coerce TyInt (Int64 v) = Some (Int64 v)"
| "coerce TyInt (Text s) = map_option Int64 (coerce_int s)"
| "coerce TyText (Text s) = Some (Text s)"
| "coerce TyUuid (Text s) = map_option Uuid (coerce_uuid s)"
| "coerce TyUuid (Uuid v) = Some (Uuid v)"
| "coerce TyBytea (Text s) = map_option Bytea (coerce_bytea s)"
| "coerce TyBytea (Bytea v) = Some (Bytea v)"
| "coerce _ _ = None"

datatype shard_fn_error = UnknownShardFn string

datatype shard_fn = XxHash64V1

fun shard_fn_name :: "shard_fn \<Rightarrow> string" where
  "shard_fn_name XxHash64V1 = ''xxhash64_v1''"

fun keyspace_id :: "(bytes \<Rightarrow> u64 \<Rightarrow> u64) \<Rightarrow> shard_fn \<Rightarrow> scalar_value \<Rightarrow> keyspace_id" where
  "keyspace_id xxh64 XxHash64V1 (Int16 v) = xxh64 (to_be_bytes64 (scast v)) 0"
| "keyspace_id xxh64 XxHash64V1 (Int32 v) = xxh64 (to_be_bytes64 (scast v)) 0"
| "keyspace_id xxh64 XxHash64V1 (Int64 v) = xxh64 (to_be_bytes64 v) 0"
| "keyspace_id xxh64 XxHash64V1 (Text v) = xxh64 (as_bytes v) 0"
| "keyspace_id xxh64 XxHash64V1 (Uuid v) = xxh64 v 0"
| "keyspace_id xxh64 XxHash64V1 (Bytea v) = xxh64 v 0"

definition shard_function :: "string \<Rightarrow> shard_fn_error + shard_fn" where
  "shard_function name =
     (if name = ''xxhash64_v1'' then Ok XxHash64V1 else Err (UnknownShardFn name))"

section \<open>Canonical values\<close>

fun canonical_for :: "scalar_type \<Rightarrow> scalar_value \<Rightarrow> bool" where
  "canonical_for TyInt (Int64 _) = True"
| "canonical_for TyText (Text _) = True"
| "canonical_for TyUuid (Uuid _) = True"
| "canonical_for TyBytea (Bytea _) = True"
| "canonical_for _ _ = False"

lemma coerce_canonical: "coerce t v = Some c \<Longrightarrow> canonical_for t c"
  by (induction t v rule: coerce.induct) auto

lemma coerce_canonical_id: "canonical_for t c \<Longrightarrow> coerce t c = Some c"
  by (cases "(t, c)" rule: canonical_for.cases) auto

section \<open>Hexadecimal bytes\<close>

definition spells :: "string \<Rightarrow> bytes \<Rightarrow> bool" where
  "spells hex bs \<longleftrightarrow> length hex = 2 * length bs
     \<and> (\<forall>i < length bs. hex_val (hex ! (2 * i)) = Some (unat (bs ! i) div 16)
          \<and> hex_val (hex ! (2 * i + 1)) = Some (unat (bs ! i) mod 16))"

lemma take2_drop:
  assumes "Suc i < length xs"
  shows "take 2 (drop i xs) = [xs ! i, xs ! Suc i]"
proof -
  have "drop i xs = xs ! i # xs ! Suc i # drop (Suc (Suc i)) xs"
    using assms Cons_nth_drop_Suc [of i xs, symmetric] Cons_nth_drop_Suc [of "Suc i" xs, symmetric]
    by simp
  then show ?thesis by simp
qed

lemma hex_val_plus: "hex_val c = Some d \<Longrightarrow> c \<noteq> CHR ''+''"
  by (auto simp: hex_val_def)

lemma from_str_radix16_u8_pair:
  assumes "hex_val c = Some h" and "hex_val d = Some l"
  shows "from_str_radix16_u8 [c, d] = Some (of_nat (h * 16 + l))"
proof -
  have "h < 16" "l < 16" using assms hex_val_bound by blast+
  then have "h * 16 + l < 256" by simp
  then show ?thesis
    using assms hex_val_plus [OF assms(1)] by (simp add: from_str_radix16_u8_def parse_unsigned_def)
qed

lemma hex_byte_at_spells:
  assumes "spells hex bs" and "i < length bs"
  shows "hex_byte_at hex i = Some (bs ! i)"
proof -
  have "Suc (2 * i) < length hex" using assms by (simp add: spells_def)
  then have "hex_byte_at hex i = from_str_radix16_u8 [hex ! (2 * i), hex ! (2 * i + 1)]"
    by (simp add: hex_byte_at_def take2_drop)
  also have "\<dots> = Some (of_nat (unat (bs ! i) div 16 * 16 + unat (bs ! i) mod 16))"
    using assms by (intro from_str_radix16_u8_pair) (auto simp: spells_def)
  also have "\<dots> = Some (bs ! i)" by simp
  finally show ?thesis .
qed

lemma collect_spells:
  "spells hex bs \<Longrightarrow> collect_opt (hex_byte_at hex) [0 ..< length bs] = Some bs"
  by (simp add: collect_opt_Some list_all2_conv_all_nth hex_byte_at_spells)

lemma spells_hexdigits: "spells hex bs \<Longrightarrow> list_all is_ascii_hexdigit hex"
proof -
  assume sp: "spells hex bs"
  have "\<exists>d. hex_val (hex ! k) = Some d" if "k < length hex" for k
  proof -
    have "k div 2 < length bs" using sp that by (simp add: spells_def)
    moreover have "k = 2 * (k div 2) \<or> k = 2 * (k div 2) + 1" by presburger
    ultimately show ?thesis using sp unfolding spells_def by metis
  qed
  then show "list_all is_ascii_hexdigit hex"
    by (simp add: list_all_length is_ascii_hexdigit_iff)
qed

lemma uuid_body_spells:
  assumes "length bs = 16" and "spells (filter (\<lambda>c. c \<noteq> CHR ''-'') t) bs"
  shows "uuid_body t = Some bs"
  using assms collect_spells [OF assms(2)] spells_hexdigits [OF assms(2)]
  by (simp add: uuid_body_def Let_def spells_def)

definition hex_of_bytes :: "bytes \<Rightarrow> string" where
  "hex_of_bytes bs = concat (map (\<lambda>b. [lower_digit (unat b div 16), lower_digit (unat b mod 16)]) bs)"

lemma hex_of_bytes_simps [simp]:
  "hex_of_bytes [] = []"
  "hex_of_bytes (b # bs) = lower_digit (unat b div 16) # lower_digit (unat b mod 16) # hex_of_bytes bs"
  by (simp_all add: hex_of_bytes_def)

lemma unat_u8_div: "unat (b :: u8) div 16 < 16"
  using unat_lt [of b] by simp

lemma length_hex_of_bytes [simp]: "length (hex_of_bytes bs) = 2 * length bs"
  by (induction bs) auto

lemma spells_hex_of_bytes: "spells (hex_of_bytes bs) bs"
proof -
  have "hex_val (hex_of_bytes bs ! (2 * i)) = Some (unat (bs ! i) div 16)
      \<and> hex_val (hex_of_bytes bs ! (2 * i + 1)) = Some (unat (bs ! i) mod 16)" if "i < length bs" for i
    using that
  proof (induction bs arbitrary: i)
    case (Cons b bs)
    then show ?case by (cases i) (simp_all add: unat_u8_div)
  qed simp
  then show ?thesis by (simp add: spells_def)
qed

lemma coerce_bytea_hex: "coerce_bytea ([CHR 0x5C, CHR ''x''] @ hex_of_bytes bs) = Some bs"
  using collect_spells [OF spells_hex_of_bytes, of bs] spells_hexdigits [OF spells_hex_of_bytes, of bs]
  by (simp add: coerce_bytea_def strip_prefix_def)

lemma coerce_int_padded:
  assumes "set us \<subseteq> set ws_encodings" and "set vs \<subseteq> set ws_encodings"
  shows "coerce_int (concat us @ i64_str v @ concat vs) = Some v"
  using assms int_str_graphic by (simp add: coerce_int_def trim_padded i64_str_def)
    (metis i64_str_def parse_i64_i64_str)

section \<open>What clients rely on in a shard function\<close>

text \<open>
  The contract of the \<open>ShardFunction\<close> trait that routing and filtering use: every integer width
  hashes as its 64-bit widening.
\<close>

locale shard_hash =
  fixes kid :: "scalar_value \<Rightarrow> keyspace_id"
  assumes kid_Int16: "kid (Int16 v) = kid (Int64 (scast v))"
    and kid_Int32: "kid (Int32 w) = kid (Int64 (scast w))"
begin

lemma kid_coerced_number:
  "\<not> (\<exists>s. v = Text s) \<Longrightarrow> coerce t v = Some c \<Longrightarrow> kid c = kid v"
  by (induction t v rule: coerce.induct) (auto simp: kid_Int16 kid_Int32)

lemma kid_spelling:
  assumes "set us \<subseteq> set ws_encodings" and "set vs \<subseteq> set ws_encodings"
    and "coerce TyInt (Text (concat us @ i64_str n @ concat vs)) = Some c"
  shows "kid c = kid (Int64 n)"
  using assms(3) coerce_int_padded [OF assms(1,2)] by simp

end

interpretation xx: shard_hash "keyspace_id xxh64 sf" for xxh64 sf
  by unfold_locales (cases sf; simp)+

section \<open>Properties\<close>

text \<open>Coercion is idempotent and canonical: a coerced value is of the column type's canonical
  variant, and coercing it again returns it unchanged.\<close>

theorem coerce_idempotent:
  assumes "coerce t v = Some c"
  shows "coerce t c = Some c \<and> canonical_for t c"
  using assms coerce_canonical coerce_canonical_id by blast

theorem coerce_idempotent_witness:
  "coerce TyInt (Text '' 42 '') = Some (Int64 42) \<and> coerce TyInt (Int64 42) = Some (Int64 42)"
proof -
  have c: "coerce TyInt (Text '' 42 '') = Some (Int64 42)" by code_simp
  show ?thesis using c coerce_idempotent [OF c] by simp
qed

text \<open>All spellings of an integer shard key agree: a bare 16-, 32- or 64-bit literal and its
  quoted decimal text, padded with any white space, coerce to values with the same keyspace id.\<close>

theorem integer_spellings_hash_alike:
  assumes "set us \<subseteq> set ws_encodings" and "set vs \<subseteq> set ws_encodings"
  shows "coerce TyInt (Text (concat us @ i64_str n @ concat vs)) = coerce TyInt (Int64 n)
    \<and> keyspace_id xxh64 sf (Int16 a) = keyspace_id xxh64 sf (the (coerce TyInt (Int16 a)))
    \<and> keyspace_id xxh64 sf (Int32 b) = keyspace_id xxh64 sf (the (coerce TyInt (Int32 b)))
    \<and> keyspace_id xxh64 sf (the (coerce TyInt (Text (concat us @ i64_str n @ concat vs))))
        = keyspace_id xxh64 sf (Int64 n)"
  using coerce_int_padded [OF assms, of n] xx.kid_Int16 xx.kid_Int32 by simp

theorem integer_spellings_hash_alike_witness:
  "set ['' ''] \<subseteq> set ws_encodings
   \<and> coerce TyInt (Text (concat ['' ''] @ i64_str 7 @ concat [])) = Some (Int64 7)"
proof -
  have ws: "set ['' ''] \<subseteq> set ws_encodings" "set [] \<subseteq> set ws_encodings"
    by code_simp+
  show ?thesis using ws integer_spellings_hash_alike [OF ws, of 7] by simp
qed

text \<open>All spellings of a UUID agree: upper or lower case digits, hyphens anywhere, optional
  braces and surrounding white space all decode to the same sixteen bytes.\<close>

theorem uuid_spellings_agree:
  assumes "length bs = 16" and "spells (filter (\<lambda>c. c \<noteq> CHR ''-'') t) bs"
    and "set us \<subseteq> set ws_encodings" and "set vs \<subseteq> set ws_encodings"
  shows "coerce TyUuid (Text (concat us @ t @ concat vs)) = Some (Uuid bs)
    \<and> coerce TyUuid (Text (concat us @ (''{'' @ t @ ''}'') @ concat vs)) = Some (Uuid bs)"
proof -
  let ?hex = "filter (\<lambda>c. c \<noteq> CHR ''-'') t"
  have "length ?hex = 32" using assms(1,2) by (simp add: spells_def)
  then have ne: "t \<noteq> []" by auto
  have chars: "graphic c \<and> c \<noteq> CHR ''{'' \<and> c \<noteq> CHR ''}''" if "c \<in> set t" for c
  proof (cases "c = CHR ''-''")
    case True
    then show ?thesis by (simp add: graphic_def)
  next
    case False
    then have "is_ascii_hexdigit c"
      using spells_hexdigits [OF assms(2)] that by (simp add: list_all_iff)
    then show ?thesis
      using graphic_hex by (auto simp: is_ascii_hexdigit_iff) (auto simp: hex_val_def)
  qed
  have body: "uuid_body t = Some bs" using assms(1,2) by (rule uuid_body_spells)
  have bare: "trim (concat us @ t @ concat vs) = t"
    using assms(3,4) ne chars by (intro trim_padded) auto
  have braced: "trim (concat us @ (''{'' @ t @ ''}'') @ concat vs) = ''{'' @ t @ ''}''"
    using assms(3,4) by (intro trim_padded) (auto simp: graphic_def)
  have "coerce_uuid (concat us @ t @ concat vs) = Some bs"
    using bare body ne chars [OF hd_in_set [OF ne]] chars [OF last_in_set [OF ne]]
    by (simp add: coerce_uuid_def starts_with_def ends_with_def)
  moreover have "coerce_uuid (concat us @ (''{'' @ t @ ''}'') @ concat vs) = Some bs"
    using braced body by (simp add: coerce_uuid_def starts_with_def ends_with_def)
  ultimately show ?thesis by simp
qed

theorem uuid_spellings_agree_witness:
  "coerce TyUuid (Text (concat [] @ ''00010203-0405-0607-0809-0A0B0C0D0E0F'' @ concat []))
     = Some (Uuid [0, 1, 2, 3, 4, 5, 6, 7, 8, 9, 10, 11, 12, 13, 14, 15])"
proof -
  let ?bs = "[0, 1, 2, 3, 4, 5, 6, 7, 8, 9, 10, 11, 12, 13, 14, 15] :: bytes"
  have "spells (filter (\<lambda>c. c \<noteq> CHR ''-'') ''00010203-0405-0607-0809-0A0B0C0D0E0F'') ?bs"
    unfolding spells_def by code_simp
  then show ?thesis
    using uuid_spellings_agree [of ?bs "''00010203-0405-0607-0809-0A0B0C0D0E0F''" "[]" "[]"] by simp
qed

text \<open>Every byte string round-trips through PostgreSQL's hex spelling of \<open>bytea\<close>: the literal
  \<open>\x\<close> followed by its hexadecimal digits coerces to exactly these bytes.\<close>

theorem bytea_hex_roundtrip:
  "coerce TyBytea (Text ([CHR 0x5C, CHR ''x''] @ hex_of_bytes bs)) = Some (Bytea bs)"
  using coerce_bytea_hex [of bs] by simp

end
