(* ===== verification/Vschema.thy ===== *)
theory Vschema
  imports Shardfn
begin

text \<open>
  The sharding schema (\<open>pgshard-core/src/vschema.rs\<close>): which tables are sharded, by which key and
  function, and with which sequence bindings. The \<open>BTreeMap\<close> of tables is a finite map; \<open>insert\<close>
  returns the schema after the call, or the error that left it untouched.
\<close>

section \<open>Definitions\<close>

record table_name =
  tn_schema :: string
  tn_name :: string

definition table_name_new :: "string \<Rightarrow> string \<Rightarrow> table_name" where
  "table_name_new schema name = \<lparr>tn_schema = schema, tn_name = name\<rparr>"

definition table_name_str :: "table_name \<Rightarrow> string" where
  "table_name_str t = tn_schema t @ ''.'' @ tn_name t"

record sequence_binding =
  sb_column :: string
  sb_sequence :: string

datatype table_def =
    Sharded (td_key: string) (td_key_type: "scalar_type option") (td_function: string)
      (td_sequences: "sequence_binding list")
  | Global

datatype vschema_error =
    EmptyTableName string string
  | DuplicateTable table_name
  | EmptyShardKey table_name
  | UnknownShardFunction table_name string
  | DuplicateSequenceColumn table_name string

record vschema =
  vs_tables :: "table_name \<rightharpoonup> table_def"

definition vschema_default :: vschema where
  "vschema_default = \<lparr>vs_tables = Map.empty\<rparr>"

fun duplicate_column :: "string set \<Rightarrow> sequence_binding list \<Rightarrow> string option" where
  "duplicate_column seen [] = None"
| "duplicate_column seen (b # bs) =
     (if sb_column b \<in> seen then Some (sb_column b)
      else duplicate_column (insert (sb_column b) seen) bs)"

definition check_def :: "table_name \<Rightarrow> table_def \<Rightarrow> vschema_error + unit" where
  "check_def table def =
     (case def of
        Sharded key _ fname sequences \<Rightarrow>
          if key = [] then Err (EmptyShardKey table)
          else if \<not> is_ok (shard_function fname) then Err (UnknownShardFunction table fname)
          else (case duplicate_column {} sequences of
                  Some c \<Rightarrow> Err (DuplicateSequenceColumn table c)
                | None \<Rightarrow> Ok ())
      | Global \<Rightarrow> Ok ())"

definition vschema_insert :: "vschema \<Rightarrow> table_name \<Rightarrow> table_def \<Rightarrow> vschema_error + vschema" where
  "vschema_insert v table def =
     (if tn_schema table = [] \<or> tn_name table = []
        then Err (EmptyTableName (tn_schema table) (tn_name table))
      else if table \<in> dom (vs_tables v) then Err (DuplicateTable table)
      else bind_res (check_def table def) (\<lambda>_.
        Ok (v\<lparr>vs_tables := (vs_tables v)(table \<mapsto> def)\<rparr>)))"

definition vschema_get :: "vschema \<Rightarrow> table_name \<Rightarrow> table_def option" where
  "vschema_get v table = vs_tables v table"

text \<open>A schema loaded from a list of declarations stops at the first rejected one.\<close>

fun vschema_load :: "vschema \<Rightarrow> (table_name \<times> table_def) list \<Rightarrow> vschema_error + vschema" where
  "vschema_load v [] = Ok v"
| "vschema_load v ((t, d) # ts) = bind_res (vschema_insert v t d) (\<lambda>v'. vschema_load v' ts)"

section \<open>The schema invariant\<close>

fun def_ok :: "table_def \<Rightarrow> bool" where
  "def_ok (Sharded key _ fname sequences) \<longleftrightarrow>
     key \<noteq> [] \<and> is_ok (shard_function fname) \<and> distinct (map sb_column sequences)"
| "def_ok Global \<longleftrightarrow> True"

definition vschema_ok :: "vschema \<Rightarrow> bool" where
  "vschema_ok v \<longleftrightarrow> finite (dom (vs_tables v))
     \<and> (\<forall>t d. vs_tables v t = Some d \<longrightarrow> tn_schema t \<noteq> [] \<and> tn_name t \<noteq> [] \<and> def_ok d)"

lemma duplicate_column_None:
  "duplicate_column seen bs = None \<longleftrightarrow>
     distinct (map sb_column bs) \<and> set (map sb_column bs) \<inter> seen = {}"
  by (induction bs arbitrary: seen) auto

lemma duplicate_column_Some:
  "duplicate_column seen bs = Some c \<Longrightarrow>
     c \<in> seen \<and> c \<in> set (map sb_column bs)
     \<or> (\<exists>i j. i < j \<and> j < length bs \<and> sb_column (bs ! i) = c \<and> sb_column (bs ! j) = c)"
proof (induction bs arbitrary: seen)
  case (Cons b bs)
  show ?case
  proof (cases "sb_column b \<in> seen")
    case True
    with Cons.prems show ?thesis by simp
  next
    case False
    with Cons.prems have "duplicate_column (insert (sb_column b) seen) bs = Some c" by simp
    from Cons.IH [OF this] consider
        "c \<in> seen" "c \<in> set (map sb_column bs)"
      | "c = sb_column b" "c \<in> set (map sb_column bs)"
      | i j where "i < j" "j < length bs" "sb_column (bs ! i) = c" "sb_column (bs ! j) = c"
      by blast
    then show ?thesis
    proof cases
      case 1
      then show ?thesis by simp
    next
      case 2
      then obtain j where "j < length bs" "sb_column (bs ! j) = c" by (auto simp: in_set_conv_nth)
      with 2 show ?thesis by (intro disjI2 exI [of _ 0] exI [of _ "Suc j"]) simp
    next
      case 3
      then show ?thesis by (intro disjI2 exI [of _ "Suc i"] exI [of _ "Suc j"]) simp
    qed
  qed
qed simp

lemma check_def_Ok: "check_def t d = Ok () \<longleftrightarrow> def_ok d"
  by (cases d)
    (auto simp: check_def_def duplicate_column_None [of "{}", simplified, symmetric] split: option.splits)

lemma vschema_default_ok: "vschema_ok vschema_default"
  by (simp add: vschema_ok_def vschema_default_def)

lemma vschema_insert_Ok:
  "vschema_insert v t d = Ok v' \<longleftrightarrow>
     tn_schema t \<noteq> [] \<and> tn_name t \<noteq> [] \<and> vschema_get v t = None \<and> def_ok d
     \<and> v' = v\<lparr>vs_tables := (vs_tables v)(t \<mapsto> d)\<rparr>"
proof (cases "check_def t d")
  case (Inl e)
  then have "\<not> def_ok d" using check_def_Ok [of t d] by simp
  with Inl show ?thesis by (auto simp: vschema_insert_def)
next
  case (Inr u)
  then have "def_ok d" using check_def_Ok [of t d] by simp
  with Inr show ?thesis by (auto simp: vschema_insert_def vschema_get_def domIff)
qed

lemma vschema_insert_ok: "vschema_ok v \<Longrightarrow> vschema_insert v t d = Ok v' \<Longrightarrow> vschema_ok v'"
  by (auto simp: vschema_insert_Ok vschema_ok_def)

lemma vschema_load_ok: "vschema_ok v \<Longrightarrow> vschema_load v ts = Ok v' \<Longrightarrow> vschema_ok v'"
  by (induction v ts rule: vschema_load.induct) (auto simp: bind_res_eq_Inr intro: vschema_insert_ok)

section \<open>Properties\<close>

text \<open>A schema loaded from declarations is well formed: every table has a non-empty qualified
  name, and every sharded table has a key column, a known shard function and at most one sequence
  per column; and it holds exactly the declared tables.\<close>

theorem vschema_load_sound:
  assumes "vschema_load vschema_default ts = Ok v"
  shows "vschema_ok v \<and> (\<forall>t. vschema_get v t = map_of ts t)"
proof
  show "vschema_ok v" using vschema_load_ok [OF vschema_default_ok assms] .
  have "vs_tables v' = vs_tables u ++ map_of ts \<and> (\<forall>t \<in> dom (vs_tables u). map_of ts t = None)"
    if "vschema_load u ts = Ok v'" for u v'
    using that
  proof (induction u ts rule: vschema_load.induct)
    case (2 u t d ts)
    then obtain w where w: "vschema_insert u t d = Ok w" and load: "vschema_load w ts = Ok v'"
      by (auto simp: bind_res_eq_Inr)
    note IH = "2.IH" [OF load]
    from w have wt: "vs_tables w = (vs_tables u)(t \<mapsto> d)" and fresh: "vs_tables u t = None"
      by (auto simp: vschema_insert_Ok vschema_get_def)
    have none: "map_of ts t = None" using IH wt by auto
    show ?case
      using IH wt fresh none by (auto simp: map_add_def fun_eq_iff split: option.splits)
  qed simp
  then have "vs_tables v = map_of ts" using assms by (simp add: vschema_default_def)
  then show "\<forall>t. vschema_get v t = map_of ts t" by (simp add: vschema_get_def)
qed

theorem vschema_load_sound_witness:
  "\<exists>v. vschema_load vschema_default
        [(table_name_new ''public'' ''orders'',
          Sharded ''customer_id'' (Some TyInt) ''xxhash64_v1'' [\<lparr>sb_column = ''id'', sb_sequence = ''s''\<rparr>])]
      = Ok v \<and> vschema_ok v"
proof -
  let ?ts = "[(table_name_new ''public'' ''orders'',
    Sharded ''customer_id'' (Some TyInt) ''xxhash64_v1'' [\<lparr>sb_column = ''id'', sb_sequence = ''s''\<rparr>])]"
  obtain v where v: "vschema_load vschema_default ?ts = Ok v"
    by (simp add: vschema_insert_def vschema_default_def table_name_new_def check_def_def
        shard_function_def)
  show ?thesis using v vschema_load_sound [OF v] by blast
qed

end
