(* ===== verification/Catalog.thy ===== *)
theory Catalog
  imports Keyspace
begin

text \<open>
  The shard catalog of one database (\<open>pgshard-plan/src/catalog.rs\<close>): ranges and shard ids in
  keyspace order. \<open>route\<close> ends in an \<open>expect\<close>; the model returns \<open>None\<close> where the code would panic.
\<close>

section \<open>Definitions\<close>

datatype shard_id = ShardId string

record shard_catalog =
  sc_shards :: "(key_range \<times> shard_id) list"

definition catalog_new :: "(key_range \<times> shard_id) list \<Rightarrow> partition_error + shard_catalog" where
  "catalog_new shards =
     bind_res (validate_partition (map fst shards)) (\<lambda>_. Ok \<lparr>sc_shards = shards\<rparr>)"

definition route :: "shard_catalog \<Rightarrow> keyspace_id \<Rightarrow> shard_id option" where
  "route c key = map_option snd (List.find (\<lambda>(range, _). contains range key) (sc_shards c))"

definition catalog_all :: "shard_catalog \<Rightarrow> shard_id list" where
  "catalog_all c = map snd (sc_shards c)"

definition catalog_len :: "shard_catalog \<Rightarrow> nat" where
  "catalog_len c = length (sc_shards c)"

definition catalog_is_empty :: "shard_catalog \<Rightarrow> bool" where
  "catalog_is_empty c \<longleftrightarrow> sc_shards c = []"

section \<open>Routing\<close>

definition catalog_ok :: "shard_catalog \<Rightarrow> bool" where
  "catalog_ok c \<longleftrightarrow> validate_partition (map fst (sc_shards c)) = Ok ()
     \<and> (\<forall>p \<in> set (sc_shards c). wf_range (fst p))"

definition owner :: "shard_catalog \<Rightarrow> keyspace_id \<Rightarrow> nat \<Rightarrow> bool" where
  "owner c key k \<longleftrightarrow> k < length (sc_shards c) \<and> contains (fst (sc_shards c ! k)) key"

lemma catalog_new_ok:
  assumes "\<forall>p \<in> set shards. wf_range (fst p)" and "catalog_new shards = Ok c"
  shows "catalog_ok c" and "sc_shards c = shards"
  using assms by (auto simp: catalog_new_def catalog_ok_def bind_res_eq_Inr)

lemma owner_unique: "catalog_ok c \<Longrightarrow> \<exists>!k. owner c key k"
  using validate_partition_covers [of "map fst (sc_shards c)" key]
  by (auto simp: catalog_ok_def owner_def cong: conj_cong)

lemma route_owner:
  assumes "catalog_ok c"
  shows "\<exists>k. owner c key k \<and> route c key = Some (snd (sc_shards c ! k))"
proof -
  obtain k where k: "owner c key k" using owner_unique [OF assms] by blast
  then have "sc_shards c ! k \<in> set (sc_shards c)" "contains (fst (sc_shards c ! k)) key"
    by (simp_all add: owner_def)
  then have "List.find (\<lambda>(range, _). contains range key) (sc_shards c) \<noteq> None"
    unfolding find_None_iff split_beta by blast
  then obtain p where p: "List.find (\<lambda>(range, _). contains range key) (sc_shards c) = Some p" by blast
  then obtain j where "j < length (sc_shards c)" "contains (fst (sc_shards c ! j)) key" "p = sc_shards c ! j"
    by (auto simp: find_Some_iff split_beta)
  then show ?thesis using p by (intro exI [of _ j]) (simp add: owner_def route_def)
qed

text \<open>
  What a planner relies on: a valid set of shards routes every id to one of its shards, and there
  is at least one shard.
\<close>

locale shard_routing =
  fixes valid :: "'c \<Rightarrow> bool"
    and find_shard :: "'c \<Rightarrow> keyspace_id \<Rightarrow> shard_id option"
    and every :: "'c \<Rightarrow> shard_id list"
  assumes find_total: "valid c \<Longrightarrow> \<exists>s. find_shard c key = Some s"
    and find_member: "valid c \<Longrightarrow> find_shard c key = Some s \<Longrightarrow> s \<in> set (every c)"
begin

lemma every_nonempty: "valid c \<Longrightarrow> every c \<noteq> []"
  using find_total find_member by fastforce

lemma find_image_subset: "valid c \<Longrightarrow> (\<lambda>k. the (find_shard c k)) ` K \<subseteq> set (every c)"
  using find_total find_member by fastforce

end

interpretation cat: shard_routing catalog_ok route catalog_all
proof
  fix c key
  assume ok: "catalog_ok c"
  show "\<exists>s. route c key = Some s" using route_owner [OF ok] by blast
  show "s \<in> set (catalog_all c)" if "route c key = Some s" for s
    using route_owner [OF ok, of key] that by (auto simp: owner_def catalog_all_def)
qed

section \<open>Properties\<close>

text \<open>C19: Routing never panics and is unambiguous: in a catalog built from well-formed ranges exactly
  one shard's range contains any given id, and \<open>route\<close> returns that shard, one of \<open>all()\<close>.\<close>

theorem route_unique_owner:
  assumes "\<forall>p \<in> set shards. wf_range (fst p)" and "catalog_new shards = Ok c"
  shows "(\<exists>!k. k < length shards \<and> contains (fst (shards ! k)) key)
    \<and> (\<exists>k < length shards. contains (fst (shards ! k)) key
           \<and> route c key = Some (snd (shards ! k)) \<and> snd (shards ! k) \<in> set (catalog_all c))"
proof
  note ok = catalog_new_ok [OF assms]
  show "\<exists>!k. k < length shards \<and> contains (fst (shards ! k)) key"
    using owner_unique [OF ok(1), of key] by (simp add: owner_def ok(2))
  show "\<exists>k < length shards. contains (fst (shards ! k)) key
           \<and> route c key = Some (snd (shards ! k)) \<and> snd (shards ! k) \<in> set (catalog_all c)"
    using route_owner [OF ok(1), of key] by (auto simp: owner_def ok(2) catalog_all_def)
qed

theorem route_unique_owner_witness:
  "\<exists>c. catalog_new [(\<lparr>kr_start = 0, kr_end = Some 5\<rparr>, ShardId ''a''),
                    (\<lparr>kr_start = 5, kr_end = None\<rparr>, ShardId ''b'')] = Ok c
     \<and> (\<exists>!k. k < 2 \<and> contains (fst ([(\<lparr>kr_start = 0, kr_end = Some 5\<rparr>, ShardId ''a''),
          (\<lparr>kr_start = 5, kr_end = None\<rparr>, ShardId ''b'')] ! k)) 9)"
proof -
  let ?s = "[(\<lparr>kr_start = 0, kr_end = Some 5\<rparr>, ShardId ''a''),
             (\<lparr>kr_start = 5, kr_end = None\<rparr>, ShardId ''b'')] :: (key_range \<times> shard_id) list"
  have wf: "\<forall>p \<in> set ?s. wf_range (fst p)" by (simp add: wf_range_def)
  obtain c where c: "catalog_new ?s = Ok c" by (simp add: catalog_new_def validate_partition_def)
  have "length ?s = 2" by simp
  then show ?thesis using c conjunct1 [OF route_unique_owner [OF wf c, of 9]] by metis
qed

end
