(* ===== verification/Gate.thy ===== *)
theory Gate
  imports Keyspace "HOL-Library.Multiset"
begin

text \<open>
  The router's buffering gate (\<open>pgshard-gate/src/lib.rs\<close>). Every method of \<open>GateEngine\<close> runs under
  one mutex, so a concurrent execution is a sequence of whole method calls; each method is a
  function on the engine's state. The one-shot channels through which parked sessions are released
  are part of the state: a channel is a number, \<open>e_sent\<close> logs the messages delivered, in order, and
  \<open>e_closed\<close> is the set of channels whose receiver the client has dropped. Clock readings
  (\<open>Instant::now()\<close>) are arguments.
\<close>

section \<open>Definitions\<close>

type_synonym instant = nat
type_synonym channel = nat

datatype gate_mode = WritesOnly | AllStatements

record statement_scope =
  ss_tables :: "string list"
  ss_keyspace_ids :: "keyspace_id list"
  ss_is_write :: bool

record gate_match =
  gm_all :: bool
  gm_tables :: "string list"
  gm_key_ranges :: "key_range list"

definition gate_matches :: "gate_match \<Rightarrow> statement_scope \<Rightarrow> bool" where
  "gate_matches m scope =
     (if gm_all m then True
      else if list_ex (\<lambda>t. list_ex (\<lambda>g. g = t) (gm_tables m)) (ss_tables scope) then True
      else list_ex (\<lambda>i. list_ex (\<lambda>r. contains r i) (gm_key_ranges m)) (ss_keyspace_ids scope))"

record gate_spec =
  gs_id :: string
  gs_mode :: gate_mode
  gs_matcher :: gate_match
  gs_deadline :: instant
  gs_min_topology_generation :: u64

datatype release = Replan u64 | Expired | Rejected

record gate_limits =
  gl_max_sessions :: nat
  gl_max_total_sessions :: nat
  gl_max_wait :: nat

definition gate_limits_default :: gate_limits where
  "gate_limits_default =
     \<lparr>gl_max_sessions = 5000, gl_max_total_sessions = 50000, gl_max_wait = 20 * 10 ^ 9\<rparr>"

record parked =
  pk_waker :: channel
  pk_enqueued :: instant

record gate_state =
  g_spec :: gate_spec
  g_parked :: "parked list"
  g_open_requested :: bool

record gate_engine =
  e_gates :: "gate_state list"
  e_applied_generation :: u64
  e_limits :: gate_limits
  e_sent :: "(channel \<times> release) list"
  e_closed :: "channel set"
  e_next_channel :: channel

definition gate_engine_new :: "gate_limits \<Rightarrow> gate_engine" where
  "gate_engine_new limits =
     \<lparr>e_gates = [], e_applied_generation = 0, e_limits = limits,
      e_sent = [], e_closed = {}, e_next_channel = 0\<rparr>"

text \<open>\<open>Sender::send\<close>, its result ignored: a message to a dropped receiver is lost.\<close>

definition send :: "channel \<Rightarrow> release \<Rightarrow> gate_engine \<Rightarrow> gate_engine" where
  "send w r e = (if w \<in> e_closed e then e else e\<lparr>e_sent := e_sent e @ [(w, r)]\<rparr>)"

definition prune_dead :: "channel set \<Rightarrow> gate_state \<Rightarrow> gate_state" where
  "prune_dead closed g = g\<lparr>g_parked := filter (\<lambda>p. pk_waker p \<notin> closed) (g_parked g)\<rparr>"

definition total_parked :: "gate_engine \<Rightarrow> nat" where
  "total_parked e = sum_list (map (\<lambda>g. length (g_parked g)) (e_gates e))"

text \<open>\<open>Vec::swap_remove\<close> on an index in range.\<close>

definition swap_remove :: "'a list \<Rightarrow> nat \<Rightarrow> 'a list" where
  "swap_remove xs i = butlast (xs[i := last xs])"

definition drain_gate :: "nat \<Rightarrow> release \<Rightarrow> gate_engine \<Rightarrow> gate_engine" where
  "drain_gate idx r e =
     (let gate = e_gates e ! idx
      in fold (\<lambda>p. send (pk_waker p) r) (g_parked gate)
           (e\<lparr>e_gates := swap_remove (e_gates e) idx\<rparr>))"

definition open_gate :: "nat \<Rightarrow> u64 \<Rightarrow> instant \<Rightarrow> gate_engine \<Rightarrow> gate_engine" where
  "open_gate idx applied now e =
     (let release = (if gs_deadline (g_spec (e_gates e ! idx)) \<le> now then Expired else Replan applied)
      in drain_gate idx release e)"

lemma fold_send_gates: "e_gates (fold (\<lambda>p. send (pk_waker p) r) ps e) = e_gates e"
  by (induction ps arbitrary: e) (auto simp: send_def)

lemma length_swap_remove [simp]: "length (swap_remove xs i) = length xs - 1"
  by (simp add: swap_remove_def)

lemma drain_gate_gates [simp]: "e_gates (drain_gate idx r e) = swap_remove (e_gates e) idx"
  by (simp add: drain_gate_def fold_send_gates)

lemma open_gate_gates [simp]: "e_gates (open_gate idx a now e) = swap_remove (e_gates e) idx"
  by (simp add: open_gate_def)

function topology_loop :: "u64 \<Rightarrow> instant \<Rightarrow> nat \<Rightarrow> gate_engine \<Rightarrow> gate_engine" where
  "topology_loop applied now idx e =
     (if idx < length (e_gates e) then
        let gate = e_gates e ! idx in
        if g_open_requested gate \<and> gs_min_topology_generation (g_spec gate) \<le> applied
        then topology_loop applied now idx (open_gate idx applied now e)
        else topology_loop applied now (idx + 1) e
      else e)"
  by pat_completeness auto
termination
  by (relation "measure (\<lambda>(applied, now, idx, e). length (e_gates e) - idx)") auto

definition topology_applied :: "u64 \<Rightarrow> instant \<Rightarrow> gate_engine \<Rightarrow> gate_engine" where
  "topology_applied generation now e =
     (let e = (if generation > e_applied_generation e
               then e\<lparr>e_applied_generation := generation\<rparr> else e)
      in topology_loop (e_applied_generation e) now 0 e)"

definition close_gate :: "gate_spec \<Rightarrow> gate_engine \<Rightarrow> gate_engine" where
  "close_gate spec e =
     (case position (\<lambda>g. gs_id (g_spec g) = gs_id spec) (e_gates e) of
        Some i \<Rightarrow> e\<lparr>e_gates := (e_gates e)[i := (e_gates e ! i)\<lparr>g_spec := spec\<rparr>]\<rparr>
      | None \<Rightarrow> e\<lparr>e_gates := e_gates e @
                  [\<lparr>g_spec = spec, g_parked = [], g_open_requested = False\<rparr>]\<rparr>)"

definition open_by_id :: "string \<Rightarrow> instant \<Rightarrow> gate_engine \<Rightarrow> gate_engine" where
  "open_by_id gate_id now e =
     (let applied = e_applied_generation e in
      case position (\<lambda>g. gs_id (g_spec g) = gate_id) (e_gates e) of
        None \<Rightarrow> e
      | Some idx \<Rightarrow>
          let spec = g_spec (e_gates e ! idx) in
          if gs_deadline spec \<le> now then drain_gate idx Expired e
          else if gs_min_topology_generation spec > applied then
            e\<lparr>e_gates := (e_gates e)[idx := (e_gates e ! idx)\<lparr>g_open_requested := True\<rparr>]\<rparr>
          else drain_gate idx (Replan applied) e)"

function expire_loop :: "instant \<Rightarrow> nat \<Rightarrow> nat \<Rightarrow> gate_engine \<Rightarrow> gate_engine \<times> nat" where
  "expire_loop now expired idx e =
     (if idx < length (e_gates e) then
        if gs_deadline (g_spec (e_gates e ! idx)) \<le> now
        then expire_loop now (expired + 1) idx (drain_gate idx Expired e)
        else expire_loop now expired (idx + 1) e
      else (e, expired))"
  by pat_completeness auto
termination
  by (relation "measure (\<lambda>(now, expired, idx, e). length (e_gates e) - idx)") auto

definition expire_due :: "instant \<Rightarrow> gate_engine \<Rightarrow> gate_engine \<times> nat" where
  "expire_due now e = expire_loop now 0 0 e"

definition gate_applies :: "statement_scope \<Rightarrow> gate_state \<Rightarrow> bool" where
  "gate_applies scope g \<longleftrightarrow>
     (gs_mode (g_spec g) = AllStatements \<or> ss_is_write scope) \<and> gate_matches (gs_matcher (g_spec g)) scope"

definition gate_check ::
    "statement_scope \<Rightarrow> instant \<Rightarrow> gate_engine \<Rightarrow> gate_engine \<times> channel option" where
  "gate_check scope now e =
     (case position (gate_applies scope) (e_gates e) of
        None \<Rightarrow> (e, None)
      | Some idx \<Rightarrow>
          let e = e\<lparr>e_gates := map (prune_dead (e_closed e)) (e_gates e)\<rparr>;
              over_total = total_parked e \<ge> gl_max_total_sessions (e_limits e);
              gate = e_gates e ! idx;
              ch = e_next_channel e;
              e' = e\<lparr>e_next_channel := ch + 1\<rparr>
          in if over_total \<or> length (g_parked gate) \<ge> gl_max_sessions (e_limits e)
             then (send ch Rejected e', Some ch)
             else (e'\<lparr>e_gates := (e_gates e)[idx := gate\<lparr>g_parked :=
                       g_parked gate @ [\<lparr>pk_waker = ch, pk_enqueued = now\<rparr>]\<rparr>]\<rparr>, Some ch))"

fun pop_overdue ::
    "nat \<Rightarrow> instant \<Rightarrow> parked list \<Rightarrow> channel list \<times> parked list" where
  "pop_overdue max_wait now [] = ([], [])"
| "pop_overdue max_wait now (p # ps) =
     (if now - pk_enqueued p > max_wait
      then (let (ws, rest) = pop_overdue max_wait now ps in (pk_waker p # ws, rest))
      else ([], p # ps))"

fun reject_gates :: "instant \<Rightarrow> gate_state list \<Rightarrow> gate_engine \<Rightarrow> gate_engine \<times> nat" where
  "reject_gates now [] e = (e, 0)"
| "reject_gates now (g # gs) e =
     (let g' = prune_dead (e_closed e) g;
          (ws, rest) = pop_overdue (gl_max_wait (e_limits e)) now (g_parked g');
          e' = fold (\<lambda>w. send w Rejected) ws (e\<lparr>e_gates := e_gates e @ [g'\<lparr>g_parked := rest\<rparr>]\<rparr>);
          (e'', n) = reject_gates now gs e'
      in (e'', length ws + n))"

definition reject_overdue_sessions :: "instant \<Rightarrow> gate_engine \<Rightarrow> gate_engine \<times> nat" where
  "reject_overdue_sessions now e = reject_gates now (e_gates e) (e\<lparr>e_gates := []\<rparr>)"

definition gate_status :: "gate_engine \<Rightarrow> (string \<times> nat) list" where
  "gate_status e = map (\<lambda>g. (gs_id (g_spec g), length (g_parked g))) (e_gates e)"

text \<open>The environment: a client drops the receiver it was given.\<close>

definition drop_receiver :: "channel \<Rightarrow> gate_engine \<Rightarrow> gate_engine" where
  "drop_receiver w e = e\<lparr>e_closed := insert w (e_closed e)\<rparr>"

declare topology_loop.simps [simp del] expire_loop.simps [simp del]

section \<open>Draining gates\<close>

definition wakers :: "gate_state \<Rightarrow> channel list" where
  "wakers g = map pk_waker (g_parked g)"

definition parked_channels :: "gate_engine \<Rightarrow> channel list" where
  "parked_channels e = concat (map wakers (e_gates e))"

text \<open>The messages a drained gate delivers: its live sessions, in queue order.\<close>

definition gate_msgs :: "channel set \<Rightarrow> release \<Rightarrow> gate_state \<Rightarrow> (channel \<times> release) list" where
  "gate_msgs closed r g = map (\<lambda>w. (w, r)) (filter (\<lambda>w. w \<notin> closed) (wakers g))"

lemma fold_send:
  "fold (\<lambda>w. send w r) ws e =
     e\<lparr>e_sent := e_sent e @ map (\<lambda>w. (w, r)) (filter (\<lambda>w. w \<notin> e_closed e) ws)\<rparr>"
  by (induction ws arbitrary: e) (auto simp: send_def)

lemma fold_send_parked:
  "fold (\<lambda>p. send (pk_waker p) r) ps e =
     e\<lparr>e_sent := e_sent e @ map (\<lambda>w. (w, r)) (filter (\<lambda>w. w \<notin> e_closed e) (map pk_waker ps))\<rparr>"
  by (induction ps arbitrary: e) (auto simp: send_def)

lemma drain_gate_eq:
  "drain_gate idx r e = e\<lparr>e_gates := swap_remove (e_gates e) idx,
     e_sent := e_sent e @ gate_msgs (e_closed e) r (e_gates e ! idx)\<rparr>"
  by (simp add: drain_gate_def fold_send_parked gate_msgs_def wakers_def)

lemma swap_remove_split:
  assumes "i < length xs"
  shows "take i (swap_remove xs i) = take i xs"
    and "mset (drop i xs) = add_mset (xs ! i) (mset (drop i (swap_remove xs i)))"
proof -
  obtain ys z where xs: "xs = ys @ [z]" using assms by (cases xs rule: rev_cases) auto
  have both: "take i (swap_remove xs i) = take i xs
      \<and> mset (drop i xs) = add_mset (xs ! i) (mset (drop i (swap_remove xs i)))"
  proof (cases "i = length ys")
    case True
    then show ?thesis by (simp add: xs swap_remove_def)
  next
    case False
    with assms have i: "i < length ys" by (simp add: xs)
    then have "swap_remove xs i = ys[i := z]"
      by (simp add: xs swap_remove_def list_update_append)
    moreover have "drop i ys = ys ! i # drop (Suc i) ys" using i by (simp add: Cons_nth_drop_Suc)
    moreover have "drop i (ys[i := z]) = z # drop (Suc i) ys"
      using i by (simp add: drop_update_swap Cons_nth_drop_Suc [symmetric])
    ultimately show ?thesis using i by (simp add: xs nth_append)
  qed
  then show "take i (swap_remove xs i) = take i xs"
    and "mset (drop i xs) = add_mset (xs ! i) (mset (drop i (swap_remove xs i)))"
    by simp_all
qed

lemma mset_swap_remove:
  assumes "i < length xs"
  shows "mset xs = add_mset (xs ! i) (mset (swap_remove xs i))"
proof -
  have "mset xs = mset (take i xs) + mset (drop i xs)"
    by (metis append_take_drop_id mset_append)
  also have "\<dots> = add_mset (xs ! i) (mset (take i (swap_remove xs i)) + mset (drop i (swap_remove xs i)))"
    using swap_remove_split [OF assms] by simp
  also have "mset (take i (swap_remove xs i)) + mset (drop i (swap_remove xs i)) = mset (swap_remove xs i)"
    by (metis append_take_drop_id mset_append)
  finally show ?thesis .
qed

text \<open>
  Both loops over the gate vector are one sweep that drains the gates with a property \<open>P\<close> and keeps
  the others.
\<close>

function sweep :: "(gate_state \<Rightarrow> bool) \<Rightarrow> (gate_state \<Rightarrow> release) \<Rightarrow> nat \<Rightarrow> gate_engine \<Rightarrow> gate_engine" where
  "sweep P rel idx e =
     (if idx < length (e_gates e) then
        if P (e_gates e ! idx) then sweep P rel idx (drain_gate idx (rel (e_gates e ! idx)) e)
        else sweep P rel (idx + 1) e
      else e)"
  by pat_completeness auto
termination
  by (relation "measure (\<lambda>(P, rel, idx, e). length (e_gates e) - idx)") auto

declare sweep.simps [simp del]

definition open_ready :: "u64 \<Rightarrow> gate_state \<Rightarrow> bool" where
  "open_ready applied g \<longleftrightarrow> g_open_requested g \<and> gs_min_topology_generation (g_spec g) \<le> applied"

definition open_release :: "u64 \<Rightarrow> instant \<Rightarrow> gate_state \<Rightarrow> release" where
  "open_release applied now g = (if gs_deadline (g_spec g) \<le> now then Expired else Replan applied)"

definition due :: "instant \<Rightarrow> gate_state \<Rightarrow> bool" where
  "due now g \<longleftrightarrow> gs_deadline (g_spec g) \<le> now"

lemma topology_loop_sweep:
  "topology_loop applied now idx e = sweep (open_ready applied) (open_release applied now) idx e"
proof (induction applied now idx e rule: topology_loop.induct)
  case (1 applied now idx e)
  then show ?case
    by (simp add: topology_loop.simps [of applied now idx e] sweep.simps [of _ _ idx e]
        open_ready_def open_release_def open_gate_def Let_def)
qed

lemma expire_loop_sweep:
  "expire_loop now n idx e = (sweep (due now) (\<lambda>_. Expired) idx e,
     n + size (filter_mset (due now) (mset (drop idx (e_gates e)))))"
proof (induction now n idx e rule: expire_loop.induct)
  case (1 now n idx e)
  show ?case
  proof (cases "idx < length (e_gates e)")
    case True
    have split: "mset (drop idx (e_gates e)) =
        add_mset (e_gates e ! idx) (mset (drop idx (swap_remove (e_gates e) idx)))"
      by (rule swap_remove_split(2) [OF True])
    have next_drop: "mset (drop idx (e_gates e)) =
        add_mset (e_gates e ! idx) (mset (drop (Suc idx) (e_gates e)))"
      using True by (simp add: Cons_nth_drop_Suc [symmetric])
    show ?thesis
    proof (cases "due now (e_gates e ! idx)")
      case due: True
      then have "gs_deadline (g_spec (e_gates e ! idx)) \<le> now" by (simp add: due_def)
      with 1 True due split show ?thesis
        by (simp add: expire_loop.simps [of now n idx e] sweep.simps [of _ _ idx e])
    next
      case False
      then have "\<not> gs_deadline (g_spec (e_gates e ! idx)) \<le> now" by (simp add: due_def)
      with 1 True False next_drop show ?thesis
        by (simp add: expire_loop.simps [of now n idx e] sweep.simps [of _ _ idx e])
    qed
  next
    case False
    then show ?thesis by (simp add: expire_loop.simps sweep.simps)
  qed
qed

lemma sweep_frame [simp]:
  "e_closed (sweep P rel idx e) = e_closed e \<and> e_limits (sweep P rel idx e) = e_limits e
   \<and> e_next_channel (sweep P rel idx e) = e_next_channel e
   \<and> e_applied_generation (sweep P rel idx e) = e_applied_generation e"
proof (induction P rel idx e rule: sweep.induct)
  case (1 P rel idx e)
  then show ?case by (simp add: sweep.simps [of P rel idx e] drain_gate_eq)
qed

lemma sweep_gates:
  "mset (e_gates (sweep P rel idx e)) =
     mset (take idx (e_gates e)) + filter_mset (\<lambda>g. \<not> P g) (mset (drop idx (e_gates e)))"
proof (induction P rel idx e rule: sweep.induct)
  case (1 P rel idx e)
  show ?case
  proof (cases "idx < length (e_gates e)")
    case True
    note split = swap_remove_split [OF True]
    show ?thesis
    proof (cases "P (e_gates e ! idx)")
      case P: True
      with 1 True split show ?thesis by (simp add: sweep.simps [of P rel idx e])
    next
      case False
      with 1 True show ?thesis
        by (simp add: sweep.simps [of P rel idx e] take_Suc_conv_app_nth Cons_nth_drop_Suc [symmetric])
    qed
  next
    case False
    then show ?thesis by (simp add: sweep.simps)
  qed
qed

lemma sweep_sent:
  "\<exists>log. e_sent (sweep P rel idx e) = e_sent e @ log
     \<and> set log = (\<Union>g \<in> {g \<in> set (drop idx (e_gates e)). P g}. set (gate_msgs (e_closed e) (rel g) g))"
proof (induction P rel idx e rule: sweep.induct)
  case (1 P rel idx e)
  show ?case
  proof (cases "idx < length (e_gates e)")
    case True
    have split: "set (drop idx (e_gates e)) =
        insert (e_gates e ! idx) (set (drop idx (swap_remove (e_gates e) idx)))"
      using arg_cong [OF swap_remove_split(2) [OF True], of set_mset] by simp
    have next_drop: "set (drop idx (e_gates e)) =
        insert (e_gates e ! idx) (set (drop (Suc idx) (e_gates e)))"
      using True by (simp add: Cons_nth_drop_Suc [symmetric])
    show ?thesis
    proof (cases "P (e_gates e ! idx)")
      case P: True
      obtain log where log: "e_sent (sweep P rel idx (drain_gate idx (rel (e_gates e ! idx)) e)) =
            e_sent (drain_gate idx (rel (e_gates e ! idx)) e) @ log"
          "set log = (\<Union>g \<in> {g \<in> set (drop idx (swap_remove (e_gates e) idx)). P g}.
            set (gate_msgs (e_closed e) (rel g) g))"
        using "1.IH"(1) [OF True P] by (auto simp: drain_gate_eq)
      show ?thesis
        using True P log split
        by (intro exI [of _ "gate_msgs (e_closed e) (rel (e_gates e ! idx)) (e_gates e ! idx) @ log"])
          (auto simp: sweep.simps [of P rel idx e] drain_gate_eq)
    next
      case False
      then obtain log where log: "e_sent (sweep P rel (idx + 1) e) = e_sent e @ log"
          "set log = (\<Union>g \<in> {g \<in> set (drop (idx + 1) (e_gates e)). P g}.
            set (gate_msgs (e_closed e) (rel g) g))"
        using "1.IH"(2) [OF True False] by auto
      show ?thesis
        using True False log next_drop
        by (intro exI [of _ log]) (auto simp: sweep.simps [of P rel idx e])
    qed
  next
    case False
    then show ?thesis by (simp add: sweep.simps)
  qed
qed

section \<open>The engine invariant\<close>

text \<open>
  A channel is outstanding while its session is parked or its release has been delivered. The
  invariant: gate ids are distinct, every channel is outstanding at most once, every channel ever
  handed out is outstanding or was dropped by its client, and both buffer limits hold.
\<close>

definition outstanding :: "gate_engine \<Rightarrow> channel multiset" where
  "outstanding e = mset (parked_channels e) + mset (map fst (e_sent e))"

definition gate_inv :: "gate_engine \<Rightarrow> bool" where
  "gate_inv e \<longleftrightarrow>
     distinct (map (\<lambda>g. gs_id (g_spec g)) (e_gates e))
     \<and> (\<forall>w. count (outstanding e) w \<le> 1)
     \<and> (\<forall>w \<in># outstanding e. w < e_next_channel e)
     \<and> (\<forall>w < e_next_channel e. w \<in># outstanding e \<or> w \<in> e_closed e)
     \<and> (\<forall>w \<in> e_closed e. w < e_next_channel e)
     \<and> (\<forall>g \<in> set (e_gates e). length (g_parked g) \<le> gl_max_sessions (e_limits e))
     \<and> total_parked e \<le> gl_max_total_sessions (e_limits e)"

text \<open>What a call that only releases sessions may do to the state.\<close>

definition settles :: "gate_engine \<Rightarrow> gate_engine \<Rightarrow> bool" where
  "settles e e' \<longleftrightarrow>
     e_closed e' = e_closed e \<and> e_next_channel e' = e_next_channel e \<and> e_limits e' = e_limits e
     \<and> outstanding e' \<subseteq># outstanding e
     \<and> (\<forall>w \<in># outstanding e. w \<notin> e_closed e \<longrightarrow> w \<in># outstanding e')
     \<and> mset (map (\<lambda>g. gs_id (g_spec g)) (e_gates e')) \<subseteq># mset (map (\<lambda>g. gs_id (g_spec g)) (e_gates e))
     \<and> (\<forall>g' \<in> set (e_gates e'). \<exists>g \<in> set (e_gates e). length (g_parked g') \<le> length (g_parked g))
     \<and> total_parked e' \<le> total_parked e"

lemma parked_channels_mset:
  "mset (parked_channels e) = (\<Sum>g \<in># mset (e_gates e). mset (wakers g))"
  by (simp add: parked_channels_def mset_concat sum_mset_sum_list comp_def flip: mset_map)

lemma total_parked_mset: "total_parked e = (\<Sum>g \<in># mset (e_gates e). length (g_parked g))"
  by (simp add: total_parked_def sum_mset_sum_list flip: mset_map)

lemma settles_refl [intro]: "settles e e"
  by (auto simp: settles_def)

lemma settles_trans: "settles a b \<Longrightarrow> settles b c \<Longrightarrow> settles a c"
  unfolding settles_def
  by (intro conjI; (elim conjE)?) (auto intro: subset_mset.order_trans order_trans, (meson order_trans)+)

lemma distinct_count: "distinct xs \<longleftrightarrow> (\<forall>x. count (mset xs) x \<le> 1)"
proof (induction xs)
  case (Cons x xs)
  have "x \<notin> set xs \<longleftrightarrow> count (mset xs) x = 0" by (simp add: count_eq_zero_iff)
  with Cons show ?case by (auto simp: le_Suc_eq)
qed simp

lemma distinct_mset_subset: "distinct xs \<Longrightarrow> mset ys \<subseteq># mset xs \<Longrightarrow> distinct ys"
  unfolding distinct_count subseteq_mset_def by (meson order_trans)

lemma settles_inv:
  assumes se: "settles e e'" and inv: "gate_inv e"
  shows "gate_inv e'"
proof -
  have sub: "outstanding e' \<subseteq># outstanding e"
    and frame: "e_closed e' = e_closed e" "e_next_channel e' = e_next_channel e" "e_limits e' = e_limits e"
    and kept: "\<And>w. w \<in># outstanding e \<Longrightarrow> w \<notin> e_closed e \<Longrightarrow> w \<in># outstanding e'"
    and ids: "mset (map (\<lambda>g. gs_id (g_spec g)) (e_gates e')) \<subseteq># mset (map (\<lambda>g. gs_id (g_spec g)) (e_gates e))"
    and len: "\<And>g'. g' \<in> set (e_gates e') \<Longrightarrow> \<exists>g \<in> set (e_gates e). length (g_parked g') \<le> length (g_parked g)"
    and tot: "total_parked e' \<le> total_parked e"
    using se unfolding settles_def by blast+
  have "distinct (map (\<lambda>g. gs_id (g_spec g)) (e_gates e'))"
    using inv ids unfolding gate_inv_def by (blast intro: distinct_mset_subset)
  moreover have "count (outstanding e') w \<le> 1" for w
    using inv mset_subset_eq_count [OF sub, of w] unfolding gate_inv_def by (meson order_trans)
  moreover have "\<forall>w \<in># outstanding e'. w < e_next_channel e'"
    using inv mset_subset_eqD [OF sub] unfolding gate_inv_def frame by blast
  moreover have "\<forall>w < e_next_channel e'. w \<in># outstanding e' \<or> w \<in> e_closed e'"
    using inv kept unfolding gate_inv_def frame by blast
  moreover have "\<forall>w \<in> e_closed e'. w < e_next_channel e'"
    using inv unfolding gate_inv_def frame by blast
  moreover have "\<forall>g \<in> set (e_gates e'). length (g_parked g) \<le> gl_max_sessions (e_limits e')"
    using inv len unfolding gate_inv_def frame by (meson order_trans)
  moreover have "total_parked e' \<le> gl_max_total_sessions (e_limits e')"
    using inv tot unfolding gate_inv_def frame by linarith
  ultimately show ?thesis unfolding gate_inv_def by blast
qed

lemma drain_settles:
  assumes "idx < length (e_gates e)"
  shows "settles e (drain_gate idx r e)"
proof -
  let ?g = "e_gates e ! idx" and ?rest = "swap_remove (e_gates e) idx"
  have gates: "mset (e_gates e) = add_mset ?g (mset ?rest)" by (rule mset_swap_remove [OF assms])
  then have set_gates: "set (e_gates e) = insert ?g (set ?rest)" by (metis set_mset_add_mset_insert set_mset_mset)
  have before: "mset (parked_channels e) = mset (wakers ?g) + (\<Sum>g \<in># mset ?rest. mset (wakers g))"
    by (simp add: parked_channels_mset gates)
  have after: "outstanding (drain_gate idx r e) =
      (\<Sum>g \<in># mset ?rest. mset (wakers g)) + mset (map fst (e_sent e))
      + filter_mset (\<lambda>w. w \<notin> e_closed e) (mset (wakers ?g))"
    by (simp add: outstanding_def parked_channels_mset drain_gate_eq gate_msgs_def comp_def
        flip: mset_filter mset_map)
  have now: "outstanding e = mset (wakers ?g) + (\<Sum>g \<in># mset ?rest. mset (wakers g)) + mset (map fst (e_sent e))"
    by (simp only: outstanding_def before)
  have "outstanding (drain_gate idx r e) \<subseteq># outstanding e"
    unfolding after now by (simp add: subseteq_mset_def)
  moreover have "\<forall>w \<in># outstanding e. w \<notin> e_closed e \<longrightarrow> w \<in># outstanding (drain_gate idx r e)"
    unfolding after now by auto
  moreover have "mset (map (\<lambda>g. gs_id (g_spec g)) ?rest) \<subseteq># mset (map (\<lambda>g. gs_id (g_spec g)) (e_gates e))"
    by (simp add: gates)
  moreover have "total_parked (drain_gate idx r e) \<le> total_parked e"
    by (simp add: total_parked_mset gates drain_gate_eq)
  ultimately show ?thesis
    unfolding settles_def by (auto simp: drain_gate_eq set_gates)
qed

lemma sweep_settles: "settles e (sweep P rel idx e)"
proof (induction P rel idx e rule: sweep.induct)
  case (1 P rel idx e)
  then show ?case
    by (auto simp: sweep.simps [of P rel idx e] intro: settles_trans [OF drain_settles])
qed

text \<open>One gate's queue is cut down; what leaves it alive is delivered.\<close>

lemma requeue_settles:
  assumes ids: "gs_id (g_spec g') = gs_id (g_spec g)"
    and queue: "mset ws + mset (wakers g') = filter_mset (\<lambda>w. w \<notin> e_closed e) (mset (wakers g))"
  shows "settles (e\<lparr>e_gates := G @ g # H\<rparr>)
    (e\<lparr>e_gates := G @ g' # H, e_sent := e_sent e @ map (\<lambda>w. (w, r)) ws\<rparr>)"
proof -
  let ?rest = "mset (concat (map wakers G)) + mset (concat (map wakers H)) + mset (map fst (e_sent e))"
  let ?a = "e\<lparr>e_gates := G @ g # H\<rparr>"
  let ?b = "e\<lparr>e_gates := G @ g' # H, e_sent := e_sent e @ map (\<lambda>w. (w, r)) ws\<rparr>"
  have a: "outstanding ?a = ?rest + mset (wakers g)"
    by (simp add: outstanding_def parked_channels_def)
  have "outstanding ?b = ?rest + (mset ws + mset (wakers g'))"
    by (simp add: outstanding_def parked_channels_def comp_def)
  then have b: "outstanding ?b = ?rest + filter_mset (\<lambda>w. w \<notin> e_closed e) (mset (wakers g))"
    by (simp only: queue)
  have "size (mset (wakers g')) \<le> size (filter_mset (\<lambda>w. w \<notin> e_closed e) (mset (wakers g)))"
    using arg_cong [OF queue, of size] by simp
  also have "\<dots> \<le> size (mset (wakers g))" by (intro size_mset_mono multiset_filter_subset)
  finally have len: "length (g_parked g') \<le> length (g_parked g)" by (simp add: wakers_def)
  show ?thesis
    unfolding settles_def
  proof (intro conjI)
    show "outstanding ?b \<subseteq># outstanding ?a" unfolding a b by (simp add: subseteq_mset_def)
    show "\<forall>w \<in># outstanding ?a. w \<notin> e_closed ?a \<longrightarrow> w \<in># outstanding ?b" unfolding a b by auto
    show "total_parked ?b \<le> total_parked ?a" using len by (simp add: total_parked_def)
    show "\<forall>x \<in> set (e_gates ?b). \<exists>y \<in> set (e_gates ?a). length (g_parked x) \<le> length (g_parked y)"
      using len by auto
  qed (simp_all add: ids)
qed

lemma wakers_prune [simp]: "wakers (prune_dead closed g) = filter (\<lambda>w. w \<notin> closed) (wakers g)"
  by (simp add: wakers_def prune_dead_def filter_map comp_def)

lemma prune_spec [simp]: "g_spec (prune_dead closed g) = g_spec g"
  by (simp add: prune_dead_def)

lemma prune_settles:
  "settles (e\<lparr>e_gates := G @ gs\<rparr>) (e\<lparr>e_gates := G @ map (prune_dead (e_closed e)) gs\<rparr>)"
proof (induction gs arbitrary: G)
  case Nil
  then show ?case by (simp add: settles_refl)
next
  case (Cons g gs)
  have "settles (e\<lparr>e_gates := G @ g # gs\<rparr>)
      (e\<lparr>e_gates := G @ prune_dead (e_closed e) g # gs, e_sent := e_sent e @ map (\<lambda>w. (w, Expired)) []\<rparr>)"
    by (rule requeue_settles) (simp_all flip: mset_filter)
  then have "settles (e\<lparr>e_gates := G @ g # gs\<rparr>) (e\<lparr>e_gates := (G @ [prune_dead (e_closed e) g]) @ gs\<rparr>)"
    by simp
  from settles_trans [OF this Cons.IH [of "G @ [prune_dead (e_closed e) g]"]] show ?case by simp
qed

lemma pop_overdue_split:
  "pop_overdue m now ps = (ws, rest) \<Longrightarrow> map pk_waker ps = ws @ map pk_waker rest"
  by (induction m now ps arbitrary: ws rule: pop_overdue.induct) (auto split: if_splits prod.splits)

lemma reject_settles:
  "settles (e\<lparr>e_gates := e_gates e @ gs\<rparr>) (fst (reject_gates now gs e))"
proof (induction gs arbitrary: e)
  case Nil
  then show ?case by (simp add: settles_refl)
next
  case (Cons g gs)
  let ?g' = "prune_dead (e_closed e) g"
  obtain ws rest where pop: "pop_overdue (gl_max_wait (e_limits e)) now (g_parked ?g') = (ws, rest)"
    by fastforce
  let ?g'' = "?g'\<lparr>g_parked := rest\<rparr>"
  have split: "filter (\<lambda>w. w \<notin> e_closed e) (wakers g) = ws @ wakers ?g''"
    using pop_overdue_split [OF pop] wakers_prune [of "e_closed e" g] by (simp add: wakers_def)
  have "set ws \<subseteq> set (filter (\<lambda>w. w \<notin> e_closed e) (wakers g))" unfolding split by simp
  then have live: "filter (\<lambda>w. w \<notin> e_closed e) ws = ws" by (intro filter_True) auto
  have queue: "mset ws + mset (wakers ?g'') = filter_mset (\<lambda>w. w \<notin> e_closed e) (mset (wakers g))"
    using arg_cong [OF split, of mset] by simp
  let ?e' = "fold (\<lambda>w. send w Rejected) ws (e\<lparr>e_gates := e_gates e @ [?g'']\<rparr>)"
  have e': "?e' = e\<lparr>e_gates := e_gates e @ [?g''], e_sent := e_sent e @ map (\<lambda>w. (w, Rejected)) ws\<rparr>"
    by (simp add: fold_send live)
  have "?e'\<lparr>e_gates := e_gates ?e' @ gs\<rparr> =
      e\<lparr>e_gates := e_gates e @ ?g'' # gs, e_sent := e_sent e @ map (\<lambda>w. (w, Rejected)) ws\<rparr>"
    unfolding e' by simp
  then have step: "settles (e\<lparr>e_gates := e_gates e @ g # gs\<rparr>) (?e'\<lparr>e_gates := e_gates ?e' @ gs\<rparr>)"
    using requeue_settles [OF _ queue, of "e_gates e" gs Rejected] by (simp only: prune_spec) simp
  have "fst (reject_gates now (g # gs) e) = fst (reject_gates now gs ?e')"
    by (simp add: pop Let_def split: prod.splits)
  then show ?case using settles_trans [OF step Cons.IH] by (simp only:)
qed

section \<open>Every method keeps the invariant\<close>

lemma same_queues_settles:
  assumes "map wakers gs = map wakers (e_gates e)"
    and "map (\<lambda>g. gs_id (g_spec g)) gs = map (\<lambda>g. gs_id (g_spec g)) (e_gates e)"
  shows "settles e (e\<lparr>e_gates := gs\<rparr>)"
proof -
  have lens: "map (\<lambda>g. length (g_parked g)) gs = map (\<lambda>g. length (g_parked g)) (e_gates e)"
    using arg_cong [OF assms(1), of "map length"] by (simp add: comp_def wakers_def)
  then have len: "length gs = length (e_gates e)" by (rule map_eq_imp_length_eq)
  have "\<exists>g \<in> set (e_gates e). length (g_parked g') \<le> length (g_parked g)" if mem: "g' \<in> set gs" for g'
  proof -
    obtain i where i: "i < length gs" "gs ! i = g'" using mem unfolding in_set_conv_nth by blast
    then have "length (g_parked g') = length (g_parked (e_gates e ! i))"
      using arg_cong [OF lens, of "\<lambda>l. l ! i"] len by simp
    then show ?thesis using i len by (intro bexI [of _ "e_gates e ! i"]) simp_all
  qed
  moreover have "outstanding (e\<lparr>e_gates := gs\<rparr>) = outstanding e"
    using assms(1) by (simp add: outstanding_def parked_channels_def)
  moreover have "total_parked (e\<lparr>e_gates := gs\<rparr>) = total_parked e"
    using lens by (simp add: total_parked_def)
  ultimately show ?thesis using assms(2) by (simp add: settles_def)
qed

lemma gate_inv_new: "gate_inv (gate_engine_new limits)"
  by (simp add: gate_inv_def gate_engine_new_def outstanding_def parked_channels_def total_parked_def)

lemma gate_inv_topology_applied: "gate_inv e \<Longrightarrow> gate_inv (topology_applied g now e)"
proof -
  have "settles e (e\<lparr>e_applied_generation := g\<rparr>)"
    by (simp add: settles_def outstanding_def parked_channels_def total_parked_def) blast
  then have "settles e (topology_applied g now e)"
    using sweep_settles settles_trans
    by (auto simp: topology_applied_def Let_def topology_loop_sweep)
  then show "gate_inv e \<Longrightarrow> gate_inv (topology_applied g now e)" by (rule settles_inv)
qed

lemma gate_inv_close:
  assumes "gate_inv e"
  shows "gate_inv (close_gate spec e)"
proof (cases "position (\<lambda>g. gs_id (g_spec g) = gs_id spec) (e_gates e)")
  case None
  then have fresh: "gs_id spec \<notin> set (map (\<lambda>g. gs_id (g_spec g)) (e_gates e))"
    by (auto simp: position_None)
  have "outstanding (close_gate spec e) = outstanding e"
    by (simp add: close_gate_def None outstanding_def parked_channels_def wakers_def)
  then show ?thesis
    using assms fresh by (auto simp: gate_inv_def close_gate_def None total_parked_def)
next
  case (Some i)
  then have i: "i < length (e_gates e)" "gs_id (g_spec (e_gates e ! i)) = gs_id spec"
    by (auto simp: position_Some)
  have "settles e (close_gate spec e)"
    unfolding close_gate_def Some option.case
    using i by (intro same_queues_settles) (simp_all add: map_update wakers_def list_update_same_conv)
  then show ?thesis using assms by (rule settles_inv)
qed

lemma gate_inv_open:
  assumes "gate_inv e"
  shows "gate_inv (open_by_id i now e)"
proof (cases "position (\<lambda>g. gs_id (g_spec g) = i) (e_gates e)")
  case None
  then show ?thesis using assms by (simp add: open_by_id_def)
next
  case (Some k)
  then have k: "k < length (e_gates e)" by (simp add: position_Some)
  have "settles e (e\<lparr>e_gates := (e_gates e)[k := (e_gates e ! k)\<lparr>g_open_requested := True\<rparr>]\<rparr>)"
    using k by (intro same_queues_settles) (simp_all add: map_update wakers_def list_update_same_conv)
  then show ?thesis
    using assms settles_inv drain_settles [OF k] by (auto simp: open_by_id_def Some Let_def)
qed

lemma gate_inv_expire: "gate_inv e \<Longrightarrow> gate_inv (fst (expire_due now e))"
  using settles_inv [OF sweep_settles] by (simp add: expire_due_def expire_loop_sweep)

lemma gate_inv_reject: "gate_inv e \<Longrightarrow> gate_inv (fst (reject_overdue_sessions now e))"
  using settles_inv [OF reject_settles [of "e\<lparr>e_gates := []\<rparr>" "e_gates e" now]]
  by (simp add: reject_overdue_sessions_def)

lemma gate_inv_drop: "gate_inv e \<Longrightarrow> w < e_next_channel e \<Longrightarrow> gate_inv (drop_receiver w e)"
  by (auto simp: gate_inv_def drop_receiver_def outstanding_def parked_channels_def total_parked_def)

lemma push_gate:
  assumes "k < length gs" and "wakers g' = wakers (gs ! k) @ [ch]"
    and "length (g_parked g') = Suc (length (g_parked (gs ! k)))"
  shows "mset (concat (map wakers (gs[k := g']))) = add_mset ch (mset (concat (map wakers gs)))"
    and "sum_list (map (\<lambda>g. length (g_parked g)) (gs[k := g'])) =
      Suc (sum_list (map (\<lambda>g. length (g_parked g)) gs))"
  using assms by (induction gs arbitrary: k) (auto simp: nth_Cons split: nat.splits)

lemma gate_inv_check:
  assumes "gate_inv e"
  shows "gate_inv (fst (gate_check scope now e))"
proof (cases "position (gate_applies scope) (e_gates e)")
  case None
  then show ?thesis using assms by (simp add: gate_check_def)
next
  case (Some k)
  let ?p = "e\<lparr>e_gates := map (prune_dead (e_closed e)) (e_gates e)\<rparr>"
  let ?ch = "e_next_channel e"
  have k: "k < length (e_gates ?p)" using Some by (simp add: position_Some)
  have "settles e ?p" using prune_settles [where G = "[]" and gs = "e_gates e" and e = e] by simp
  then have inv: "gate_inv ?p" using assms by (rule settles_inv)
  then have fresh: "?ch \<notin># outstanding ?p" "?ch \<notin> e_closed ?p"
    by (fastforce simp: gate_inv_def)+
  show ?thesis
  proof (cases "total_parked ?p \<ge> gl_max_total_sessions (e_limits e)
      \<or> length (g_parked (e_gates ?p ! k)) \<ge> gl_max_sessions (e_limits e)")
    case True
    then have res: "fst (gate_check scope now e) =
        ?p\<lparr>e_next_channel := ?ch + 1, e_sent := e_sent e @ [(?ch, Rejected)]\<rparr>"
      using fresh by (auto simp: gate_check_def Some Let_def send_def)
    have "outstanding (fst (gate_check scope now e)) = add_mset ?ch (outstanding ?p)"
      by (simp add: res outstanding_def parked_channels_def)
    then show ?thesis
      using inv fresh
      by (auto simp: gate_inv_def res total_parked_def less_Suc_eq count_eq_zero_iff)
  next
    case False
    let ?g = "e_gates ?p ! k"
    let ?g' = "?g\<lparr>g_parked := g_parked ?g @ [\<lparr>pk_waker = ?ch, pk_enqueued = now\<rparr>]\<rparr>"
    have res: "fst (gate_check scope now e) =
        ?p\<lparr>e_next_channel := ?ch + 1, e_gates := (e_gates ?p)[k := ?g']\<rparr>"
      using False by (auto simp: gate_check_def Some Let_def)
    have wk: "wakers ?g' = wakers ?g @ [?ch]" "length (g_parked ?g') = Suc (length (g_parked ?g))"
      by (simp_all add: wakers_def)
    note push = push_gate [OF k wk]
    have out: "outstanding (fst (gate_check scope now e)) = add_mset ?ch (outstanding ?p)"
      using push(1) unfolding res by (simp add: outstanding_def parked_channels_def)
    have tot: "total_parked (fst (gate_check scope now e)) = Suc (total_parked ?p)"
      using push(2) unfolding res by (simp add: total_parked_def)
    have ids: "map (\<lambda>g. gs_id (g_spec g)) (e_gates (fst (gate_check scope now e))) =
        map (\<lambda>g. gs_id (g_spec g)) (e_gates ?p)"
      using k unfolding res by (simp add: map_update list_update_same_conv)
    have len: "length (g_parked x) \<le> gl_max_sessions (e_limits e)"
      if "x \<in> set (e_gates (fst (gate_check scope now e)))" for x
    proof -
      have "x \<in> insert ?g' (set (e_gates ?p))"
        using that set_update_subset_insert [of "e_gates ?p" k ?g'] unfolding res by auto
      then show ?thesis using inv False by (auto simp: gate_inv_def)
    qed
    have frame: "e_next_channel (fst (gate_check scope now e)) = Suc ?ch"
      "e_closed (fst (gate_check scope now e)) = e_closed e"
      "e_limits (fst (gate_check scope now e)) = e_limits e"
      unfolding res by simp_all
    show ?thesis
      using inv fresh False len
      unfolding gate_inv_def out tot ids frame
      by (auto simp: less_Suc_eq count_eq_zero_iff)
  qed
qed

section \<open>Executions\<close>

text \<open>
  The mutex makes every method call atomic, so any interleaving of router threads and timer ticks
  is a sequence of these steps.
\<close>

inductive gate_step :: "instant \<Rightarrow> gate_engine \<Rightarrow> gate_engine \<Rightarrow> bool" for now where
  step_topology: "gate_step now e (topology_applied g now e)"
| step_close: "gate_step now e (close_gate spec e)"
| step_open: "gate_step now e (open_by_id i now e)"
| step_expire: "gate_step now e (fst (expire_due now e))"
| step_check: "gate_step now e (fst (gate_check scope now e))"
| step_reject: "gate_step now e (fst (reject_overdue_sessions now e))"
| step_drop: "w < e_next_channel e \<Longrightarrow> gate_step now e (drop_receiver w e)"

inductive gate_reachable :: "gate_limits \<Rightarrow> gate_engine \<Rightarrow> bool" for limits where
  gate_start: "gate_reachable limits (gate_engine_new limits)"
| gate_next: "gate_reachable limits e \<Longrightarrow> gate_step now e e' \<Longrightarrow> gate_reachable limits e'"

lemmas gate_inv_ops = gate_inv_topology_applied gate_inv_close gate_inv_open gate_inv_expire
  gate_inv_check gate_inv_reject gate_inv_drop

lemma gate_step_inv: "gate_step now e e' \<Longrightarrow> gate_inv e \<Longrightarrow> gate_inv e'"
  by (induction rule: gate_step.induct) (simp_all add: gate_inv_ops)

lemma gate_reachable_inv: "gate_reachable limits e \<Longrightarrow> gate_inv e"
  by (induction rule: gate_reachable.induct) (auto simp: gate_inv_new intro: gate_step_inv)

lemma topology_applied_sweep:
  "topology_applied g now e =
     sweep (open_ready (max g (e_applied_generation e))) (open_release (max g (e_applied_generation e)) now) 0
       (e\<lparr>e_applied_generation := max g (e_applied_generation e)\<rparr>)"
  by (auto simp: topology_applied_def topology_loop_sweep Let_def max_def not_less)

lemma set_gate_msgs: "set (gate_msgs closed r g) = {(w, r) | w. w \<in> set (wakers g) \<and> w \<notin> closed}"
  by (auto simp: gate_msgs_def)

lemma reject_gates_log:
  "\<exists>log. e_sent (fst (reject_gates now gs e)) = e_sent e @ log \<and> snd ` set log \<subseteq> {Rejected}"
proof (induction gs arbitrary: e)
  case (Cons g gs)
  let ?g' = "prune_dead (e_closed e) g"
  obtain ws rest where pop: "pop_overdue (gl_max_wait (e_limits e)) now (g_parked ?g') = (ws, rest)"
    by fastforce
  let ?e' = "fold (\<lambda>w. send w Rejected) ws (e\<lparr>e_gates := e_gates e @ [?g'\<lparr>g_parked := rest\<rparr>]\<rparr>)"
  obtain log where log: "e_sent (fst (reject_gates now gs ?e')) = e_sent ?e' @ log" "snd ` set log \<subseteq> {Rejected}"
    using Cons.IH by blast
  have "fst (reject_gates now (g # gs) e) = fst (reject_gates now gs ?e')"
    by (simp add: pop Let_def split: prod.splits)
  then show ?case
    using log by (intro exI [of _ "map (\<lambda>w. (w, Rejected)) (filter (\<lambda>w. w \<notin> e_closed e) ws) @ log"])
      (auto simp: fold_send)
qed simp

definition new_msgs :: "gate_engine \<Rightarrow> gate_engine \<Rightarrow> (channel \<times> release) list" where
  "new_msgs e e' = drop (length (e_sent e)) (e_sent e')"

lemma new_msgs_append: "e_sent e' = e_sent e @ log \<Longrightarrow> new_msgs e e' = log"
  by (simp add: new_msgs_def)

lemma sweep_new_msgs:
  assumes "e_sent e = e_sent e0"
  shows "set (new_msgs e0 (sweep P rel 0 e)) =
    {(w, rel g) | g w. g \<in> set (e_gates e) \<and> P g \<and> w \<in> set (wakers g) \<and> w \<notin> e_closed e}"
proof -
  obtain log where log: "e_sent (sweep P rel 0 e) = e_sent e @ log"
      "set log = (\<Union>g \<in> {g \<in> set (e_gates e). P g}. set (gate_msgs (e_closed e) (rel g) g))"
    using sweep_sent [of P rel 0 e] by auto
  then have "new_msgs e0 (sweep P rel 0 e) = log" using assms by (simp add: new_msgs_def)
  then show ?thesis using log(2) by (auto simp: set_gate_msgs)
qed

lemma topology_applied_new_msgs:
  "set (new_msgs e (topology_applied gen now e)) =
     {(w, open_release (max gen (e_applied_generation e)) now g) | g w.
        g \<in> set (e_gates e) \<and> open_ready (max gen (e_applied_generation e)) g
        \<and> w \<in> set (wakers g) \<and> w \<notin> e_closed e}"
  unfolding topology_applied_sweep by (subst sweep_new_msgs) simp_all

lemma expire_due_new_msgs:
  "set (new_msgs e (fst (expire_due now e))) =
     {(w, Expired) | g w. g \<in> set (e_gates e) \<and> due now g \<and> w \<in> set (wakers g) \<and> w \<notin> e_closed e}"
  unfolding expire_due_def expire_loop_sweep fst_conv by (subst sweep_new_msgs) simp_all

lemma open_by_id_new_msgs:
  "set (new_msgs e (open_by_id i now e)) \<subseteq>
     {(w, open_release (e_applied_generation e) now g) | g w.
        g \<in> set (e_gates e) \<and> w \<in> set (wakers g)
        \<and> (gs_min_topology_generation (g_spec g) \<le> e_applied_generation e \<or> due now g)}"
proof (cases "position (\<lambda>g. gs_id (g_spec g) = i) (e_gates e)")
  case None
  then show ?thesis by (simp add: open_by_id_def new_msgs_def)
next
  case (Some k)
  then have "e_gates e ! k \<in> set (e_gates e)" by (simp add: position_Some)
  then show ?thesis
    by (auto simp: open_by_id_def Some Let_def new_msgs_def drain_gate_eq set_gate_msgs
        open_release_def due_def not_less split: if_splits)
qed

lemma gate_check_new_msgs: "snd ` set (new_msgs e (fst (gate_check scope now e))) \<subseteq> {Rejected}"
  by (auto simp: gate_check_def new_msgs_def send_def Let_def split: option.splits if_splits)

lemma reject_new_msgs: "snd ` set (new_msgs e (fst (reject_overdue_sessions now e))) \<subseteq> {Rejected}"
proof -
  obtain log where "e_sent (fst (reject_gates now (e_gates e) (e\<lparr>e_gates := []\<rparr>))) = e_sent e @ log"
      "snd ` set log \<subseteq> {Rejected}"
    using reject_gates_log [of now "e_gates e" "e\<lparr>e_gates := []\<rparr>"] by auto
  then show ?thesis by (simp add: reject_overdue_sessions_def new_msgs_def Let_def split_beta)
qed

lemma sweep_all_gates: "mset (e_gates (sweep P rel 0 e)) = filter_mset (\<lambda>g. \<not> P g) (mset (e_gates e))"
  by (simp add: sweep_gates)

lemma set_of_mset_eq: "mset xs = filter_mset P (mset ys) \<Longrightarrow> set xs = {y \<in> set ys. P y}"
  by (metis mset_filter set_filter set_mset_mset)

text \<open>A scenario for the witnesses: one gate on table \<open>t\<close>, deadline 100, waiting for generation 7;
  two writes to \<open>t\<close> are parked behind it, then the orchestrator asks to open it.\<close>

definition demo_spec :: gate_spec where
  "demo_spec = \<lparr>gs_id = ''g1'', gs_mode = WritesOnly,
     gs_matcher = \<lparr>gm_all = False, gm_tables = [''t''], gm_key_ranges = []\<rparr>,
     gs_deadline = 100, gs_min_topology_generation = 7\<rparr>"

definition demo_scope :: statement_scope where
  "demo_scope = \<lparr>ss_tables = [''t''], ss_keyspace_ids = [], ss_is_write = True\<rparr>"

definition demo_engine :: gate_engine where
  "demo_engine = open_by_id ''g1'' 12 (fst (gate_check demo_scope 11 (fst (gate_check demo_scope 10
     (close_gate demo_spec (gate_engine_new gate_limits_default))))))"

lemma demo_engine_reachable: "gate_reachable gate_limits_default demo_engine"
  unfolding demo_engine_def
  by (rule gate_next [OF gate_next [OF gate_next [OF gate_next [OF gate_start
        step_close] step_check] step_check] step_open])

lemmas demo_simps = demo_engine_def demo_spec_def demo_scope_def gate_engine_new_def
  gate_limits_default_def close_gate_def gate_check_def gate_applies_def gate_matches_def
  open_by_id_def prune_dead_def total_parked_def

lemma demo_engine_eq: "demo_engine =
    \<lparr>e_gates = [\<lparr>g_spec = demo_spec, g_parked = [\<lparr>pk_waker = 0, pk_enqueued = 10\<rparr>,
        \<lparr>pk_waker = 1, pk_enqueued = 11\<rparr>], g_open_requested = True\<rparr>],
     e_applied_generation = 0, e_limits = gate_limits_default, e_sent = [], e_closed = {},
     e_next_channel = 2\<rparr>"
  by (simp add: demo_simps)

section \<open>Properties\<close>

text \<open>C4: No parked session is ever lost or released twice. In every state the engine can reach,
  under any interleaving of calls, each channel handed out by \<open>check\<close> whose client is still there is
  either parked behind exactly one gate or has received exactly one release, and both buffer limits
  hold.\<close>

theorem gate_no_session_lost:
  assumes "gate_reachable limits e"
  shows "distinct (parked_channels e @ map fst (e_sent e))
    \<and> (\<forall>w < e_next_channel e. w \<notin> e_closed e \<longrightarrow> w \<in> set (parked_channels e) \<union> fst ` set (e_sent e))
    \<and> (\<forall>g \<in> set (e_gates e). length (g_parked g) \<le> gl_max_sessions (e_limits e))
    \<and> total_parked e \<le> gl_max_total_sessions (e_limits e)"
proof -
  have inv: "gate_inv e" using assms by (rule gate_reachable_inv)
  have "outstanding e = mset (parked_channels e @ map fst (e_sent e))" by (simp add: outstanding_def)
  then have "distinct (parked_channels e @ map fst (e_sent e))"
    using inv unfolding distinct_count gate_inv_def by simp
  moreover have "\<forall>w < e_next_channel e. w \<notin> e_closed e \<longrightarrow> w \<in> set (parked_channels e) \<union> fst ` set (e_sent e)"
    using inv by (auto simp: gate_inv_def outstanding_def)
  ultimately show ?thesis using inv unfolding gate_inv_def by blast
qed

theorem gate_no_session_lost_witness:
  "gate_reachable gate_limits_default demo_engine \<and> parked_channels demo_engine = [0, 1]
   \<and> distinct (parked_channels demo_engine @ map fst (e_sent demo_engine))"
proof -
  have "parked_channels demo_engine = [0, 1]"
    by (simp add: demo_engine_eq parked_channels_def wakers_def)
  with gate_no_session_lost [OF demo_engine_reachable] demo_engine_reachable show ?thesis by blast
qed

text \<open>C5: No blind switch. Whatever call releases a session with \<open>Replan\<close>, the session was parked
  behind a gate whose deadline has not passed and whose minimum topology generation the router has
  applied, and the generation reported is the applied one.\<close>

theorem replan_only_when_safe:
  assumes "gate_step now e e'" and "(w, Replan g) \<in> set (new_msgs e e')"
  shows "g = e_applied_generation e'
    \<and> (\<exists>gate \<in> set (e_gates e). w \<in> set (wakers gate) \<and> now < gs_deadline (g_spec gate)
         \<and> gs_min_topology_generation (g_spec gate) \<le> g)"
  using assms
proof (cases rule: gate_step.cases)
  case (step_topology gen)
  then have "e_applied_generation e' = max gen (e_applied_generation e)"
    by (simp add: topology_applied_sweep)
  with step_topology assms(2) show ?thesis
    by (auto simp: topology_applied_new_msgs open_release_def open_ready_def split: if_splits)
next
  case (step_open i)
  have "e_applied_generation e' = e_applied_generation e"
    using step_open by (auto simp: open_by_id_def Let_def drain_gate_eq split: option.splits)
  then show ?thesis
    using step_open assms(2) open_by_id_new_msgs [of e i now]
    by (fastforce simp: open_release_def due_def split: if_splits)
next
  case step_expire
  with assms(2) show ?thesis by (auto simp: expire_due_new_msgs)
next
  case (step_check scope)
  with assms(2) gate_check_new_msgs [of e scope now] show ?thesis by force
next
  case step_reject
  with assms(2) reject_new_msgs [of e now] show ?thesis by force
qed (auto simp: close_gate_def drop_receiver_def new_msgs_def split: option.splits)

theorem replan_only_when_safe_witness:
  "(1, Replan 9) \<in> set (new_msgs demo_engine (topology_applied 9 50 demo_engine))
   \<and> 9 = e_applied_generation (topology_applied 9 50 demo_engine)"
proof -
  have "(1, Replan 9) \<in> set (new_msgs demo_engine (topology_applied 9 50 demo_engine))"
    by (simp add: topology_applied_new_msgs demo_engine_eq open_ready_def open_release_def
        demo_spec_def wakers_def)
  with replan_only_when_safe [OF step_topology this] show ?thesis by simp
qed

text \<open>The expiry sweep is exact. \<open>expire_due\<close> removes precisely the gates whose deadline has
  passed, returns their number, releases every live session parked behind them with \<open>Expired\<close>, sends
  nothing else, and keeps every other gate with its queue untouched.\<close>

theorem expire_due_exact:
  "let (e', n) = expire_due now e in
     mset (e_gates e') = filter_mset (\<lambda>g. now < gs_deadline (g_spec g)) (mset (e_gates e))
     \<and> n = size (filter_mset (\<lambda>g. gs_deadline (g_spec g) \<le> now) (mset (e_gates e)))
     \<and> set (new_msgs e e') = {(w, Expired) | g w. g \<in> set (e_gates e) \<and> gs_deadline (g_spec g) \<le> now
         \<and> w \<in> set (wakers g) \<and> w \<notin> e_closed e}"
proof -
  have "(\<lambda>g. \<not> due now g) = (\<lambda>g. now < gs_deadline (g_spec g))" by (auto simp: due_def not_le)
  moreover have "due now = (\<lambda>g. gs_deadline (g_spec g) \<le> now)" by (auto simp: due_def)
  ultimately show ?thesis
    using expire_due_new_msgs [of e now]
    by (simp add: expire_due_def expire_loop_sweep sweep_all_gates)
qed

text \<open>Applying a topology generation releases exactly the gates that were asked to open and were
  waiting for it. Afterwards no armed gate whose minimum generation is applied remains, every other
  gate is kept, the applied generation never moves back, and each live session behind a released gate
  is told to replan, or that its gate expired if the deadline has passed.\<close>

theorem topology_applied_exact:
  "let e' = topology_applied gen now e; applied = max gen (e_applied_generation e);
       ready = (\<lambda>g. g_open_requested g \<and> gs_min_topology_generation (g_spec g) \<le> applied) in
     e_applied_generation e' = applied
     \<and> mset (e_gates e') = filter_mset (\<lambda>g. \<not> ready g) (mset (e_gates e))
     \<and> set (new_msgs e e') =
         {(w, if gs_deadline (g_spec g) \<le> now then Expired else Replan applied) | g w.
            g \<in> set (e_gates e) \<and> ready g \<and> w \<in> set (wakers g) \<and> w \<notin> e_closed e}"
proof -
  define applied where "applied = max gen (e_applied_generation e)"
  have ready: "open_ready applied = (\<lambda>g. g_open_requested g \<and> gs_min_topology_generation (g_spec g) \<le> applied)"
    by (auto simp: open_ready_def)
  have "set (new_msgs e (topology_applied gen now e)) =
      {(w, open_release applied now g) | g w.
        g \<in> set (e_gates e) \<and> open_ready applied g \<and> w \<in> set (wakers g) \<and> w \<notin> e_closed e}"
    using topology_applied_new_msgs [of e gen now] by (simp add: applied_def)
  then show ?thesis
    unfolding Let_def applied_def [symmetric]
    by (simp add: topology_applied_sweep sweep_all_gates applied_def [symmetric] ready open_release_def)
qed

text \<open>A statement passes the gates exactly when none applies to it; otherwise it gets a fresh
  channel. It is parked at the tail of the first gate that applies, unless that queue or the total is
  full once dead sessions are pruned, in which case it is rejected at once and no queue grows.\<close>

theorem gate_check_exact:
  "case gate_check scope now e of
     (e', None) \<Rightarrow> e' = e \<and> (\<forall>g \<in> set (e_gates e). \<not> gate_applies scope g)
   | (e', Some ch) \<Rightarrow>
       (\<exists>i < length (e_gates e). gate_applies scope (e_gates e ! i)
         \<and> (\<forall>j < i. \<not> gate_applies scope (e_gates e ! j))
         \<and> ch = e_next_channel e \<and> e_next_channel e' = ch + 1
         \<and> (let gates = map (prune_dead (e_closed e)) (e_gates e);
                full = gl_max_total_sessions (e_limits e) \<le> sum_list (map (length \<circ> g_parked) gates)
                       \<or> gl_max_sessions (e_limits e) \<le> length (g_parked (gates ! i))
            in if full
               then e_gates e' = gates \<and> (ch \<notin> e_closed e \<longrightarrow> new_msgs e e' = [(ch, Rejected)])
               else new_msgs e e' = [] \<and> map wakers (e_gates e') =
                      (map wakers gates)[i := wakers (gates ! i) @ [ch]]))"
proof (cases "position (gate_applies scope) (e_gates e)")
  case None
  then have "\<forall>g \<in> set (e_gates e). \<not> gate_applies scope g" by (simp add: position_None)
  then show ?thesis by (simp add: gate_check_def None)
next
  case (Some i)
  note pos = Some
  from Some have i: "i < length (e_gates e)" "gate_applies scope (e_gates e ! i)"
      "\<forall>j < i. \<not> gate_applies scope (e_gates e ! j)"
    by (auto simp: position_Some)
  then show ?thesis
    by (auto simp: gate_check_def pos Let_def total_parked_def comp_def send_def new_msgs_def
        map_update wakers_def intro!: exI [of _ i])
qed

theorem gate_check_exact_witness:
  "snd (gate_check demo_scope 12 demo_engine) = Some 2
   \<and> map wakers (e_gates (fst (gate_check demo_scope 12 demo_engine))) = [[0, 1, 2]]
   \<and> gate_applies demo_scope (e_gates demo_engine ! 0)"
proof -
  obtain e' where r: "gate_check demo_scope 12 demo_engine = (e', Some 2)"
    by (simp add: demo_engine_eq demo_spec_def demo_scope_def gate_check_def gate_applies_def
        gate_matches_def prune_dead_def total_parked_def gate_limits_default_def)
  have one: "i < length (e_gates demo_engine) \<longleftrightarrow> i = 0" for i by (simp add: demo_engine_eq)
  have parked: "map (prune_dead (e_closed demo_engine)) (e_gates demo_engine) = e_gates demo_engine"
      "map wakers (e_gates demo_engine) = [[0, 1]]" "length (g_parked (e_gates demo_engine ! 0)) = 2"
      "sum_list (map (length \<circ> g_parked) (e_gates demo_engine)) = 2" "wakers (e_gates demo_engine ! 0) = [0, 1]"
    by (simp_all add: demo_engine_eq prune_dead_def wakers_def)
  have limits: "e_limits demo_engine = gate_limits_default" by (simp add: demo_engine_eq)
  show ?thesis
    using gate_check_exact [where scope = demo_scope and now = 12 and e = demo_engine]
    by (simp add: r one Let_def parked limits gate_limits_default_def)
qed

end
