(* ===== verification/Sequence.thy ===== *)
theory Sequence
  imports Prelude "HOL-Library.Disjoint_Sets"
begin

text \<open>
  Global sequences: the block cache of \<open>pgshard-seq/src/lib.rs\<close> and its PostgreSQL reservation
  backend \<open>pgshard-router/src/sequence.rs\<close>. An \<open>i64\<close> is an \<open>int\<close> with the range check written out.
  \<open>SequenceCache::next_id\<close> holds the cache's mutex except while it waits on the condition variable
  and while it calls the backend, so it is cut there into its atomic sections \<open>next_id_enter\<close> and
  \<open>next_id_finish\<close>; \<open>seq_step\<close> interleaves those sections over any number of routers and threads,
  with failing, panicking and partly executed reservations. The messages inside \<open>Backend\<close> errors are
  kept as data (\<open>backend_cause\<close>) instead of text.
\<close>

section \<open>Definitions\<close>

subsection \<open>Blocks\<close>

datatype backend_cause = NonPositiveBlock string int | NonPositiveRow string int | Driver string

datatype seq_error = UnknownSequence string | Backend backend_cause | Exhausted string

record block =
  bl_next :: int
  bl_end :: int

definition checked_add :: "int \<Rightarrow> int \<Rightarrow> int option" where
  "checked_add a b = (if in_i64 (a + b) then Some (a + b) else None)"

definition block_new :: "int \<Rightarrow> int \<Rightarrow> block option" where
  "block_new start sz =
     (case checked_add start sz of None \<Rightarrow> None | Some e \<Rightarrow> Some \<lparr>bl_next = start, bl_end = e\<rparr>)"

definition block_empty :: block where
  "block_empty = \<lparr>bl_next = 0, bl_end = 0\<rparr>"

definition block_take :: "block \<Rightarrow> block \<times> int option" where
  "block_take b =
     (if bl_next b < bl_end b then (b\<lparr>bl_next := bl_next b + 1\<rparr>, Some (bl_next b)) else (b, None))"

definition remaining :: "block \<Rightarrow> int" where
  "remaining b = max (bl_end b - bl_next b) 0"

subsection \<open>The cache\<close>

record seq_state =
  ss_block :: block
  ss_refill_at :: int
  ss_reserving :: bool

type_synonym seq_cache = "string \<rightharpoonup> seq_state"

datatype entered = Got int | MustWait | Claimed

definition next_id_enter :: "string \<Rightarrow> seq_cache \<Rightarrow> seq_cache \<times> entered" where
  "next_id_enter sequence state =
     (case state sequence of
        Some entry \<Rightarrow>
          (case block_take (ss_block entry) of
             (block, Some i) \<Rightarrow> (state(sequence \<mapsto> entry\<lparr>ss_block := block\<rparr>), Got i)
           | (_, None) \<Rightarrow>
               if ss_reserving entry then (state, MustWait)
               else (state(sequence \<mapsto> entry\<lparr>ss_reserving := True\<rparr>), Claimed))
      | None \<Rightarrow>
          (state(sequence \<mapsto> \<lparr>ss_block = block_empty, ss_refill_at = 0, ss_reserving = True\<rparr>),
           Claimed))"

definition next_id_finish ::
    "string \<Rightarrow> (seq_error + int \<times> int) \<Rightarrow> seq_cache \<Rightarrow> (seq_cache \<times> (seq_error + int)) option" where
  "next_id_finish sequence result state =
     (case state sequence of
        None \<Rightarrow> None
      | Some entry \<Rightarrow>
          let entry = entry\<lparr>ss_reserving := False\<rparr>; state = state(sequence \<mapsto> entry)
          in Some (case result of
               Err e \<Rightarrow> (state, Err e)
             | Ok (start, sz) \<Rightarrow>
                 if sz \<le> 0 then (state, Err (Backend (NonPositiveBlock sequence sz)))
                 else (case block_new start sz of
                     None \<Rightarrow> (state, Err (Exhausted sequence))
                   | Some block \<Rightarrow>
                       (case block_take block of
                          (_, None) \<Rightarrow> (state, Err (Exhausted sequence))
                        | (block, Some i) \<Rightarrow>
                            (state(sequence \<mapsto> entry\<lparr>ss_block := block,
                               ss_refill_at := max (sz div 5) 1\<rparr>), Ok i)))))"

definition claim_drop :: "string \<Rightarrow> seq_cache \<Rightarrow> seq_cache" where
  "claim_drop sequence state =
     (case state sequence of
        Some entry \<Rightarrow> state(sequence \<mapsto> entry\<lparr>ss_reserving := False\<rparr>)
      | None \<Rightarrow> state)"

definition needs_refill :: "string \<Rightarrow> seq_cache \<Rightarrow> bool" where
  "needs_refill sequence state =
     (case state sequence of
        None \<Rightarrow> False
      | Some s \<Rightarrow> \<not> ss_reserving s \<and> remaining (ss_block s) \<le> ss_refill_at s)"

subsection \<open>The PostgreSQL backend\<close>

record seq_row =
  sr_next_id :: int
  sr_block_size :: int

type_synonym seq_table = "string \<rightharpoonup> seq_row"

text \<open>The statement \<open>RESERVE_SQL\<close> on the table \<open>pgshard.sequences\<close>, both columns \<open>bigint\<close>: an advance
  past the \<open>bigint\<close> range is an SQL error that leaves the row alone.\<close>

definition reserve_sql :: "string \<Rightarrow> seq_table \<Rightarrow> seq_table \<times> (string + (int \<times> int) option)" where
  "reserve_sql name table =
     (case table name of
        None \<Rightarrow> (table, Ok None)
      | Some row \<Rightarrow>
          let next = sr_next_id row + (if sr_block_size row > 0 then sr_block_size row else 0)
          in if in_i64 next
             then (table(name \<mapsto> row\<lparr>sr_next_id := next\<rparr>), Ok (Some (next, sr_block_size row)))
             else (table, Err ''bigint out of range''))"

definition pg_connect :: "(string + unit) \<Rightarrow> (string + unit) \<Rightarrow> seq_error + unit" where
  "pg_connect connected timeout_set =
     bind_res (map_err (\<lambda>e. Backend (Driver e)) connected)
       (\<lambda>_. map_err (\<lambda>e. Backend (Driver e)) timeout_set)"

text \<open>\<open>PgBlockReserver::reserve\<close>. The first argument says whether the connection is open, and the
  first component of the result whether it is kept; the outcomes of connecting and of the query are
  arguments. The subtraction cannot leave the range: it gives back the row's value before the
  statement ran (\<open>reserve_sql_grants\<close>).\<close>

definition pg_reserve ::
    "bool \<Rightarrow> seq_error + unit \<Rightarrow> string + (int \<times> int) option \<Rightarrow> string
     \<Rightarrow> bool \<times> (seq_error + int \<times> int)" where
  "pg_reserve client connect_outcome query_outcome sequence =
     (case (if client then Ok () else connect_outcome) of
        Err e \<Rightarrow> (client, Err e)
      | Ok _ \<Rightarrow>
          (case query_outcome of
             Ok (Some (next_id, sz)) \<Rightarrow>
               if sz \<le> 0 then (True, Err (Backend (NonPositiveRow sequence sz)))
               else (True, Ok (next_id - sz, sz))
           | Ok None \<Rightarrow> (True, Err (UnknownSequence sequence))
           | Err e \<Rightarrow> (False, Err (Backend (Driver e)))))"

subsection \<open>Routers, threads and the system database\<close>

text \<open>One reservation call: the statement runs and replies, or fails without effect, or takes effect
  and the reply is lost, or no connection can be opened.\<close>

inductive pg_reserves :: "string \<Rightarrow> seq_table \<Rightarrow> seq_table \<Rightarrow> seq_error + int \<times> int \<Rightarrow> bool" where
  replied: "reserve_sql s tbl = (tbl', out) \<Longrightarrow> pg_reserves s tbl tbl' (snd (pg_reserve client (Ok ()) out s))"
| failed: "pg_reserves s tbl tbl (snd (pg_reserve client (Ok ()) (Err msg) s))"
| reply_lost: "reserve_sql s tbl = (tbl', out) \<Longrightarrow>
    pg_reserves s tbl tbl' (snd (pg_reserve client (Ok ()) (Err msg) s))"
| unconnected: "pg_connect c t = Err e \<Longrightarrow> pg_reserves s tbl tbl (snd (pg_reserve False (Err e) out s))"

text \<open>What an administrator may do to the table: register a sequence, resize its blocks, or move it
  forward.\<close>

inductive seq_admin :: "seq_table \<Rightarrow> seq_table \<Rightarrow> bool" where
  register: "tbl s = None \<Longrightarrow> in_i64 n \<Longrightarrow> in_i64 b \<Longrightarrow>
    seq_admin tbl (tbl(s \<mapsto> \<lparr>sr_next_id = n, sr_block_size = b\<rparr>))"
| alter: "tbl s = Some row \<Longrightarrow> sr_next_id row \<le> n \<Longrightarrow> in_i64 n \<Longrightarrow> in_i64 b \<Longrightarrow>
    seq_admin tbl (tbl(s \<mapsto> \<lparr>sr_next_id = n, sr_block_size = b\<rparr>))"

datatype seq_phase = Idle | Waiting string bool | Reserving string | Reserved string "seq_error + int \<times> int"

record 'db seq_world =
  w_db :: 'db
  w_caches :: "nat \<Rightarrow> seq_cache"
  w_phase :: "nat \<Rightarrow> nat \<Rightarrow> seq_phase"
  w_log :: "(string \<times> int) list"

definition notify_all :: "(nat \<Rightarrow> seq_phase) \<Rightarrow> nat \<Rightarrow> seq_phase" where
  "notify_all ph t = (case ph t of Waiting s _ \<Rightarrow> Waiting s True | p \<Rightarrow> p)"

text \<open>Thread \<open>t\<close> of router \<open>r\<close> runs the section of \<open>next_id\<close> that starts by taking the lock.\<close>

definition enter_world :: "nat \<Rightarrow> nat \<Rightarrow> string \<Rightarrow> 'db seq_world \<Rightarrow> 'db seq_world" where
  "enter_world r t s w =
     (let (cache, out) = next_id_enter s (w_caches w r)
      in w\<lparr>w_caches := (w_caches w)(r := cache),
           w_phase := (w_phase w)(r := (w_phase w r)(t :=
             (case out of Got _ \<Rightarrow> Idle | MustWait \<Rightarrow> Waiting s False | Claimed \<Rightarrow> Reserving s))),
           w_log := w_log w @ (case out of Got i \<Rightarrow> [(s, i)] | _ \<Rightarrow> [])\<rparr>)"

definition handed :: "string \<Rightarrow> seq_error + int \<Rightarrow> (string \<times> int) list" where
  "handed s out = (case out of Ok i \<Rightarrow> [(s, i)] | Err _ \<Rightarrow> [])"

inductive seq_step ::
    "(string \<Rightarrow> 'db \<Rightarrow> 'db \<Rightarrow> seq_error + int \<times> int \<Rightarrow> bool) \<Rightarrow> ('db \<Rightarrow> 'db \<Rightarrow> bool)
     \<Rightarrow> 'db seq_world \<Rightarrow> 'db seq_world \<Rightarrow> bool" for reserve admin where
  seq_call: "w_phase w r t = Idle \<Longrightarrow> seq_step reserve admin w (enter_world r t s w)"
| seq_wake: "w_phase w r t = Waiting s notified \<Longrightarrow> seq_step reserve admin w (enter_world r t s w)"
| seq_reserve: "w_phase w r t = Reserving s \<Longrightarrow> reserve s (w_db w) db' result \<Longrightarrow>
    seq_step reserve admin w (w\<lparr>w_db := db',
      w_phase := (w_phase w)(r := (w_phase w r)(t := Reserved s result))\<rparr>)"
| seq_panic: "w_phase w r t = Reserving s \<Longrightarrow> reserve s (w_db w) db' result \<Longrightarrow>
    seq_step reserve admin w (w\<lparr>w_db := db',
      w_caches := (w_caches w)(r := claim_drop s (w_caches w r)),
      w_phase := (w_phase w)(r := (notify_all (w_phase w r))(t := Idle))\<rparr>)"
| seq_finish: "w_phase w r t = Reserved s result \<Longrightarrow>
    next_id_finish s result (w_caches w r) = Some (cache, out) \<Longrightarrow>
    seq_step reserve admin w (w\<lparr>w_caches := (w_caches w)(r := cache),
      w_phase := (w_phase w)(r := (notify_all (w_phase w r))(t := Idle)),
      w_log := w_log w @ handed s out\<rparr>)"
| seq_admin_step: "admin (w_db w) db' \<Longrightarrow> seq_step reserve admin w (w\<lparr>w_db := db'\<rparr>)"

definition seq_start :: "'db \<Rightarrow> 'db seq_world" where
  "seq_start db = \<lparr>w_db = db, w_caches = (\<lambda>_. Map.empty), w_phase = (\<lambda>_ _. Idle), w_log = []\<rparr>"

inductive seq_reachable ::
    "(string \<Rightarrow> 'db \<Rightarrow> 'db \<Rightarrow> seq_error + int \<times> int \<Rightarrow> bool) \<Rightarrow> ('db \<Rightarrow> 'db \<Rightarrow> bool)
     \<Rightarrow> ('db \<Rightarrow> bool) \<Rightarrow> 'db seq_world \<Rightarrow> bool" for reserve admin init where
  seq_init: "init db \<Longrightarrow> seq_reachable reserve admin init (seq_start db)"
| seq_next: "seq_reachable reserve admin init w \<Longrightarrow> seq_step reserve admin w w' \<Longrightarrow>
    seq_reachable reserve admin init w'"

section \<open>The reservation contract\<close>

text \<open>
  The contract of the trait \<open>BlockReserver\<close>: every granted range is positive, representable and
  disjoint from everything granted before, whatever the call's outcome and whatever else happens to
  the store in between.
\<close>

locale block_reserver =
  fixes reserve :: "string \<Rightarrow> 'db \<Rightarrow> 'db \<Rightarrow> seq_error + int \<times> int \<Rightarrow> bool"
    and admin :: "'db \<Rightarrow> 'db \<Rightarrow> bool"
    and store_ok :: "'db \<Rightarrow> bool"
    and granted :: "'db \<Rightarrow> string \<Rightarrow> int set"
  assumes reserve_ok: "reserve s db db' result \<Longrightarrow> store_ok db \<Longrightarrow> store_ok db'"
    and admin_ok: "admin db db' \<Longrightarrow> store_ok db \<Longrightarrow> store_ok db'"
    and reserve_keeps: "reserve s db db' result \<Longrightarrow> store_ok db \<Longrightarrow> granted db s' \<subseteq> granted db' s'"
    and admin_keeps: "admin db db' \<Longrightarrow> store_ok db \<Longrightarrow> granted db s' \<subseteq> granted db' s'"
    and reserve_positive: "reserve s db db' (Ok (start, sz)) \<Longrightarrow> store_ok db \<Longrightarrow>
      0 < sz \<and> in_i64 start \<and> in_i64 (start + sz)"
    and reserve_fresh: "reserve s db db' (Ok (start, sz)) \<Longrightarrow> store_ok db \<Longrightarrow>
      {start..<start + sz} \<inter> granted db s = {}"
    and reserve_granted: "reserve s db db' (Ok (start, sz)) \<Longrightarrow> store_ok db \<Longrightarrow>
      {start..<start + sz} \<subseteq> granted db' s"

text \<open>Who owns which ids of a sequence: a router's cached block, a thread about to install the block
  it reserved, or the log of ids already handed out.\<close>

datatype owner = InCache nat | InFlight nat nat | HandedOut

fun owned :: "'db seq_world \<Rightarrow> string \<Rightarrow> owner \<Rightarrow> int set" where
  "owned w s (InCache r) =
     (case w_caches w r s of None \<Rightarrow> {} | Some e \<Rightarrow> {bl_next (ss_block e)..<bl_end (ss_block e)})"
| "owned w s (InFlight r t) =
     (case w_phase w r t of
        Reserved s' (Ok (start, sz)) \<Rightarrow> if s' = s then {start..<start + sz} else {}
      | _ \<Rightarrow> {})"
| "owned w s HandedOut = {i. (s, i) \<in> set (w_log w)}"

definition exclusive :: "'db seq_world \<Rightarrow> bool" where
  "exclusive w \<longleftrightarrow> distinct (w_log w) \<and> (\<forall>s. disjoint_family (owned w s))"

lemma exclusive_keep:
  assumes "exclusive w" and "w_log w' = w_log w" and "\<And>s k. owned w' s k \<subseteq> owned w s k"
  shows "exclusive w'"
  using assms unfolding exclusive_def disjoint_family_on_def by (simp, blast)

lemma exclusive_fresh_log:
  assumes "exclusive w" and "i \<in> owned w s k" and "k \<noteq> HandedOut"
  shows "(s, i) \<notin> set (w_log w)"
proof
  assume "(s, i) \<in> set (w_log w)"
  then have "i \<in> owned w s HandedOut" by simp
  moreover have "owned w s k \<inter> owned w s HandedOut = {}"
    using assms(1,3) unfolding exclusive_def disjoint_family_on_def by blast
  ultimately show False using assms(2) by blast
qed

lemma disjoint_family_iff: "disjoint_family F \<longleftrightarrow> (\<forall>x y. x \<noteq> y \<longrightarrow> F x \<inter> F y = {})"
  by (auto simp: disjoint_family_on_def)

lemma disjoint_family_move:
  fixes F G :: "'o \<Rightarrow> 'x set"
  assumes disj: "disjoint_family F" and c: "c \<noteq> a" "c \<noteq> b"
    and i: "i \<in> F a \<union> F b" and Gc: "G c = insert i (F c)"
    and two: "G a \<union> G b \<subseteq> F a \<union> F b - {i}" and apart: "a \<noteq> b \<Longrightarrow> G a \<inter> G b = {}"
    and other: "\<And>k. k \<notin> {a, b, c} \<Longrightarrow> G k \<subseteq> F k"
  shows "disjoint_family G"
proof -
  have F: "F x \<inter> F y = {}" if "x \<noteq> y" for x y using disj that by (simp add: disjoint_family_iff)
  have c_apart: "G c \<inter> G k = {}" if "k \<noteq> c" for k
  proof (cases "k = a \<or> k = b")
    case True
    then have "G k \<subseteq> F a \<union> F b - {i}" using two by blast
    then show ?thesis using Gc F [OF c(1)] F [OF c(2)] by blast
  next
    case False
    then have "G k \<subseteq> F k" using other that by simp
    moreover have "F k \<inter> F a = {}" "F k \<inter> F b = {}" "F k \<inter> F c = {}"
      using F [of k a] F [of k b] F [of k c] False that by simp_all
    moreover from this have "i \<notin> F k" using i by auto
    ultimately show ?thesis unfolding Gc by auto
  qed
  have ab_apart: "(G a \<union> G b) \<inter> G k = {}" if "k \<notin> {a, b, c}" for k
  proof -
    have "G k \<subseteq> F k" using other that by simp
    moreover have "F k \<inter> F a = {}" "F k \<inter> F b = {}" using F [of k a] F [of k b] that by simp_all
    ultimately show ?thesis using two by blast
  qed
  have "G x \<inter> G y = {}" if xy: "x \<noteq> y" for x y
  proof (cases "x = c \<or> y = c")
    case True
    then show ?thesis using c_apart [of x] c_apart [of y] xy by auto
  next
    case no_c: False
    show ?thesis
    proof (cases "x \<in> {a, b}"; cases "y \<in> {a, b}")
      assume "x \<in> {a, b}" "y \<in> {a, b}"
      then show ?thesis using apart xy by auto
    next
      assume "x \<in> {a, b}" "y \<notin> {a, b}"
      then show ?thesis using ab_apart [of y] no_c by auto
    next
      assume "x \<notin> {a, b}" "y \<in> {a, b}"
      then show ?thesis using ab_apart [of x] no_c by auto
    next
      assume "x \<notin> {a, b}" "y \<notin> {a, b}"
      then show ?thesis using other [of x] other [of y] F [OF xy] no_c by blast
    qed
  qed
  then show ?thesis by (simp add: disjoint_family_iff)
qed

text \<open>Handing out one id of a sequence, from a router's block or from the block a thread holds.\<close>

lemma exclusive_hand_out:
  assumes ex: "exclusive w" and log: "w_log w' = w_log w @ [(s, i)]"
    and i: "i \<in> owned w s (InCache r) \<union> owned w s (InFlight r t)"
    and other_seq: "\<And>s' k. s' \<noteq> s \<Longrightarrow> owned w' s' k \<subseteq> owned w s' k"
    and other_owner: "\<And>k. k \<notin> {InCache r, InFlight r t, HandedOut} \<Longrightarrow> owned w' s k \<subseteq> owned w s k"
    and two: "owned w' s (InCache r) \<union> owned w' s (InFlight r t)
      \<subseteq> owned w s (InCache r) \<union> owned w s (InFlight r t) - {i}"
    and apart: "owned w' s (InCache r) \<inter> owned w' s (InFlight r t) = {}"
  shows "exclusive w'"
proof -
  have d: "disjoint_family (owned w s)" using ex by (simp add: exclusive_def)
  have ho: "owned w' s HandedOut = insert i (owned w s HandedOut)" using log by auto
  have "disjoint_family (owned w' s)"
    by (rule disjoint_family_move [OF d _ _ i ho two apart other_owner]) simp_all
  moreover have "disjoint_family (owned w' s')" if "s' \<noteq> s" for s'
    using ex other_seq [OF that] unfolding exclusive_def disjoint_family_iff by blast
  moreover have "(s, i) \<notin> set (w_log w)" using i exclusive_fresh_log [OF ex] by blast
  then have "distinct (w_log w')" using ex log by (simp add: exclusive_def)
  ultimately show ?thesis unfolding exclusive_def by metis
qed

text \<open>A fresh block in the hands of a thread that held none.\<close>

lemma exclusive_fresh_block:
  assumes ex: "exclusive w" and log: "w_log w' = w_log w"
    and same: "\<And>s' k. (s', k) \<noteq> (s, InFlight r t) \<Longrightarrow> owned w' s' k \<subseteq> owned w s' k"
    and fresh: "\<And>k. owned w' s (InFlight r t) \<inter> owned w s k = {}"
  shows "exclusive w'"
proof -
  have disj: "owned w s' k \<inter> owned w s' k' = {}" if "k \<noteq> k'" for s' k k'
    using ex that unfolding exclusive_def disjoint_family_on_def by blast
  have "owned w' s' k \<inter> owned w' s' k' = {}" if "k \<noteq> k'" for s' k k'
  proof (cases "s' = s \<and> (k = InFlight r t \<or> k' = InFlight r t)")
    case True
    then show ?thesis using fresh same [of s k] same [of s k'] that by blast
  next
    case False
    then show ?thesis using same [of s' k] same [of s' k'] disj [OF that, of s'] by blast
  qed
  then show ?thesis using ex log unfolding exclusive_def disjoint_family_on_def by simp
qed

subsection \<open>The atomic sections\<close>

lemma owned_frame:
  "(case k of InCache r \<Rightarrow> w_caches w' r s = w_caches w r s
    | InFlight r t \<Rightarrow> w_phase w' r t = w_phase w r t
    | HandedOut \<Rightarrow> w_log w' = w_log w) \<Longrightarrow> owned w' s k = owned w s k"
  by (cases k) simp_all

lemma block_take_Some:
  "block_take b = (b', Some i) \<longleftrightarrow> bl_next b < bl_end b \<and> i = bl_next b \<and> b' = b\<lparr>bl_next := bl_next b + 1\<rparr>"
  by (auto simp: block_take_def)

lemma block_take_None: "block_take b = (b', None) \<longleftrightarrow> bl_end b \<le> bl_next b \<and> b' = b"
  by (auto simp: block_take_def)

lemma next_id_enter_cases:
  obtains (got) e where "c s = Some e" "bl_next (ss_block e) < bl_end (ss_block e)"
      "next_id_enter s c = (c(s \<mapsto> e\<lparr>ss_block := (ss_block e)\<lparr>bl_next := bl_next (ss_block e) + 1\<rparr>\<rparr>),
         Got (bl_next (ss_block e)))"
  | (wait) e where "c s = Some e" "bl_end (ss_block e) \<le> bl_next (ss_block e)" "ss_reserving e"
      "next_id_enter s c = (c, MustWait)"
  | (claim) e where "c s = Some e" "bl_end (ss_block e) \<le> bl_next (ss_block e)" "\<not> ss_reserving e"
      "next_id_enter s c = (c(s \<mapsto> e\<lparr>ss_reserving := True\<rparr>), Claimed)"
  | (first) "c s = None"
      "next_id_enter s c =
         (c(s \<mapsto> \<lparr>ss_block = block_empty, ss_refill_at = 0, ss_reserving = True\<rparr>), Claimed)"
proof (cases "c s")
  case None
  then show thesis using first by (simp add: next_id_enter_def)
next
  case (Some e)
  then show thesis
    using got wait claim by (cases "bl_next (ss_block e) < bl_end (ss_block e)"; cases "ss_reserving e")
      (auto simp: next_id_enter_def block_take_def)
qed

lemma next_id_finish_cases:
  assumes "next_id_finish s result c = Some (c', out)"
  obtains (failed) e err where "c s = Some e" "out = Err err" "c' = c(s \<mapsto> e\<lparr>ss_reserving := False\<rparr>)"
  | (installed) e start sz where "c s = Some e" "result = Ok (start, sz)" "0 < sz" "in_i64 (start + sz)"
      "out = Ok start"
      "c' = c(s \<mapsto> \<lparr>ss_block = \<lparr>bl_next = start + 1, bl_end = start + sz\<rparr>,
                   ss_refill_at = max (sz div 5) 1, ss_reserving = False\<rparr>)"
proof -
  obtain e where e: "c s = Some e" using assms by (auto simp: next_id_finish_def split: option.splits)
  show thesis
  proof (cases result)
    case (Inl err)
    then show thesis using assms e failed by (auto simp: next_id_finish_def Let_def)
  next
    case (Inr g)
    obtain start sz where g: "g = (start, sz)" by fastforce
    show thesis
    proof (cases "0 < sz \<and> in_i64 (start + sz)")
      case True
      then show thesis
        using assms e Inr g installed [of e start sz]
        by (cases e) (auto simp: next_id_finish_def Let_def block_new_def checked_add_def block_take_def)
    next
      case False
      then show thesis
        using assms e Inr g failed
        by (auto simp: next_id_finish_def Let_def block_new_def checked_add_def split: if_splits)
    qed
  qed
qed

lemma enter_world_exclusive:
  assumes ex: "exclusive w" and idle: "w_phase w r t = Idle \<or> w_phase w r t = Waiting s n"
  shows "exclusive (enter_world r t s w) \<and> (\<forall>s' k. owned (enter_world r t s w) s' k \<subseteq>
     owned w s' k \<union> (if k = HandedOut then owned w s' (InCache r) else {}))"
proof -
  let ?w' = "enter_world r t s w"
  have none: "owned w s' (InFlight r t) = {}" for s' using idle by auto
  show ?thesis
  proof (cases rule: next_id_enter_cases [of "w_caches w r" s])
    case (got e)
    let ?i = "bl_next (ss_block e)"
    have log: "w_log ?w' = w_log w @ [(s, ?i)]" using got by (simp add: enter_world_def)
    have flight: "owned ?w' s' (InFlight r t) = {}" for s' using got by (simp add: enter_world_def)
    have cache: "owned ?w' s (InCache r) = owned w s (InCache r) - {?i}"
      and i: "?i \<in> owned w s (InCache r)"
      using got by (auto simp: enter_world_def)
    have other: "owned ?w' s' k \<subseteq> owned w s' k"
      if "s' \<noteq> s \<or> k \<notin> {InCache r, InFlight r t, HandedOut}" for s' k
      using that got flight none by (cases k) (auto simp: enter_world_def)
    have "exclusive ?w'"
      by (rule exclusive_hand_out [OF ex log, of r t]) (use i other cache none flight in auto)
    moreover have "owned ?w' s' k \<subseteq> owned w s' k \<union> (if k = HandedOut then owned w s' (InCache r) else {})"
      for s' k
    proof (cases "s' \<noteq> s \<or> k \<notin> {InCache r, InFlight r t, HandedOut}")
      case True
      then show ?thesis using other [of s' k] by blast
    next
      case False
      moreover have "owned ?w' s HandedOut = insert ?i (owned w s HandedOut)" using log by auto
      ultimately show ?thesis using cache i flight by (auto simp del: owned.simps)
    qed
    ultimately show ?thesis by blast
  next
    case (wait e)
    then have "owned ?w' s' k \<subseteq> owned w s' k" for s' k
      by (cases k) (auto simp: enter_world_def)
    then show ?thesis using ex wait by (intro conjI exclusive_keep [OF ex]) (auto simp: enter_world_def)
  next
    case (claim e)
    then have "owned ?w' s' k \<subseteq> owned w s' k" for s' k
      by (cases k) (auto simp: enter_world_def)
    then show ?thesis using ex claim by (intro conjI exclusive_keep [OF ex]) (auto simp: enter_world_def)
  next
    case first
    then have "owned ?w' s' k \<subseteq> owned w s' k" for s' k
      by (cases k) (auto simp: enter_world_def block_empty_def)
    then show ?thesis using ex first by (intro conjI exclusive_keep [OF ex]) (auto simp: enter_world_def)
  qed
qed

subsection \<open>Under the contract no id is handed out twice\<close>

lemma notify_all_Reserved [simp]: "notify_all ph t = Reserved s x \<longleftrightarrow> ph t = Reserved s x"
  by (simp add: notify_all_def split: seq_phase.splits)

lemma notify_all_Reserving [simp]: "notify_all ph t = Reserving s \<longleftrightarrow> ph t = Reserving s"
  by (simp add: notify_all_def split: seq_phase.splits)

lemma owned_notified:
  assumes "w_phase w' r = (notify_all (w_phase w r))(t := Idle)"
  shows "owned w' s (InFlight r t') = (if t' = t then {} else owned w s (InFlight r t'))"
  using assms by (auto simp: notify_all_def split: seq_phase.splits)

lemma finish_exclusive:
  assumes ex: "exclusive w" and ph: "w_phase w r t = Reserved s result"
    and fin: "next_id_finish s result (w_caches w r) = Some (cache, out)"
    and w': "w' = w\<lparr>w_caches := (w_caches w)(r := cache),
      w_phase := (w_phase w)(r := (notify_all (w_phase w r))(t := Idle)), w_log := w_log w @ handed s out\<rparr>"
  shows "exclusive w' \<and> (\<forall>s' k. owned w' s' k \<subseteq> (\<Union>k. owned w s' k))"
proof -
  have flight: "owned w' s' (InFlight r t') = (if t' = t then {} else owned w s' (InFlight r t'))" for s' t'
    by (rule owned_notified) (simp add: w')
  have far: "owned w' s' (InFlight r' t') = owned w s' (InFlight r' t')"
      "owned w' s' (InCache r') = owned w s' (InCache r')" if "r' \<noteq> r" for s' r' t'
    using that by (simp_all add: w')
  have other_seq: "owned w' s' (InCache r) = owned w s' (InCache r)" if "s' \<noteq> s" for s'
    using fin that by (cases rule: next_id_finish_cases) (auto simp: w')
  from fin show ?thesis
  proof (cases rule: next_id_finish_cases)
    case (failed e err)
    have "owned w' s' k \<subseteq> owned w s' k" for s' k
    proof (cases k)
      case (InCache r')
      then show ?thesis using far(2) [of r' s'] failed by (cases "r' = r") (auto simp: w')
    next
      case (InFlight r' t')
      then show ?thesis using far(1) [of r' s' t'] flight [of s' t'] by (cases "r' = r") auto
    next
      case HandedOut
      then show ?thesis using failed by (simp add: w' handed_def)
    qed
    moreover have "w_log w' = w_log w" using failed by (simp add: w' handed_def)
    ultimately show ?thesis using exclusive_keep [OF ex] by blast
  next
    case (installed e start sz)
    have log: "w_log w' = w_log w @ [(s, start)]" using installed by (simp add: w' handed_def)
    have old: "owned w s (InFlight r t) = {start..<start + sz}" using ph installed by simp
    have new: "owned w' s (InCache r) = {start + 1..<start + sz}" using installed by (simp add: w')
    have i: "start \<in> owned w s (InCache r) \<union> owned w s (InFlight r t)" using old installed by simp
    have keep: "owned w' s' k \<subseteq> owned w s' k"
      if "s' \<noteq> s \<and> k \<noteq> HandedOut \<or> k \<notin> {InCache r, InFlight r t, HandedOut}" for s' k
    proof (cases k)
      case (InCache r')
      then show ?thesis using that far(2) [of r' s'] other_seq [of s'] by (cases "r' = r") auto
    next
      case (InFlight r' t')
      then show ?thesis using that far(1) [of r' s' t'] flight [of s' t'] by (cases "r' = r") auto
    qed (use that in simp)
    have ho: "owned w' s' HandedOut \<subseteq> owned w s' HandedOut \<union> (if s' = s then {start} else {})" for s'
      using log by auto
    have "exclusive w'"
    proof (rule exclusive_hand_out [OF ex log i])
      show "owned w' s' k \<subseteq> owned w s' k" if "s' \<noteq> s" for s' k
        using that keep [of s' k] ho [of s'] by (cases "k = HandedOut") auto
    next
      show "owned w' s (InCache r) \<union> owned w' s (InFlight r t)
          \<subseteq> owned w s (InCache r) \<union> owned w s (InFlight r t) - {start}"
        unfolding new old flight by auto
    next
      show "owned w' s (InCache r) \<inter> owned w' s (InFlight r t) = {}" unfolding flight by simp
    qed (use keep in blast)
    moreover have "owned w' s' k \<subseteq> (\<Union>k. owned w s' k)" for s' k
    proof -
      have "owned w' s (InCache r) \<subseteq> owned w s (InFlight r t)" unfolding new old by auto
      moreover have "owned w' s' HandedOut \<subseteq> owned w s' HandedOut \<union> (if s' = s then owned w s (InFlight r t) else {})"
        using ho [of s'] old installed by (auto split: if_splits)
      moreover have "owned w' s' (InFlight r t) = {}" using flight by simp
      ultimately show ?thesis
        using keep [of s' k] by (cases "s' = s"; cases "k \<in> {InCache r, InFlight r t, HandedOut}";
            (auto simp del: owned.simps split: if_splits; blast))
    qed
    ultimately show ?thesis by blast
  qed
qed

context block_reserver
begin

definition safe_world :: "'db seq_world \<Rightarrow> bool" where
  "safe_world w \<longleftrightarrow> store_ok (w_db w) \<and> exclusive w \<and> (\<forall>s k. owned w s k \<subseteq> granted (w_db w) s)"

lemma safe_world_enter:
  assumes "safe_world w" and "w_phase w r t = Idle \<or> w_phase w r t = Waiting s n"
  shows "safe_world (enter_world r t s w)"
proof -
  have "w_db (enter_world r t s w) = w_db w" by (simp add: enter_world_def split_beta Let_def)
  moreover have "owned (enter_world r t s w) s' k \<subseteq> granted (w_db w) s'" for s' k
    using enter_world_exclusive [OF _ assms(2)] assms(1) unfolding safe_world_def
    by (cases "k = HandedOut") (fastforce simp del: owned.simps)+
  ultimately show ?thesis
    using enter_world_exclusive [OF _ assms(2)] assms(1) unfolding safe_world_def by simp
qed

lemma safe_world_reserve:
  assumes safe: "safe_world w" and ph: "w_phase w r t = Reserving s"
    and res: "reserve s (w_db w) db' result"
    and w': "w' = w\<lparr>w_db := db', w_phase := (w_phase w)(r := (w_phase w r)(t := Reserved s result))\<rparr>"
  shows "safe_world w'"
proof -
  have ok: "store_ok (w_db w)" and ex: "exclusive w" and gr: "\<And>s k. owned w s k \<subseteq> granted (w_db w) s"
    using safe by (auto simp: safe_world_def)
  have same: "owned w' s' k = owned w s' k" if "(s', k) \<noteq> (s, InFlight r t)" for s' k
    using that ph by (cases k) (auto simp: w' split: sum.splits)
  have new: "owned w' s (InFlight r t) \<inter> granted (w_db w) s = {} \<and> owned w' s (InFlight r t) \<subseteq> granted db' s"
  proof (cases result)
    case (Inr g)
    obtain start sz where "g = (start, sz)" by fastforce
    then show ?thesis using Inr res reserve_fresh reserve_granted ok by (simp add: w')
  qed (simp add: w')
  have "exclusive w'"
  proof (rule exclusive_fresh_block [OF ex])
    show "w_log w' = w_log w" by (simp add: w')
    show "owned w' s' k \<subseteq> owned w s' k" if "(s', k) \<noteq> (s, InFlight r t)" for s' k
      using same [OF that] by simp
    show "owned w' s (InFlight r t) \<inter> owned w s k = {}" for k using new gr [of s k] by blast
  qed
  moreover have "owned w' s' k \<subseteq> granted db' s'" for s' k
    using same [of s' k] gr [of s' k] new reserve_keeps [OF res ok, of s']
    by (cases "(s', k) = (s, InFlight r t)") auto
  ultimately show ?thesis using reserve_ok [OF res ok] by (simp add: safe_world_def w')
qed

lemma safe_world_less:
  assumes "safe_world w" and "store_ok (w_db w')" and "\<And>s. granted (w_db w) s \<subseteq> granted (w_db w') s"
    and "w_log w' = w_log w" and "\<And>s k. owned w' s k \<subseteq> owned w s k"
  shows "safe_world w'"
  using assms exclusive_keep [of w w'] unfolding safe_world_def by blast

lemma safe_world_step: "seq_step reserve admin w w' \<Longrightarrow> safe_world w \<Longrightarrow> safe_world w'"
proof (induction rule: seq_step.induct)
  case (seq_call w r t s)
  then show ?case using safe_world_enter by blast
next
  case (seq_wake w r t s notified)
  then show ?case using safe_world_enter by blast
next
  case (seq_reserve w r t s db' result)
  then show ?case using safe_world_reserve by blast
next
  case (seq_panic w r t s db' result)
  let ?w' = "w\<lparr>w_db := db', w_caches := (w_caches w)(r := claim_drop s (w_caches w r)),
      w_phase := (w_phase w)(r := (notify_all (w_phase w r))(t := Idle))\<rparr>"
  have "owned ?w' s' k \<subseteq> owned w s' k" for s' k
    by (cases k) (auto simp: claim_drop_def notify_all_def split: option.splits seq_phase.splits)
  then show ?case
    using seq_panic reserve_ok reserve_keeps by (intro safe_world_less [OF seq_panic.prems]) (auto simp: safe_world_def simp del: owned.simps)
next
  case (seq_finish w r t s result cache out)
  then show ?case using finish_exclusive [OF _ seq_finish.hyps refl] by (fastforce simp: safe_world_def simp del: owned.simps)
next
  case (seq_admin_step w db')
  have "owned (w\<lparr>w_db := db'\<rparr>) s k = owned w s k" for s k by (rule owned_frame) (simp split: owner.splits)
  then show ?case
    using seq_admin_step admin_ok admin_keeps by (intro safe_world_less [OF seq_admin_step.prems]) (auto simp: safe_world_def simp del: owned.simps)
qed

lemma safe_world_start: "store_ok db \<Longrightarrow> safe_world (seq_start db)"
proof -
  assume "store_ok db"
  have "owned (seq_start db) s k = {}" for s k by (cases k) (simp_all add: seq_start_def)
  then show ?thesis using \<open>store_ok db\<close>
    by (simp add: safe_world_def exclusive_def disjoint_family_iff seq_start_def del: owned.simps)
qed

lemma reachable_safe: "seq_reachable reserve admin store_ok w \<Longrightarrow> safe_world w"
  by (induction rule: seq_reachable.induct) (auto intro: safe_world_start safe_world_step)

lemma ids_distinct: "seq_reachable reserve admin store_ok w \<Longrightarrow> distinct (w_log w)"
  using reachable_safe by (simp add: safe_world_def exclusive_def)

lemma reachable_exclusive: "seq_reachable reserve admin store_ok w \<Longrightarrow> exclusive w"
  using reachable_safe by (simp add: safe_world_def)

end

subsection \<open>The PostgreSQL backend meets the contract\<close>

definition table_ok :: "seq_table \<Rightarrow> bool" where
  "table_ok tbl \<longleftrightarrow> (\<forall>s row. tbl s = Some row \<longrightarrow> in_i64 (sr_next_id row) \<and> in_i64 (sr_block_size row))"

definition below_next :: "seq_table \<Rightarrow> string \<Rightarrow> int set" where
  "below_next tbl s = (case tbl s of None \<Rightarrow> {} | Some row \<Rightarrow> {i. i < sr_next_id row})"

lemma reserve_sql_grows:
  assumes "reserve_sql s tbl = (tbl', out)" and "table_ok tbl"
  shows "table_ok tbl' \<and> below_next tbl s' \<subseteq> below_next tbl' s'"
proof (cases "tbl s")
  case None
  then show ?thesis using assms by (simp add: reserve_sql_def)
next
  case (Some row)
  define nx where "nx = sr_next_id row + (if sr_block_size row > 0 then sr_block_size row else 0)"
  have "sr_next_id row \<le> nx" by (simp add: nx_def)
  moreover have "tbl' = tbl \<or> in_i64 nx \<and> tbl' = tbl(s \<mapsto> row\<lparr>sr_next_id := nx\<rparr>)"
    using assms(1) Some unfolding nx_def by (auto simp: reserve_sql_def Let_def split: if_splits)
  ultimately show ?thesis
    using assms(2) Some by (auto simp: table_ok_def below_next_def split: option.splits if_splits)
qed

lemma reserve_sql_grants:
  assumes "reserve_sql s tbl = (tbl', Ok (Some (next, sz)))" and "0 < sz" and "table_ok tbl"
  obtains row where "tbl s = Some row" "sr_next_id row = next - sz" "sr_block_size row = sz"
    "in_i64 (next - sz)" "in_i64 next" "tbl' = tbl(s \<mapsto> row\<lparr>sr_next_id := next\<rparr>)"
proof -
  from assms(1) obtain row where row: "tbl s = Some row" by (auto simp: reserve_sql_def split: option.splits)
  then have "sr_block_size row = sz" "next = sr_next_id row + sz" "in_i64 next"
      "tbl' = tbl(s \<mapsto> row\<lparr>sr_next_id := next\<rparr>)"
    using assms(1,2) by (auto simp: reserve_sql_def Let_def split: if_splits)
  then show thesis using that [OF row] row assms(3) by (auto simp: table_ok_def)
qed

lemma pg_reserves_Ok:
  assumes "pg_reserves s tbl tbl' (Ok (start, sz))"
  shows "0 < sz \<and> reserve_sql s tbl = (tbl', Ok (Some (start + sz, sz)))"
  using assms
proof (cases rule: pg_reserves.cases)
  case (replied out client)
  then show ?thesis by (auto simp: pg_reserve_def split: sum.splits option.splits if_splits)
qed (auto simp: pg_reserve_def split: if_splits)

interpretation pg: block_reserver pg_reserves seq_admin table_ok below_next
proof unfold_locales
  fix s db db' result s'
  assume r: "pg_reserves s db db' result" and ok: "table_ok db"
  from r have "db' = db \<or> (\<exists>out. reserve_sql s db = (db', out))" by cases auto
  then show "table_ok db'" and "below_next db s' \<subseteq> below_next db' s'"
    using reserve_sql_grows ok by blast+
next
  fix db db' s'
  assume "seq_admin db db'" and "table_ok db"
  then show "table_ok db'" and "below_next db s' \<subseteq> below_next db' s'"
    by (cases; auto simp: table_ok_def below_next_def)+
next
  fix s db db' start sz
  assume r: "pg_reserves s db db' (Ok (start, sz))" and ok: "table_ok db"
  obtain row where row: "db s = Some row" "sr_next_id row = start" "in_i64 start" "in_i64 (start + sz)"
      "db' = db(s \<mapsto> row\<lparr>sr_next_id := start + sz\<rparr>)" "0 < sz"
    using pg_reserves_Ok [OF r] reserve_sql_grants [OF _ _ ok] by (metis add_diff_cancel_right')
  then show "0 < sz \<and> in_i64 start \<and> in_i64 (start + sz)"
    and "{start..<start + sz} \<inter> below_next db s = {}" and "{start..<start + sz} \<subseteq> below_next db' s"
    by (auto simp: below_next_def)
qed

section \<open>Single flight\<close>

definition claims :: "'db seq_world \<Rightarrow> nat \<Rightarrow> string \<Rightarrow> nat \<Rightarrow> bool" where
  "claims w r s t \<longleftrightarrow> w_phase w r t = Reserving s \<or> (\<exists>x. w_phase w r t = Reserved s x)"

text \<open>A sequence is marked as being reserved exactly while one thread holds the claim, its block is
  drained then, and whoever waits without having been notified waits for a claim that is held.\<close>

definition flight_ok :: "'db seq_world \<Rightarrow> nat \<Rightarrow> string \<Rightarrow> bool" where
  "flight_ok w r s \<longleftrightarrow>
     (\<forall>t t'. claims w r s t \<longrightarrow> claims w r s t' \<longrightarrow> t = t')
     \<and> ((\<exists>t. claims w r s t) \<longleftrightarrow> (\<exists>e. w_caches w r s = Some e \<and> ss_reserving e))
     \<and> (\<forall>e. w_caches w r s = Some e \<longrightarrow> ss_reserving e \<longrightarrow> bl_end (ss_block e) \<le> bl_next (ss_block e))
     \<and> (\<forall>t. w_phase w r t = Waiting s False \<longrightarrow> (\<exists>e. w_caches w r s = Some e \<and> ss_reserving e))"

lemma flight_ok_frame:
  assumes "flight_ok w r s" and "w_caches w' r s = w_caches w r s"
    and "\<And>t. claims w' r s t = claims w r s t"
    and "\<And>t. w_phase w' r t = Waiting s False \<Longrightarrow> w_phase w r t = Waiting s False"
  shows "flight_ok w' r s"
  using assms(1,4) unfolding flight_ok_def assms(2,3) by blast

lemma flight_ok_enter:
  assumes all: "\<forall>r s. flight_ok w r s" and idle: "w_phase w r t = Idle \<or> w_phase w r t = Waiting s n"
  shows "flight_ok (enter_world r t s w) r' s'"
proof (cases "r' = r \<and> s' = s")
  case False
  have fl: "flight_ok w r' s'" using all by blast
  show ?thesis
    by (cases rule: next_id_enter_cases [of "w_caches w r" s]; rule flight_ok_frame [OF fl])
      (use False idle in \<open>auto simp: enter_world_def claims_def split: if_splits\<close>)
next
  case True
  have fl: "flight_ok w r s" using all by blast
  have no: "\<not> claims w r s t" using idle by (auto simp: claims_def)
  have claims': "claims (enter_world r t s w) r s t' =
      (t' = t \<and> snd (next_id_enter s (w_caches w r)) = Claimed \<or> claims w r s t')" for t'
    using idle by (auto simp: enter_world_def claims_def split_beta Let_def split: entered.splits)
  have phase: "w_phase (enter_world r t s w) r t' = Waiting s False \<longleftrightarrow>
      (if t' = t then snd (next_id_enter s (w_caches w r)) = MustWait else w_phase w r t' = Waiting s False)" for t'
    by (auto simp: enter_world_def split_beta Let_def split: entered.splits)
  have cache: "w_caches (enter_world r t s w) r = fst (next_id_enter s (w_caches w r))"
    by (simp add: enter_world_def split_beta Let_def)
  show ?thesis unfolding True [THEN conjunct1] True [THEN conjunct2]
    by (cases rule: next_id_enter_cases [of "w_caches w r" s])
      (use fl no in \<open>auto simp: flight_ok_def claims' phase cache block_empty_def split: if_splits\<close>)
qed

lemma flight_ok_release:
  assumes fl: "flight_ok w r' s'" and one: "\<forall>t t'. claims w r s t \<longrightarrow> claims w r s t' \<longrightarrow> t = t'"
    and cl: "claims w r s t"
    and caches: "\<And>r' s'. (r', s') \<noteq> (r, s) \<Longrightarrow> w_caches w' r' s' = w_caches w r' s'"
      "\<exists>e. w_caches w' r s = Some e \<and> \<not> ss_reserving e"
    and phase: "w_phase w' = (w_phase w)(r := (notify_all (w_phase w r))(t := Idle))"
  shows "flight_ok w' r' s'"
proof -
  have claims': "claims w' r' s' t' \<longleftrightarrow> claims w r' s' t' \<and> (r', t') \<noteq> (r, t)" for r' s' t'
    by (auto simp: claims_def phase)
  have waits: "w_phase w r' t' = Waiting s' False \<and> r' \<noteq> r"
    if "w_phase w' r' t' = Waiting s' False" for r' s' t'
    using that by (auto simp: phase notify_all_def split: seq_phase.splits if_splits)
  show ?thesis
  proof (cases "(r', s') = (r, s)")
    case True
    have "\<not> claims w' r s t'" for t' using one cl claims' by blast
    moreover have "w_phase w' r t' \<noteq> Waiting s False" for t' using waits by blast
    ultimately show ?thesis using True caches(2) by (auto simp: flight_ok_def)
  next
    case False
    have "claims w' r' s' t' = claims w r' s' t'" for t'
      using claims' [of r' s' t'] False cl by (auto simp: claims_def)
    then show ?thesis by (rule flight_ok_frame [OF fl caches(1) [OF False]]) (simp add: waits)
  qed
qed

lemma next_id_finish_cache:
  assumes "next_id_finish s result c = Some (c', out)"
  shows "(\<exists>e. c' s = Some e \<and> \<not> ss_reserving e) \<and> (\<forall>s'. s' \<noteq> s \<longrightarrow> c' s' = c s')"
  using assms by (cases rule: next_id_finish_cases) auto

lemma flight_ok_reserve:
  assumes "w_phase w r t = Reserving s" and "flight_ok w r' s'"
  shows "flight_ok (w\<lparr>w_db := db', w_phase := (w_phase w)(r := (w_phase w r)(t := Reserved s result))\<rparr>) r' s'"
  by (rule flight_ok_frame [OF assms(2)]) (use assms(1) in \<open>auto simp: claims_def split: if_splits\<close>)

lemma flight_ok_step:
  assumes "seq_step reserve admin w w'" and "\<forall>r s. flight_ok w r s"
  shows "flight_ok w' r' s'"
  using assms
proof (induction rule: seq_step.induct)
  case (seq_call w r t s)
  show ?case by (rule flight_ok_enter [OF seq_call.prems]) (simp add: seq_call)
next
  case (seq_wake w r t s notified)
  show ?case by (rule flight_ok_enter [OF seq_wake.prems]) (simp add: seq_wake)
next
  case (seq_reserve w r t s db' result)
  show ?case by (rule flight_ok_reserve) (use seq_reserve in simp_all)
next
  case (seq_panic w r t s db' result)
  have fl: "flight_ok w r s" using seq_panic.prems by simp
  have cl: "claims w r s t" using seq_panic by (simp add: claims_def)
  obtain e where e: "w_caches w r s = Some e" using fl cl unfolding flight_ok_def by blast
  show ?case
  proof (rule flight_ok_release [OF _ _ cl])
    show "flight_ok w r' s'" using seq_panic.prems by simp
    show "\<forall>t t'. claims w r s t \<longrightarrow> claims w r s t' \<longrightarrow> t = t'" using fl unfolding flight_ok_def by blast
  qed (auto simp: claim_drop_def e)
next
  case (seq_finish w r t s result cache out)
  have fl: "flight_ok w r s" using seq_finish.prems by simp
  have cl: "claims w r s t" using seq_finish by (simp add: claims_def)
  show ?case
  proof (rule flight_ok_release [OF _ _ cl])
    show "flight_ok w r' s'" using seq_finish.prems by simp
    show "\<forall>t t'. claims w r s t \<longrightarrow> claims w r s t' \<longrightarrow> t = t'" using fl unfolding flight_ok_def by blast
  qed (use next_id_finish_cache [OF seq_finish.hyps(2)] in auto)
next
  case (seq_admin_step w db')
  show ?case by (rule flight_ok_frame [of w]) (use seq_admin_step in \<open>simp_all add: claims_def\<close>)
qed

lemma reachable_flight: "seq_reachable reserve admin init w \<Longrightarrow> flight_ok w r s"
proof (induction arbitrary: r s rule: seq_reachable.induct)
  case (seq_init db)
  then show ?case by (simp add: flight_ok_def seq_start_def claims_def)
next
  case (seq_next w w')
  then show ?case using flight_ok_step by blast
qed

section \<open>A run for the witnesses\<close>

text \<open>Two routers: the first reserves a block and hands out two ids, a thread of the second claims
  the next reservation and another one waits for it.\<close>

definition demo_table :: seq_table where
  "demo_table = [''ids'' \<mapsto> \<lparr>sr_next_id = 10, sr_block_size = 3\<rparr>]"

definition demo_reserved :: "seq_table seq_world" where
  "demo_reserved = (enter_world 0 0 ''ids'' (seq_start demo_table))
     \<lparr>w_db := [''ids'' \<mapsto> \<lparr>sr_next_id = 13, sr_block_size = 3\<rparr>],
      w_phase := (\<lambda>r t. if r = 0 \<and> t = 0 then Reserved ''ids'' (Ok (10, 3)) else Idle)\<rparr>"

definition demo_run :: "seq_table seq_world" where
  "demo_run = enter_world 1 1 ''ids'' (enter_world 1 0 ''ids'' (enter_world 0 0 ''ids''
     (demo_reserved\<lparr>
        w_caches := (\<lambda>r. if r = 0 then [''ids'' \<mapsto> \<lparr>ss_block = \<lparr>bl_next = 11, bl_end = 13\<rparr>,
          ss_refill_at = 1, ss_reserving = False\<rparr>] else Map.empty),
        w_phase := (\<lambda>_ _. Idle), w_log := [(''ids'', 10)]\<rparr>)))"

lemma demo_reserved_reachable: "seq_reachable pg_reserves seq_admin table_ok demo_reserved"
proof -
  let ?w0 = "seq_start demo_table" and ?w1 = "enter_world 0 0 ''ids'' (seq_start demo_table)"
  have "seq_reachable pg_reserves seq_admin table_ok ?w0"
    by (rule seq_init) (simp add: table_ok_def demo_table_def in_i64_def)
  then have w1: "seq_reachable pg_reserves seq_admin table_ok ?w1"
    by (rule seq_next) (rule seq_call, simp add: seq_start_def)
  have "pg_reserves ''ids'' demo_table [''ids'' \<mapsto> \<lparr>sr_next_id = 13, sr_block_size = 3\<rparr>]
      (snd (pg_reserve True (Ok ()) (Ok (Some (13, 3))) ''ids''))"
    by (rule replied) (simp add: reserve_sql_def demo_table_def in_i64_def)
  then have res: "pg_reserves ''ids'' (w_db ?w1) [''ids'' \<mapsto> \<lparr>sr_next_id = 13, sr_block_size = 3\<rparr>] (Ok (10, 3))"
    by (simp add: pg_reserve_def enter_world_def next_id_enter_def seq_start_def)
  have ph: "w_phase ?w1 0 0 = Reserving ''ids''"
    by (simp add: enter_world_def next_id_enter_def seq_start_def)
  have "demo_reserved = ?w1\<lparr>w_db := [''ids'' \<mapsto> \<lparr>sr_next_id = 13, sr_block_size = 3\<rparr>],
      w_phase := (w_phase ?w1)(0 := (w_phase ?w1 0)(0 := Reserved ''ids'' (Ok (10, 3))))\<rparr>"
    by (simp add: demo_reserved_def enter_world_def next_id_enter_def seq_start_def fun_eq_iff)
  then show ?thesis using seq_next [OF w1 seq_reserve [where reserve = pg_reserves, OF ph res]] by simp
qed

lemma demo_run_reachable: "seq_reachable pg_reserves seq_admin table_ok demo_run"
proof -
  let ?w3 = "demo_reserved\<lparr>
        w_caches := (\<lambda>r. if r = 0 then [''ids'' \<mapsto> \<lparr>ss_block = \<lparr>bl_next = 11, bl_end = 13\<rparr>,
          ss_refill_at = 1, ss_reserving = False\<rparr>] else Map.empty),
        w_phase := (\<lambda>_ _. Idle), w_log := [(''ids'', 10)]\<rparr>"
  let ?c = "[''ids'' \<mapsto> \<lparr>ss_block = \<lparr>bl_next = 11, bl_end = 13\<rparr>, ss_refill_at = 1, ss_reserving = False\<rparr>]"
  have ph: "w_phase demo_reserved 0 0 = Reserved ''ids'' (Ok (10, 3))" by (simp add: demo_reserved_def)
  have fin: "next_id_finish ''ids'' (Ok (10, 3)) (w_caches demo_reserved 0) = Some (?c, Ok 10)"
    by (simp add: demo_reserved_def enter_world_def next_id_enter_def seq_start_def next_id_finish_def
        block_new_def checked_add_def in_i64_def block_take_def)
  have "?w3 = demo_reserved\<lparr>w_caches := (w_caches demo_reserved)(0 := ?c),
      w_phase := (w_phase demo_reserved)(0 := (notify_all (w_phase demo_reserved 0))(0 := Idle)),
      w_log := w_log demo_reserved @ handed ''ids'' (Ok 10)\<rparr>"
    by (simp add: demo_reserved_def enter_world_def next_id_enter_def seq_start_def notify_all_def
        handed_def fun_eq_iff)
  then have "seq_reachable pg_reserves seq_admin table_ok ?w3"
    using seq_next [OF demo_reserved_reachable seq_finish [OF ph fin]] by simp
  then show ?thesis unfolding demo_run_def
    by (intro seq_next [OF _ seq_call])
      (simp_all add: demo_reserved_def enter_world_def next_id_enter_def block_take_def)
qed

lemma demo_run_eq:
  "w_log demo_run = [(''ids'', 10), (''ids'', 11)] \<and> w_phase demo_run 1 0 = Reserving ''ids''
   \<and> w_phase demo_run 1 1 = Waiting ''ids'' False"
  by (simp add: demo_run_def demo_reserved_def enter_world_def next_id_enter_def block_take_def
      block_empty_def seq_start_def)

section \<open>Properties\<close>

text \<open>C40: A sequence never repeats an id. However the threads of any number of routers interleave, and
  whichever reservations fail, panic or take effect with their reply lost, all ids handed out for a
  sequence are distinct, and an id still cached by one router is neither handed out nor cached by
  another.\<close>

theorem ids_never_repeat:
  assumes "seq_reachable pg_reserves seq_admin table_ok w"
  shows "distinct (w_log w)
    \<and> (\<forall>r e i s. w_caches w r s = Some e \<and> bl_next (ss_block e) \<le> i \<and> i < bl_end (ss_block e) \<longrightarrow>
         (s, i) \<notin> set (w_log w)
         \<and> (\<forall>r' e'. r' \<noteq> r \<and> w_caches w r' s = Some e' \<longrightarrow>
              \<not> (bl_next (ss_block e') \<le> i \<and> i < bl_end (ss_block e'))))"
proof -
  have ex: "exclusive w" using assms by (rule pg.reachable_exclusive)
  have cached: "i \<in> owned w s (InCache r)"
    if "w_caches w r s = Some e" "bl_next (ss_block e) \<le> i" "i < bl_end (ss_block e)" for r s e i
    using that by simp
  have "(s, i) \<notin> set (w_log w)" if "i \<in> owned w s (InCache r)" for s i r
    using exclusive_fresh_log [OF ex that] by simp
  moreover have "owned w s (InCache r) \<inter> owned w s (InCache r') = {}" if "r' \<noteq> r" for s r r'
    using ex that unfolding exclusive_def disjoint_family_iff by blast
  ultimately show ?thesis using pg.ids_distinct [OF assms] cached by blast
qed

theorem ids_never_repeat_witness:
  "seq_reachable pg_reserves seq_admin table_ok demo_run
   \<and> w_log demo_run = [(''ids'', 10), (''ids'', 11)] \<and> distinct (w_log demo_run)"
  using ids_never_repeat [OF demo_run_reachable] demo_run_reachable demo_run_eq by blast

text \<open>Reservations are single-flighted, for any backend. In every reachable state at most one
  thread of a router is reserving a given sequence; the lookup after the reservation never fails; and
  the cached block is drained while its successor is being reserved, so installing the new block
  discards no id.\<close>

theorem reservation_single_flight:
  assumes "seq_reachable reserve admin init w"
    and "w_phase w r t = Reserving s \<or> w_phase w r t = Reserved s x"
  shows "(\<forall>t' x'. w_phase w r t' = Reserving s \<or> w_phase w r t' = Reserved s x' \<longrightarrow> t' = t)
    \<and> (\<forall>result. next_id_finish s result (w_caches w r) \<noteq> None)
    \<and> (\<exists>e. w_caches w r s = Some e \<and> remaining (ss_block e) = 0)"
proof -
  have fl: "flight_ok w r s" using assms(1) by (rule reachable_flight)
  have cl: "claims w r s t" using assms(2) by (auto simp: claims_def)
  obtain e where e: "w_caches w r s = Some e" "ss_reserving e" "bl_end (ss_block e) \<le> bl_next (ss_block e)"
    using fl cl unfolding flight_ok_def by blast
  have "t' = t" if "w_phase w r t' = Reserving s \<or> w_phase w r t' = Reserved s x'" for t' x'
    using fl cl that unfolding flight_ok_def claims_def by blast
  moreover have "next_id_finish s result (w_caches w r) \<noteq> None" for result
    using e by (simp add: next_id_finish_def Let_def)
  ultimately show ?thesis using e by (auto simp: remaining_def)
qed

theorem reservation_single_flight_witness:
  "w_phase demo_run 1 0 = Reserving ''ids'' \<and>
   (\<exists>e. w_caches demo_run 1 ''ids'' = Some e \<and> remaining (ss_block e) = 0)"
  using reservation_single_flight [OF demo_run_reachable, of 1 0 "''ids''"] demo_run_eq by blast

text \<open>No lost wakeup. A thread that waits for a reservation and has not been notified waits for a
  claim that another thread of its router holds, also after reservations that failed or panicked; so
  a notification is always still to come.\<close>

theorem no_lost_wakeup:
  assumes "seq_reachable reserve admin init w" and "w_phase w r t = Waiting s False"
  shows "\<exists>t'. t' \<noteq> t \<and> (w_phase w r t' = Reserving s \<or> (\<exists>x. w_phase w r t' = Reserved s x))"
proof -
  have "flight_ok w r s" using assms(1) by (rule reachable_flight)
  then obtain t' where t': "claims w r s t'" using assms(2) unfolding flight_ok_def by blast
  then have "t' \<noteq> t" using assms(2) by (auto simp: claims_def)
  then show ?thesis using t' unfolding claims_def by blast
qed

theorem no_lost_wakeup_witness:
  "w_phase demo_run 1 1 = Waiting ''ids'' False \<and>
   (\<exists>t'. t' \<noteq> 1 \<and> (w_phase demo_run 1 t' = Reserving ''ids'' \<or> (\<exists>x. w_phase demo_run 1 t' = Reserved ''ids'' x)))"
  using no_lost_wakeup [OF demo_run_reachable, of 1 1 "''ids''"] demo_run_eq by blast

end
