(* ===== verification/Epoch.thy ===== *)
theory Epoch
  imports Prelude
begin

text \<open>
  The decision-epoch guard of the agent (\<open>pgshard-agent/src/epoch.rs\<close>). Its mutex is taken by
  \<open>check\<close> and by \<open>commit\<close> separately, so between the two other commands may run; the guard's state is
  determined by the sequence of commits alone.
\<close>

section \<open>Definitions\<close>

datatype outcome = Apply | Replay

datatype epoch_error = EpochZero | EpochStale u64 u64 | EpochConflict u64

record applied =
  ap_epoch :: u64
  ap_key :: string
  ap_seen :: bool

definition epoch_guard_new :: applied where
  "epoch_guard_new = \<lparr>ap_epoch = 0, ap_key = [], ap_seen = False\<rparr>"

definition epoch_check :: "applied \<Rightarrow> u64 \<Rightarrow> string \<Rightarrow> epoch_error + outcome" where
  "epoch_check a epoch key =
     (if epoch = 0 then Err EpochZero
      else if ap_seen a \<and> epoch < ap_epoch a then Err (EpochStale epoch (ap_epoch a))
      else if ap_seen a \<and> epoch = ap_epoch a then
        (if ap_key a \<noteq> key then Err (EpochConflict epoch) else Ok Replay)
      else Ok Apply)"

definition epoch_commit :: "u64 \<Rightarrow> string \<Rightarrow> applied \<Rightarrow> applied" where
  "epoch_commit epoch key a =
     (if \<not> ap_seen a \<or> epoch > ap_epoch a
      then a\<lparr>ap_epoch := epoch, ap_key := key, ap_seen := True\<rparr> else a)"

definition applied_epoch :: "applied \<Rightarrow> u64" where
  "applied_epoch a = ap_epoch a"

section \<open>The guard after a sequence of commits\<close>

definition commits :: "(u64 \<times> string) list \<Rightarrow> applied" where
  "commits cs = fold (\<lambda>(epoch, key). epoch_commit epoch key) cs epoch_guard_new"

text \<open>The commit that decides: the first one with the highest epoch.\<close>

definition decisive :: "(u64 \<times> string) list \<Rightarrow> u64 \<times> string \<Rightarrow> bool" where
  "decisive cs c \<longleftrightarrow>
     (\<exists>i < length cs. cs ! i = c \<and> (\<forall>j < i. fst (cs ! j) < fst c) \<and> (\<forall>j < length cs. fst (cs ! j) \<le> fst c))"

lemma commits_snoc: "commits (cs @ [(e, k)]) = epoch_commit e k (commits cs)"
  by (simp add: commits_def)

lemma commits_decisive:
  "if cs = [] then commits cs = epoch_guard_new
   else ap_seen (commits cs) \<and> decisive cs (ap_epoch (commits cs), ap_key (commits cs))"
proof (induction cs rule: rev_induct)
  case Nil
  then show ?case by (simp add: commits_def)
next
  case (snoc c cs)
  obtain e k where c: "c = (e, k)" by fastforce
  show ?case
  proof (cases "cs = []")
    case True
    then show ?thesis
      by (auto simp: c commits_def epoch_commit_def epoch_guard_new_def decisive_def)
  next
    case False
    let ?a = "commits cs"
    from snoc False obtain i where i: "i < length cs" "cs ! i = (ap_epoch ?a, ap_key ?a)"
        "\<forall>j < i. fst (cs ! j) < ap_epoch ?a" "\<forall>j < length cs. fst (cs ! j) \<le> ap_epoch ?a"
      and seen: "ap_seen ?a"
      by (auto simp: decisive_def)
    show ?thesis
    proof (cases "e > ap_epoch ?a")
      case True
      then have "commits (cs @ [c]) = ?a\<lparr>ap_epoch := e, ap_key := k, ap_seen := True\<rparr>"
        by (simp add: c commits_snoc epoch_commit_def)
      moreover have "decisive (cs @ [c]) (e, k)"
        unfolding decisive_def using True i(4)
        by (intro exI [of _ "length cs"]) (auto simp: c nth_append intro: le_less_trans less_imp_le)
      ultimately show ?thesis by simp
    next
      case False
      then have "commits (cs @ [c]) = ?a" using seen by (simp add: c commits_snoc epoch_commit_def)
      moreover have "decisive (cs @ [c]) (ap_epoch ?a, ap_key ?a)"
        unfolding decisive_def using False i
        by (intro exI [of _ i]) (auto simp: c nth_append less_Suc_eq)
      ultimately show ?thesis using seen by simp
    qed
  qed
qed

lemma applied_epoch_mono: "applied_epoch a \<le> applied_epoch (epoch_commit e k a) \<or> \<not> ap_seen a"
  by (auto simp: applied_epoch_def epoch_commit_def)

section \<open>Properties\<close>

text \<open>The guard decides by the first commit with the highest epoch. After any sequence of commits
  with that decisive commit, epoch zero is refused, a lower epoch is stale, the same epoch is
  replayed exactly for the same request and a conflict otherwise, and only a strictly higher epoch is
  applied; with nothing committed every non-zero epoch is applied.\<close>

theorem epoch_guard_exact:
  assumes "decisive cs (e, k)"
  shows "epoch_check (commits cs) epoch key =
      (if epoch = 0 then Err EpochZero
       else if epoch < e then Err (EpochStale epoch e)
       else if epoch = e then (if key = k then Ok Replay else Err (EpochConflict epoch))
       else Ok Apply)
    \<and> applied_epoch (commits cs) = e
    \<and> epoch_check (commits []) epoch key = (if epoch = 0 then Err EpochZero else Ok Apply)"
proof -
  let ?a = "commits cs"
  obtain i where i: "i < length cs" "cs ! i = (e, k)" "\<forall>j < i. fst (cs ! j) < e" "\<forall>j < length cs. fst (cs ! j) \<le> e"
    using assms by (auto simp: decisive_def)
  then have "cs \<noteq> []" by auto
  then have seen: "ap_seen ?a" and "decisive cs (ap_epoch ?a, ap_key ?a)"
    using commits_decisive [of cs] by simp_all
  then obtain j where j: "j < length cs" "cs ! j = (ap_epoch ?a, ap_key ?a)" "\<forall>m < j. fst (cs ! m) < ap_epoch ?a"
      "\<forall>m < length cs. fst (cs ! m) \<le> ap_epoch ?a"
    by (auto simp: decisive_def)
  have "ap_epoch ?a = e" using i j by (metis antisym fst_conv)
  moreover have "i = j"
  proof (rule linorder_cases [of i j])
    assume "i < j" then show ?thesis using i(2) j(3) calculation by fastforce
  next
    assume "j < i" then show ?thesis using j(2) i(3) calculation by fastforce
  qed
  ultimately have "ap_epoch ?a = e" "ap_key ?a = k" using i(2) j(2) by auto
  then show ?thesis
    using seen by (auto simp: epoch_check_def applied_epoch_def commits_def epoch_guard_new_def)
qed

theorem epoch_guard_exact_witness:
  "decisive [(3, ''promote:a''), (2, ''fence:true''), (3, ''promote:b'')] (3, ''promote:a'')
   \<and> epoch_check (commits [(3, ''promote:a''), (2, ''fence:true''), (3, ''promote:b'')]) 3 ''promote:b''
     = Err (EpochConflict 3)"
proof -
  let ?cs = "[(3, ''promote:a''), (2, ''fence:true''), (3, ''promote:b'')] :: (u64 \<times> string) list"
  have d: "decisive ?cs (3, ''promote:a'')"
    unfolding decisive_def by (rule exI [of _ 0]) (auto simp: less_Suc_eq)
  then show ?thesis using epoch_guard_exact [OF d, of 3 "''promote:b''"] by simp
qed

end
