(* ===== verification/Topology.thy ===== *)
theory Topology
  imports Vschema "HOL-Library.Multiset"
begin

text \<open>
  The routing topology (\<open>pgshard-topo\<close>): the snapshot model of \<open>model.rs\<close> with the canonical text form
  of key-range bounds, the validation and the freshness stamps of \<open>lib.rs\<close>, and the file watcher of
  \<open>file.rs\<close>. Clock readings are arguments: a \<open>Duration\<close> and the boot clock are natural numbers of
  nanoseconds, a \<open>SystemTime\<close> is an integer relative to \<open>UNIX_EPOCH\<close>. Reading the file and parsing its
  JSON (\<open>tokio\<close>, \<open>serde_json\<close>) happen outside the model: their outcome is an argument. The text inside
  \<open>Invalid\<close> errors is kept as data.
\<close>

section \<open>Definitions\<close>

subsection \<open>The snapshot\<close>

record topo_instance =
  in_pod :: string
  in_host :: string
  in_port :: u16
  in_can_read :: bool

datatype shard_state = Serving | Buffered | ReadOnly | Draining | Hidden

record shard_entry =
  se_name :: string
  se_key_range :: key_range
  se_state :: shard_state
  se_primary :: "topo_instance option"
  se_replicas :: "topo_instance list"

datatype table_type = TableSharded | TableGlobal

record topo_sequence =
  sq_column :: string
  sq_sequence :: string

datatype shard_key_type = KeyInt | KeyText | KeyUuid | KeyBytea

record table_entry =
  te_schema :: string
  te_name :: string
  te_table_type :: table_type
  te_shard_key_column :: "string option"
  te_shard_key_type :: "shard_key_type option"
  te_sequences :: "topo_sequence list"

datatype topo_gate_mode = BufferWrites | BufferAll

record topo_gate_match =
  tgm_all :: bool
  tgm_tables :: "string list"
  tgm_key_ranges :: "key_range list"

record topo_gate_spec =
  tgs_id :: string
  tgs_match :: topo_gate_match
  tgs_mode :: topo_gate_mode
  tgs_deadline :: string
  tgs_min_topology_generation :: u64

record topology =
  t_epoch :: u64
  t_topology_generation :: u64
  t_write_lease_seconds :: u32
  t_hash_function :: string
  t_shards :: "shard_entry list"
  t_tables :: "table_entry list"
  t_gates :: "topo_gate_spec list"
  t_sequence_endpoint :: "topo_instance option"

definition default_hash_function :: string where
  "default_hash_function = ''xxhash64_v1''"

definition default_write_lease_seconds :: u32 where
  "default_write_lease_seconds = 10"

definition topology_default :: topology where
  "topology_default =
     \<lparr>t_epoch = 0, t_topology_generation = 0, t_write_lease_seconds = default_write_lease_seconds,
      t_hash_function = default_hash_function, t_shards = [], t_tables = [], t_gates = [],
      t_sequence_endpoint = None\<rparr>"

subsection \<open>Key ranges as bounds\<close>

record bounds =
  bd_start :: string
  bd_end :: string

datatype bound_error = BadBound key_range_error | Noncanonical string string | BadRange key_range_error

definition from_range :: "key_range \<Rightarrow> bounds" where
  "from_range kr = \<lparr>bd_start = format_bound (kr_start kr),
     bd_end = (case kr_end kr of Some e \<Rightarrow> format_bound e | None \<Rightarrow> [])\<rparr>"

definition canonical_bound :: "string \<Rightarrow> bound_error + u64" where
  "canonical_bound s =
     bind_res (map_err BadBound (parse_bound s)) (\<lambda>value.
       let canonical = format_bound value
       in if canonical \<noteq> s then Err (Noncanonical s canonical) else Ok value)"

definition into_range :: "bounds \<Rightarrow> bound_error + key_range" where
  "into_range b =
     bind_res (canonical_bound (bd_start b)) (\<lambda>start.
     bind_res (if bd_end b = [] then Ok None else bind_res (canonical_bound (bd_end b)) (\<lambda>e. Ok (Some e)))
       (\<lambda>e. map_err BadRange (key_range_new start e)))"

definition keyranges_serialize :: "key_range list \<Rightarrow> bounds list" where
  "keyranges_serialize = map from_range"

definition keyranges_deserialize :: "bounds list \<Rightarrow> bound_error + key_range list" where
  "keyranges_deserialize bs = collect_res into_range bs"

subsection \<open>Freshness\<close>

definition duration_max :: nat where
  "duration_max = (2 ^ 64 - 1) * 10 ^ 9 + 999999999"

record freshness =
  fr_boot :: nat
  fr_wall :: int

record source_validation =
  sv_epoch :: u64
  sv_boot :: nat
  sv_wall :: int

record validation_clocks =
  vc_boot :: nat
  vc_wall :: int

definition before_read :: "int \<Rightarrow> nat option \<Rightarrow> validation_clocks option" where
  "before_read wall boot = map_option (\<lambda>b. \<lparr>vc_boot = b, vc_wall = wall\<rparr>) boot"

definition stamp :: "validation_clocks \<Rightarrow> u64 \<Rightarrow> source_validation" where
  "stamp c epoch = \<lparr>sv_epoch = epoch, sv_boot = vc_boot c, sv_wall = vc_wall c\<rparr>"

definition unconfirmed :: freshness where
  "unconfirmed = \<lparr>fr_boot = 0, fr_wall = 0\<rparr>"

definition freshness_new :: "int \<Rightarrow> nat option \<Rightarrow> freshness" where
  "freshness_new wall boot =
     (case boot of Some b \<Rightarrow> \<lparr>fr_boot = b, fr_wall = wall\<rparr> | None \<Rightarrow> unconfirmed)"

definition seeded :: "source_validation \<Rightarrow> freshness" where
  "seeded v = \<lparr>fr_boot = sv_boot v, fr_wall = sv_wall v\<rparr>"

definition install :: "source_validation \<Rightarrow> freshness \<Rightarrow> freshness" where
  "install v f =
     (if sv_boot v > fr_boot f then \<lparr>fr_boot = sv_boot v, fr_wall = sv_wall v\<rparr> else f)"

definition age :: "freshness \<Rightarrow> int \<Rightarrow> nat option \<Rightarrow> nat" where
  "age f wall_now boot =
     (if wall_now < fr_wall f then duration_max
      else let wall_elapsed = nat (wall_now - fr_wall f) in
        case boot of
          None \<Rightarrow> duration_max
        | Some now \<Rightarrow> max (now - fr_boot f) wall_elapsed)"

subsection \<open>Validation\<close>

datatype invalid_topology =
    ZeroEpoch | LeaseOutOfRange u32 | ZeroGeneration | UnknownFunction string
  | ServingShards partition_error | ZeroInterval | NoBootClock

datatype topology_error = Io string | Parse string | Invalid invalid_topology

definition topology_validate :: "topology \<Rightarrow> topology_error + unit" where
  "topology_validate t =
     (if t_epoch t = 0 then Err (Invalid ZeroEpoch)
      else if \<not> (1 \<le> t_write_lease_seconds t \<and> t_write_lease_seconds t \<le> 60)
        then Err (Invalid (LeaseOutOfRange (t_write_lease_seconds t)))
      else if t_topology_generation t = 0 then Err (Invalid ZeroGeneration)
      else bind_res (map_err (\<lambda>_. Invalid (UnknownFunction (t_hash_function t)))
                       (shard_function (t_hash_function t))) (\<lambda>_.
        let serving = map se_key_range (filter (\<lambda>s. se_state s = Serving) (t_shards t));
            serving = sort_key kr_start serving
        in map_err (\<lambda>e. Invalid (ServingShards e)) (validate_partition serving)))"

subsection \<open>The file watcher\<close>

type_synonym file_read = "string + (string + topology)"

definition topology_load :: "file_read \<Rightarrow> topology_error + topology" where
  "topology_load read =
     bind_res (map_err Io read) (\<lambda>parsed.
     bind_res (map_err Parse parsed) (\<lambda>t.
     bind_res (topology_validate t) (\<lambda>_. Ok t)))"

record file_watcher =
  fw_current :: topology
  fw_validated :: source_validation

definition topology_apply :: "topology \<Rightarrow> topology \<Rightarrow> topology \<times> bool" where
  "topology_apply current candidate =
     (if t_epoch candidate > t_epoch current then (candidate, True) else (current, False))"

definition watcher_start :: "nat \<Rightarrow> int \<Rightarrow> nat option \<Rightarrow> file_read \<Rightarrow> topology_error + file_watcher" where
  "watcher_start interval wall boot read =
     (if interval = 0 then Err (Invalid ZeroInterval)
      else bind_res (ok_or (Invalid NoBootClock) (before_read wall boot)) (\<lambda>clocks.
        bind_res (topology_load read) (\<lambda>initial.
          Ok \<lparr>fw_current = initial, fw_validated = stamp clocks (t_epoch initial)\<rparr>)))"

definition watcher_poll :: "int \<Rightarrow> nat option \<Rightarrow> file_read \<Rightarrow> file_watcher \<Rightarrow> file_watcher" where
  "watcher_poll wall boot read w =
     (case before_read wall boot of
        None \<Rightarrow> w
      | Some clocks \<Rightarrow>
          (case topology_load read of
             Ok candidate \<Rightarrow>
               w\<lparr>fw_current := fst (topology_apply (fw_current w) candidate),
                 fw_validated := stamp clocks (t_epoch candidate)\<rparr>
           | Err _ \<Rightarrow> w))"

definition watcher_reload ::
    "int \<Rightarrow> nat option \<Rightarrow> file_read \<Rightarrow> file_watcher \<Rightarrow> file_watcher \<times> (topology_error + bool)" where
  "watcher_reload wall boot read w =
     (case bind_res (ok_or (Invalid NoBootClock) (before_read wall boot)) (\<lambda>clocks.
             bind_res (topology_load read) (\<lambda>candidate. Ok (clocks, candidate))) of
        Err e \<Rightarrow> (w, Err e)
      | Ok (clocks, candidate) \<Rightarrow>
          let (current, applied) = topology_apply (fw_current w) candidate
          in (w\<lparr>fw_current := current, fw_validated := stamp clocks (t_epoch candidate)\<rparr>, Ok applied))"

section \<open>Canonical bounds\<close>

lemma canonical_bound_Ok: "canonical_bound s = Ok v \<longleftrightarrow> s = format_bound v"
proof
  assume "canonical_bound s = Ok v"
  then show "s = format_bound v"
    by (auto simp: canonical_bound_def bind_res_eq_Inr Let_def split: if_splits)
next
  assume "s = format_bound v"
  then show "canonical_bound s = Ok v" by (simp add: canonical_bound_def parse_format_bound Let_def)
qed

lemma into_range_Ok: "into_range b = Ok kr \<longleftrightarrow> wf_range kr \<and> b = from_range kr"
proof
  assume ok: "into_range b = Ok kr"
  then obtain start e where parts: "canonical_bound (bd_start b) = Ok start"
      "(if bd_end b = [] then Ok None else bind_res (canonical_bound (bd_end b)) (\<lambda>e. Ok (Some e))) = Ok e"
      "key_range_new start e = Ok kr"
    by (auto simp: into_range_def bind_res_eq_Inr)
  have kr: "kr = \<lparr>kr_start = start, kr_end = e\<rparr>"
    using parts(3) by (auto simp: key_range_new_def split: option.splits if_splits)
  have "bd_end b = (case e of Some e \<Rightarrow> format_bound e | None \<Rightarrow> [])"
    using parts(2) by (auto simp: bind_res_eq_Inr canonical_bound_Ok split: if_splits)
  then show "wf_range kr \<and> b = from_range kr"
    using parts(1) key_range_new_wf [OF parts(3)] by (simp add: from_range_def kr canonical_bound_Ok)
next
  assume a: "wf_range kr \<and> b = from_range kr"
  then have "kr_end kr \<noteq> Some 0" by (auto simp: wf_range_def)
  then show "into_range b = Ok kr"
    using a by (cases "kr_end kr")
      (auto simp: into_range_def from_range_def canonical_bound_Ok [THEN iffD2] key_range_new_def wf_range_def)
qed

section \<open>Exactly one serving shard per id\<close>

lemma ex1_singleton: "(\<exists>!x. x \<in> A) \<longleftrightarrow> (\<exists>x. A = {x})"
proof
  assume "\<exists>!x. x \<in> A"
  then obtain x where "x \<in> A" "\<forall>y. y \<in> A \<longrightarrow> y = x" by blast
  then have "A = {x}" by blast
  then show "\<exists>x. A = {x}" ..
qed auto

lemma ex1_nth_filter: "(\<exists>!k. k < length xs \<and> P (xs ! k)) \<longleftrightarrow> length (filter P xs) = 1"
proof -
  let ?A = "{k. k < length xs \<and> P (xs ! k)}"
  have "length (filter P xs) = 1 \<longleftrightarrow> (\<exists>k. ?A = {k})"
    by (simp add: length_filter_conv_card card_1_singleton_iff)
  then show ?thesis using ex1_singleton [of ?A] by simp
qed

lemma length_filter_sort_key: "length (filter P (sort_key f xs)) = length (filter P xs)"
proof -
  have "mset (filter P (sort_key f xs)) = mset (filter P xs)" by simp
  then show ?thesis using mset_eq_length by blast
qed

text \<open>A sorted list of ranges in which every id lies in exactly one range has no two equal starts.\<close>

lemma sorted_cover_accepted:
  assumes wf: "\<forall>r \<in> set rs. wf_range r"
  shows "validate_partition (sort_key kr_start rs) = Ok () \<longleftrightarrow>
    (\<forall>key. length (filter (\<lambda>r. contains r key) rs) = 1)"
proof -
  let ?ss = "sort_key kr_start rs"
  have wf': "\<forall>r \<in> set ?ss. wf_range r" using wf by simp
  have count: "(\<exists>!k. k < length ?ss \<and> contains (?ss ! k) key) \<longleftrightarrow> length (filter (\<lambda>r. contains r key) rs) = 1" for key
    unfolding ex1_nth_filter [of ?ss "\<lambda>r. contains r key"] length_filter_sort_key ..
  show ?thesis
  proof
    assume "validate_partition ?ss = Ok ()"
    then show "\<forall>key. length (filter (\<lambda>r. contains r key) rs) = 1"
      using validate_partition_covers [OF _ wf'] count by blast
  next
    assume "\<forall>key. length (filter (\<lambda>r. contains r key) rs) = 1"
    then have uniq: "\<exists>!k. k < length ?ss \<and> contains (?ss ! k) key" for key using count by blast
    have "kr_start (?ss ! i) < kr_start (?ss ! j)" if "i < j" "j < length ?ss" for i j
    proof -
      have "kr_start (?ss ! i) \<le> kr_start (?ss ! j)"
        using that sorted_nth_mono [OF sorted_sort_key, of i j kr_start rs] by simp
      moreover have "kr_start (?ss ! i) \<noteq> kr_start (?ss ! j)"
      proof
        assume eq: "kr_start (?ss ! i) = kr_start (?ss ! j)"
        have "contains (?ss ! i) (kr_start (?ss ! i))" "contains (?ss ! j) (kr_start (?ss ! j))"
          using that wf' nth_mem [of i ?ss] nth_mem [of j ?ss] by (auto intro!: contains_start)
        moreover have "i < length ?ss" using that by simp
        ultimately have "i = j" using uniq [of "kr_start (?ss ! i)"] eq that(2) by metis
        then show False using that(1) by simp
      qed
      ultimately show ?thesis by simp
    qed
    then have "exact_cover ?ss" unfolding exact_cover_def using uniq by blast
    then show "validate_partition ?ss = Ok ()" using wf' by (rule exact_cover_accepted)
  qed
qed

definition serving_owners :: "topology \<Rightarrow> keyspace_id \<Rightarrow> shard_entry list" where
  "serving_owners t key = filter (\<lambda>s. se_state s = Serving \<and> contains (se_key_range s) key) (t_shards t)"

definition ranges_wf :: "topology \<Rightarrow> bool" where
  "ranges_wf t \<longleftrightarrow> (\<forall>s \<in> set (t_shards t). wf_range (se_key_range s))"

lemma serving_owners_length:
  "length (serving_owners t key) =
     length (filter (\<lambda>r. contains r key) (map se_key_range (filter (\<lambda>s. se_state s = Serving) (t_shards t))))"
  by (simp add: serving_owners_def filter_map comp_def conj_commute)

section \<open>Freshness\<close>

text \<open>The stamp is unconfirmed, or that of an installed validation.\<close>

lemma install_all_cases:
  "fold install vs f = f \<or> (\<exists>v \<in> set vs. fold install vs f = seeded v)"
proof (induction vs rule: rev_induct)
  case (snoc v vs)
  then show ?case by (auto simp: install_def seeded_def)
qed simp

lemma install_all_mono: "fr_boot f \<le> fr_boot (fold install vs f)"
proof (induction vs arbitrary: f)
  case (Cons v vs)
  have "fr_boot f \<le> fr_boot (install v f)" by (simp add: install_def)
  also have "\<dots> \<le> fr_boot (fold install vs (install v f))" by (rule Cons.IH)
  finally show ?case by simp
qed simp

lemma install_all_latest: "v \<in> set vs \<Longrightarrow> sv_boot v \<le> fr_boot (fold install vs f)"
proof (induction vs arbitrary: f)
  case (Cons u vs)
  show ?case
  proof (cases "v = u")
    case True
    have "sv_boot v \<le> fr_boot (install v f)" by (simp add: install_def)
    also have "\<dots> \<le> fr_boot (fold install vs (install v f))" by (rule install_all_mono)
    finally show ?thesis using True by simp
  next
    case False
    then show ?thesis using Cons by simp
  qed
qed simp

lemma age_less:
  "age f wall_now boot < d \<Longrightarrow> d \<le> duration_max \<Longrightarrow>
     \<exists>now. boot = Some now \<and> now - fr_boot f < d \<and> fr_wall f \<le> wall_now \<and> wall_now - fr_wall f < int d"
  by (auto simp: age_def Let_def nat_less_iff split: if_splits option.splits)

section \<open>The watcher\<close>

text \<open>A watcher's life: the snapshots it published, newest first, under any sequence of polls and
  reloads.\<close>

inductive watched :: "file_watcher \<Rightarrow> topology list \<Rightarrow> bool" where
  started: "watcher_start interval wall boot read = Ok w \<Longrightarrow> watched w [fw_current w]"
| polled: "watched w h \<Longrightarrow> w' = watcher_poll wall boot read w \<Longrightarrow>
    h' = (if fw_current w' = fw_current w then h else fw_current w' # h) \<Longrightarrow> watched w' h'"
| reloaded: "watched w h \<Longrightarrow> w' = fst (watcher_reload wall boot read w) \<Longrightarrow>
    h' = (if fw_current w' = fw_current w then h else fw_current w' # h) \<Longrightarrow> watched w' h'"

definition published_ok :: "file_watcher \<Rightarrow> topology list \<Rightarrow> bool" where
  "published_ok w h \<longleftrightarrow> h \<noteq> [] \<and> hd h = fw_current w
     \<and> sorted_wrt (\<lambda>newer older. t_epoch older < t_epoch newer) h
     \<and> (\<forall>t \<in> set h. topology_validate t = Ok ())"

lemma topology_load_Ok: "topology_load read = Ok t \<Longrightarrow> topology_validate t = Ok ()"
  by (auto simp: topology_load_def bind_res_eq_Inr)

lemma published_ok_apply:
  assumes ok: "published_ok w h" and valid: "topology_validate candidate = Ok ()"
    and cur: "fw_current w' = fst (topology_apply (fw_current w) candidate)"
    and h': "h' = (if fw_current w' = fw_current w then h else fw_current w' # h)"
  shows "published_ok w' h'"
proof (cases "t_epoch candidate > t_epoch (fw_current w)")
  case True
  then have new: "fw_current w' = candidate" "candidate \<noteq> fw_current w"
    using cur by (auto simp: topology_apply_def)
  have "t_epoch t \<le> t_epoch (fw_current w)" if "t \<in> set h" for t
    using ok that unfolding published_ok_def by (cases h) auto
  then show ?thesis using ok valid True new h' by (auto simp: published_ok_def intro: le_less_trans)
next
  case False
  then show ?thesis using ok cur h' by (simp add: topology_apply_def published_ok_def)
qed

lemma watcher_poll_cases:
  "watcher_poll wall boot read w = w
   \<or> (\<exists>t. topology_validate t = Ok () \<and> fw_current (watcher_poll wall boot read w) = fst (topology_apply (fw_current w) t))"
  by (auto simp: watcher_poll_def dest: topology_load_Ok split: option.splits sum.splits)

lemma watcher_reload_cases:
  "fst (watcher_reload wall boot read w) = w
   \<or> (\<exists>t. topology_validate t = Ok () \<and> fw_current (fst (watcher_reload wall boot read w)) = fst (topology_apply (fw_current w) t))"
  by (auto simp: watcher_reload_def Let_def split_beta bind_res_eq_Inr dest!: topology_load_Ok split: sum.splits)

lemma watched_published_ok: "watched w h \<Longrightarrow> published_ok w h"
proof (induction rule: watched.induct)
  case (started interval wall boot read w)
  then show ?case
    by (auto simp: published_ok_def watcher_start_def bind_res_eq_Inr dest: topology_load_Ok split: if_splits)
next
  case (polled w h w' wall boot read h')
  then show ?case
    using watcher_poll_cases [of wall boot read w] published_ok_apply by metis
next
  case (reloaded w h w' wall boot read h')
  then show ?case
    using watcher_reload_cases [of wall boot read w] published_ok_apply by metis
qed

section \<open>Properties\<close>

text \<open>\<open>validate\<close> accepts a snapshot of well-formed ranges exactly when its counters start at one,
  its write lease is between 1 and 60 seconds, its shard function is known, and every keyspace id
  has exactly one serving shard, in whatever order the shards are listed.\<close>

theorem topology_validate_exact:
  assumes "ranges_wf t"
  shows "topology_validate t = Ok () \<longleftrightarrow>
    t_epoch t \<noteq> 0 \<and> t_topology_generation t \<noteq> 0
    \<and> 1 \<le> t_write_lease_seconds t \<and> t_write_lease_seconds t \<le> 60
    \<and> is_ok (shard_function (t_hash_function t))
    \<and> (\<forall>key. length (serving_owners t key) = 1)"
proof -
  let ?rs = "map se_key_range (filter (\<lambda>s. se_state s = Serving) (t_shards t))"
  have wf: "\<forall>r \<in> set ?rs. wf_range r" using assms by (auto simp: ranges_wf_def)
  have "topology_validate t = Ok () \<longleftrightarrow> t_epoch t \<noteq> 0 \<and> t_topology_generation t \<noteq> 0
      \<and> 1 \<le> t_write_lease_seconds t \<and> t_write_lease_seconds t \<le> 60
      \<and> is_ok (shard_function (t_hash_function t)) \<and> validate_partition (sort_key kr_start ?rs) = Ok ()"
    by (cases "shard_function (t_hash_function t)")
      (auto simp: topology_validate_def Let_def bind_res_eq_Inr)
  then show ?thesis
    unfolding sorted_cover_accepted [OF wf] serving_owners_length by blast
qed

definition demo_topology :: topology where
  "demo_topology = topology_default\<lparr>t_epoch := 1, t_topology_generation := 1, t_shards :=
     [\<lparr>se_name = ''b'', se_key_range = \<lparr>kr_start = 5, kr_end = None\<rparr>, se_state = Serving,
       se_primary = None, se_replicas = []\<rparr>,
      \<lparr>se_name = ''h'', se_key_range = FULL, se_state = Hidden, se_primary = None, se_replicas = []\<rparr>,
      \<lparr>se_name = ''a'', se_key_range = \<lparr>kr_start = 0, kr_end = Some 5\<rparr>, se_state = Serving,
       se_primary = None, se_replicas = []\<rparr>]\<rparr>"

lemma demo_topology_valid: "topology_validate demo_topology = Ok ()"
  by (simp add: topology_validate_def demo_topology_def topology_default_def shard_function_def
      default_hash_function_def default_write_lease_seconds_def validate_partition_def)

theorem topology_validate_exact_witness:
  "ranges_wf demo_topology \<and> topology_validate demo_topology = Ok ()
   \<and> length (serving_owners demo_topology 7) = 1"
proof -
  have wf: "ranges_wf demo_topology"
    by (simp add: ranges_wf_def demo_topology_def wf_range_def FULL_def)
  then show ?thesis using topology_validate_exact [OF wf] demo_topology_valid by blast
qed

text \<open>A key range survives its wire form, and each range has one accepted spelling: bounds are
  read back as a range exactly when they are what that well-formed range is written as, so
  noncanonical spellings such as \<open>"4000"\<close> for \<open>"40"\<close> are refused.\<close>

theorem bounds_canonical: "into_range b = Ok kr \<longleftrightarrow> wf_range kr \<and> b = from_range kr"
  by (rule into_range_Ok)

text \<open>A router never sees an older topology. The snapshots a watcher publishes, under any sequence
  of polls and reloads with any file contents, have strictly increasing epochs, and every one of them
  passed validation.\<close>

theorem watcher_epochs_increase:
  assumes "watched w h"
  shows "hd h = fw_current w \<and> sorted_wrt (\<lambda>newer older. t_epoch older < t_epoch newer) h
    \<and> list_all (\<lambda>t. topology_validate t = Ok ()) h"
  using watched_published_ok [OF assms] by (simp add: published_ok_def list_all_iff)

theorem watcher_epochs_increase_witness:
  "let w = \<lparr>fw_current = demo_topology\<lparr>t_epoch := 4\<rparr>, fw_validated = \<lparr>sv_epoch = 4, sv_boot = 8, sv_wall = 20\<rparr>\<rparr>;
       h = [demo_topology\<lparr>t_epoch := 4\<rparr>, demo_topology]
   in watched w h \<and> list_all (\<lambda>t. topology_validate t = Ok ()) h"
proof -
  let ?t = "demo_topology\<lparr>t_epoch := 4\<rparr>"
  let ?first = "\<lparr>fw_current = demo_topology, fw_validated = \<lparr>sv_epoch = 1, sv_boot = 5, sv_wall = 10\<rparr>\<rparr>"
  let ?w = "\<lparr>fw_current = ?t, fw_validated = \<lparr>sv_epoch = 4, sv_boot = 8, sv_wall = 20\<rparr>\<rparr>"
  have epoch: "t_epoch demo_topology = 1" by (simp add: demo_topology_def)
  have "topology_validate ?t = Ok ()"
    by (simp add: topology_validate_def demo_topology_def topology_default_def shard_function_def
        default_hash_function_def default_write_lease_seconds_def validate_partition_def)
  then have load: "topology_load (Ok (Ok ?t)) = Ok ?t" by (simp add: topology_load_def)
  have poll: "?w = watcher_poll 20 (Some 8) (Ok (Ok ?t)) ?first"
    unfolding watcher_poll_def load by (simp add: before_read_def topology_apply_def stamp_def epoch)
  have load0: "topology_load (Ok (Ok demo_topology)) = Ok demo_topology"
    by (simp add: topology_load_def demo_topology_valid)
  have "watcher_start 1 10 (Some 5) (Ok (Ok demo_topology)) = Ok ?first"
    unfolding watcher_start_def load0 before_read_def stamp_def by (simp add: epoch)
  then have first: "watched ?first [demo_topology]" using started by fastforce
  have new: "?t \<noteq> demo_topology"
  proof
    assume "?t = demo_topology"
    then have "t_epoch ?t = t_epoch demo_topology" by (rule arg_cong)
    then have "(4 :: u64) = 1" unfolding epoch by simp
    then show False by simp
  qed
  have "watched ?w [?t, demo_topology]" by (rule polled [OF first poll]) (simp add: new)
  then show ?thesis using watcher_epochs_increase [of ?w "[?t, demo_topology]"] by (simp add: Let_def)
qed

text \<open>The age of a view is never under-reported. Starting from an unconfirmed view and installing
  any validations in any order, an age below \<open>d\<close> means that a validation was captured less than \<open>d\<close>
  ago on the boot clock and on the wall clock, neither of which has gone back since; a delayed
  delivery cannot refresh an old view, and without a confirmation or without a boot clock the view
  is never fresh.\<close>

theorem freshness_is_earned:
  assumes "age (fold install vs unconfirmed) wall_now boot < d"
    and "d \<le> duration_max" and "int d \<le> wall_now"
  shows "\<exists>v \<in> set vs. \<exists>now. boot = Some now \<and> now - sv_boot v < d
    \<and> sv_wall v \<le> wall_now \<and> wall_now - sv_wall v < int d
    \<and> (\<forall>u \<in> set vs. sv_boot u \<le> sv_boot v)"
proof -
  let ?f = "fold install vs unconfirmed"
  obtain now where now: "boot = Some now" "now - fr_boot ?f < d" "fr_wall ?f \<le> wall_now"
      "wall_now - fr_wall ?f < int d"
    using age_less [OF assms(1,2)] by blast
  have "?f \<noteq> unconfirmed" using now(4) assms(3) by (auto simp: unconfirmed_def)
  then obtain v where v: "v \<in> set vs" "?f = seeded v" using install_all_cases [of vs unconfirmed] by auto
  have "\<forall>u \<in> set vs. sv_boot u \<le> sv_boot v"
    using install_all_latest [of _ vs unconfirmed] v(2) by (auto simp: seeded_def)
  then show ?thesis using now v by (auto simp: seeded_def intro!: bexI [of _ v])
qed

theorem freshness_is_earned_witness:
  "let vs = [\<lparr>sv_epoch = 1, sv_boot = 90, sv_wall = 1090\<rparr>, \<lparr>sv_epoch = 1, sv_boot = 70, sv_wall = 1070\<rparr>] in
   age (fold install vs unconfirmed) 1100 (Some 100) < 20 \<and> list_ex (\<lambda>v. 100 - sv_boot v < 20) vs"
proof -
  let ?vs = "[\<lparr>sv_epoch = 1, sv_boot = 90, sv_wall = 1090\<rparr>, \<lparr>sv_epoch = 1, sv_boot = 70, sv_wall = 1070\<rparr>]"
  have d: "(20 :: nat) \<le> duration_max" "int 20 \<le> 1100" by (simp_all add: duration_max_def)
  have young: "age (fold install ?vs unconfirmed) 1100 (Some 100) < 20"
    by (simp add: age_def install_def unconfirmed_def)
  then show ?thesis using freshness_is_earned [OF young d] by (auto simp: Let_def list_ex_iff)
qed

end
