(* ===== verification/Reader.thy ===== *)
theory Reader
  imports Lsn
begin

text \<open>
  The bounds-checked cursor of \<open>pgshard-repl/src/pgoutput.rs\<close> (\<open>Reader\<close>), shared by the decoders of
  pgoutput messages and of replication-stream frames. An operation on the cursor takes the cursor and
  returns an error or a value with the cursor after it; \<open>rbind\<close> is the \<open>?\<close> operator between two such
  operations. A slice index out of range, which panics, does not occur: \<open>take\<close> checks before it
  slices, and \<open>rest\<close> and \<open>cstr\<close> slice from a position that never passes the end
  (\<open>bounded\<close> below).
\<close>

section \<open>Definitions\<close>

datatype decode_error =
    Truncated nat nat
  | UnknownMessage u8
  | UnknownTupleKind u8
  | UnexpectedTupleMarker u8
  | NegativeLength i32
  | InvalidUtf8
  | TrailingBytes nat

record reader =
  rd_buf :: bytes
  rd_pos :: nat

type_synonym 'a reading = "reader \<Rightarrow> decode_error + ('a \<times> reader)"

definition rreturn :: "'a \<Rightarrow> 'a reading" where
  "rreturn x r = Ok (x, r)"

definition rfail :: "decode_error \<Rightarrow> 'a reading" where
  "rfail e r = Err e"

definition rbind :: "'a reading \<Rightarrow> ('a \<Rightarrow> 'b reading) \<Rightarrow> 'b reading" where
  "rbind m f r = (case m r of Err e \<Rightarrow> Err e | Ok (x, r') \<Rightarrow> f x r')"

definition lift_res :: "decode_error + 'a \<Rightarrow> 'a reading" where
  "lift_res x r = (case x of Err e \<Rightarrow> Err e | Ok y \<Rightarrow> Ok (y, r))"

fun replicate_reading :: "nat \<Rightarrow> 'a reading \<Rightarrow> 'a list reading" where
  "replicate_reading 0 m = rreturn []"
| "replicate_reading (Suc n) m =
     rbind m (\<lambda>x. rbind (replicate_reading n m) (\<lambda>xs. rreturn (x # xs)))"

definition reader_new :: "bytes \<Rightarrow> reader" where
  "reader_new buf = \<lparr>rd_buf = buf, rd_pos = 0\<rparr>"

definition rd_remaining :: "reader \<Rightarrow> nat" where
  "rd_remaining r = length (rd_buf r) - rd_pos r"

definition rd_rest :: "reader \<Rightarrow> bytes \<times> reader" where
  "rd_rest r = (drop (rd_pos r) (rd_buf r), r\<lparr>rd_pos := length (rd_buf r)\<rparr>)"

definition rd_take :: "nat \<Rightarrow> bytes reading" where
  "rd_take n r =
     (let e = rd_pos r + n in
      if e \<le> length (rd_buf r)
      then Ok (take n (drop (rd_pos r) (rd_buf r)), r\<lparr>rd_pos := e\<rparr>)
      else Err (Truncated (rd_pos r) n))"

definition rd_u8 :: "u8 reading" where
  "rd_u8 = rbind (rd_take 1) (\<lambda>b. rreturn (b ! 0))"

definition rd_i16 :: "i16 reading" where
  "rd_i16 = rbind (rd_take 2) (\<lambda>b. rreturn (of_nat (be_dec b)))"

definition rd_u32 :: "u32 reading" where
  "rd_u32 = rbind (rd_take 4) (\<lambda>b. rreturn (of_nat (be_dec b)))"

definition rd_i32 :: "i32 reading" where
  "rd_i32 = rbind (rd_take 4) (\<lambda>b. rreturn (of_nat (be_dec b)))"

definition rd_i64 :: "i64 reading" where
  "rd_i64 = rbind (rd_take 8) (\<lambda>b. rreturn (of_nat (be_dec b)))"

definition rd_lsn :: "lsn reading" where
  "rd_lsn = rbind (rd_take 8) (\<lambda>b. rreturn (of_nat (be_dec b)))"

definition rd_cstr :: "string reading" where
  "rd_cstr r =
     (let rest = drop (rd_pos r) (rd_buf r) in
      case position (\<lambda>b. b = 0) rest of
        None \<Rightarrow> Err (Truncated (rd_pos r) 1)
      | Some nul \<Rightarrow>
          (case from_utf8 (take nul rest) of
             None \<Rightarrow> Err InvalidUtf8
           | Some text \<Rightarrow> Ok (text, r\<lparr>rd_pos := rd_pos r + nul + 1\<rparr>)))"

definition count_of :: "i32 \<Rightarrow> decode_error + nat" where
  "count_of value = (if sint value < 0 then Err (NegativeLength value) else Ok (nat (sint value)))"

definition read_sized :: "bytes reading" where
  "read_sized = rbind rd_i32 (\<lambda>v. rbind (lift_res (count_of v)) rd_take)"

section \<open>What an operation consumes\<close>

text \<open>
  An operation is bounded when every successful run moves the cursor forward within the buffer, and
  cutting the buffer short of what it consumed turns the run into a \<open>Truncated\<close> error while cutting it
  later, or appending to it, changes nothing.
\<close>

definition rd_wf :: "reader \<Rightarrow> bool" where
  "rd_wf r \<longleftrightarrow> rd_pos r \<le> length (rd_buf r)"

definition cut_short :: "nat \<Rightarrow> reader \<Rightarrow> reader" where
  "cut_short k r = r\<lparr>rd_buf := take k (rd_buf r)\<rparr>"

definition grown :: "bytes \<Rightarrow> reader \<Rightarrow> reader" where
  "grown ext r = r\<lparr>rd_buf := rd_buf r @ ext\<rparr>"

definition bounded :: "'a reading \<Rightarrow> bool" where
  "bounded m \<longleftrightarrow> (\<forall>r x r'. rd_wf r \<longrightarrow> m r = Ok (x, r') \<longrightarrow>
     rd_buf r' = rd_buf r \<and> rd_pos r \<le> rd_pos r' \<and> rd_wf r'
     \<and> (\<forall>ext. m (grown ext r) = Ok (x, grown ext r'))
     \<and> (\<forall>k. rd_pos r \<le> k \<longrightarrow>
          (if rd_pos r' \<le> k then m (cut_short k r) = Ok (x, cut_short k r')
           else \<exists>off n. m (cut_short k r) = Err (Truncated off n))))"

lemma boundedI:
  assumes "\<And>r x r'. rd_wf r \<Longrightarrow> m r = Ok (x, r') \<Longrightarrow> rd_buf r' = rd_buf r \<and> rd_pos r \<le> rd_pos r' \<and> rd_wf r'"
    and "\<And>r x r' k. rd_wf r \<Longrightarrow> m r = Ok (x, r') \<Longrightarrow> rd_pos r' \<le> k \<Longrightarrow> m (cut_short k r) = Ok (x, cut_short k r')"
    and "\<And>r x r' k. rd_wf r \<Longrightarrow> m r = Ok (x, r') \<Longrightarrow> rd_pos r \<le> k \<Longrightarrow> k < rd_pos r' \<Longrightarrow>
      \<exists>off n. m (cut_short k r) = Err (Truncated off n)"
    and "\<And>r x r' ext. rd_wf r \<Longrightarrow> m r = Ok (x, r') \<Longrightarrow> m (grown ext r) = Ok (x, grown ext r')"
  shows "bounded m"
  unfolding bounded_def
proof (intro allI impI)
  fix r x r'
  assume run: "rd_wf r" "m r = Ok (x, r')"
  have "if rd_pos r' \<le> k then m (cut_short k r) = Ok (x, cut_short k r')
      else \<exists>off n. m (cut_short k r) = Err (Truncated off n)" if "rd_pos r \<le> k" for k
    using assms(2) [OF run, of k] assms(3) [OF run that] by (cases "rd_pos r' \<le> k") (simp_all add: not_le)
  then show "rd_buf r' = rd_buf r \<and> rd_pos r \<le> rd_pos r' \<and> rd_wf r'
      \<and> (\<forall>ext. m (grown ext r) = Ok (x, grown ext r'))
      \<and> (\<forall>k. rd_pos r \<le> k \<longrightarrow> (if rd_pos r' \<le> k then m (cut_short k r) = Ok (x, cut_short k r')
           else \<exists>off n. m (cut_short k r) = Err (Truncated off n)))"
    using assms(1) [OF run] assms(4) [OF run] by blast
qed

lemma bounded_moves:
  "bounded m \<Longrightarrow> rd_wf r \<Longrightarrow> m r = Ok (x, r') \<Longrightarrow> rd_buf r' = rd_buf r \<and> rd_pos r \<le> rd_pos r' \<and> rd_wf r'"
  unfolding bounded_def by blast

lemma bounded_later:
  assumes "bounded m" and "rd_wf r" and "m r = Ok (x, r')" and "rd_pos r' \<le> k"
  shows "m (cut_short k r) = Ok (x, cut_short k r')"
proof -
  have "rd_pos r \<le> rd_pos r'" using bounded_moves [OF assms(1-3)] by blast
  then have "rd_pos r \<le> k" using assms(4) by linarith
  then show ?thesis using assms unfolding bounded_def by meson
qed

lemma bounded_earlier:
  "bounded m \<Longrightarrow> rd_wf r \<Longrightarrow> m r = Ok (x, r') \<Longrightarrow> rd_pos r \<le> k \<Longrightarrow> k < rd_pos r' \<Longrightarrow>
   \<exists>off n. m (cut_short k r) = Err (Truncated off n)"
  unfolding bounded_def by (meson not_le)

lemma bounded_grown:
  "bounded m \<Longrightarrow> rd_wf r \<Longrightarrow> m r = Ok (x, r') \<Longrightarrow> m (grown ext r) = Ok (x, grown ext r')"
  unfolding bounded_def by blast

lemma rbind_Ok: "rbind m f r = Ok (y, r'') \<longleftrightarrow> (\<exists>x r'. m r = Ok (x, r') \<and> f x r' = Ok (y, r''))"
  by (auto simp: rbind_def split: sum.splits)

lemma cut_short_sel [simp]: "rd_pos (cut_short k r) = rd_pos r" "rd_buf (cut_short k r) = take k (rd_buf r)"
  by (simp_all add: cut_short_def)

lemma grown_sel [simp]: "rd_pos (grown ext r) = rd_pos r" "rd_buf (grown ext r) = rd_buf r @ ext"
  by (simp_all add: grown_def)

named_theorems bounded_intros \<open>operations on the cursor that are bounded\<close>

lemma bounded_return [bounded_intros, intro!]: "bounded (rreturn x)"
  by (rule boundedI) (auto simp: rreturn_def)

lemma bounded_fail [bounded_intros, intro!]: "bounded (rfail e)"
  by (rule boundedI) (auto simp: rfail_def)

lemma bounded_lift [bounded_intros, intro!]: "bounded (lift_res x)"
  by (rule boundedI) (auto simp: lift_res_def split: sum.splits)

lemma bounded_bind [bounded_intros]:
  assumes m: "bounded m" and f: "\<And>x. bounded (f x)"
  shows "bounded (rbind m f)"
proof (rule boundedI)
  fix r y r''
  assume wf: "rd_wf r" and run: "rbind m f r = Ok (y, r'')"
  then obtain x r' where m1: "m r = Ok (x, r')" and f1: "f x r' = Ok (y, r'')" by (auto simp: rbind_Ok)
  note mv = bounded_moves [OF m wf m1] and fv = bounded_moves [OF f _ f1]
  show "rd_buf r'' = rd_buf r \<and> rd_pos r \<le> rd_pos r'' \<and> rd_wf r''" using mv fv by auto
  show "rbind m f (grown ext r) = Ok (y, grown ext r'')" for ext
    using bounded_grown [OF m wf m1] bounded_grown [OF f _ f1] mv by (auto simp: rbind_def)
  show "rbind m f (cut_short k r) = Ok (y, cut_short k r'')" if "rd_pos r'' \<le> k" for k
    using bounded_later [OF m wf m1, of k] bounded_later [OF f _ f1, of k] mv fv that by (auto simp: rbind_def)
  show "\<exists>off n. rbind m f (cut_short k r) = Err (Truncated off n)" if "rd_pos r \<le> k" "k < rd_pos r''" for k
  proof (cases "k < rd_pos r'")
    case True
    then show ?thesis using bounded_earlier [OF m wf m1 that(1)] by (auto simp: rbind_def)
  next
    case False
    then show ?thesis
      using bounded_later [OF m wf m1, of k] bounded_earlier [OF f _ f1, of k] mv that by (auto simp: rbind_def)
  qed
qed

lemma bounded_if [bounded_intros]: "bounded m \<Longrightarrow> bounded m' \<Longrightarrow> bounded (if b then m else m')"
  by simp

lemma bounded_take [bounded_intros, intro!]: "bounded (rd_take n)"
proof (rule boundedI)
  fix r x r'
  assume wf: "rd_wf r" and run: "rd_take n r = Ok (x, r')"
  then show "rd_buf r' = rd_buf r \<and> rd_pos r \<le> rd_pos r' \<and> rd_wf r'"
    by (auto simp: rd_take_def Let_def rd_wf_def split: if_splits)
  show "rd_take n (grown ext r) = Ok (x, grown ext r')" for ext
    using run by (auto simp: rd_take_def Let_def grown_def split: if_splits)
  show "rd_take n (cut_short k r) = Ok (x, cut_short k r')" if "rd_pos r' \<le> k" for k
    using run that
    by (auto simp: rd_take_def Let_def cut_short_def take_drop min_def split: if_splits)
  show "\<exists>off n'. rd_take n (cut_short k r) = Err (Truncated off n')" if "rd_pos r \<le> k" "k < rd_pos r'" for k
    using run that by (auto simp: rd_take_def Let_def cut_short_def split: if_splits)
qed

lemma bounded_replicate [bounded_intros]: "bounded m \<Longrightarrow> bounded (replicate_reading n m)"
  by (induction n) (auto intro!: bounded_intros)

lemma bounded_ints [bounded_intros, intro!]:
  "bounded rd_u8" "bounded rd_i16" "bounded rd_u32" "bounded rd_i32" "bounded rd_i64" "bounded rd_lsn"
  "bounded read_sized"
  by (auto simp: rd_u8_def rd_i16_def rd_u32_def rd_i32_def rd_i64_def rd_lsn_def read_sized_def
      intro!: bounded_intros)

lemma position_take: "position P xs = Some i \<Longrightarrow> position P (take n xs) = (if i < n then Some i else None)"
  by (auto simp: position_Some position_None in_set_conv_nth)

lemma bounded_cstr [bounded_intros, intro!]: "bounded rd_cstr"
proof (rule boundedI)
  fix r x r'
  assume wf: "rd_wf r" and run: "rd_cstr r = Ok (x, r')"
  let ?rest = "drop (rd_pos r) (rd_buf r)"
  obtain nul where nul: "position (\<lambda>b. b = 0) ?rest = Some nul" "from_utf8 (take nul ?rest) = Some x"
      and r': "r' = r\<lparr>rd_pos := rd_pos r + nul + 1\<rparr>"
    using run by (auto simp: rd_cstr_def Let_def split: option.splits)
  have len: "nul < length ?rest" using nul by (simp add: position_Some)
  then show "rd_buf r' = rd_buf r \<and> rd_pos r \<le> rd_pos r' \<and> rd_wf r'" by (simp add: r' rd_wf_def)
  show "rd_cstr (grown ext r) = Ok (x, grown ext r')" for ext
  proof -
    have "position (\<lambda>b. b = 0) (?rest @ ext) = Some nul"
      using nul(1) by (auto simp: position_Some nth_append)
    moreover have "take nul (?rest @ ext) = take nul ?rest" using len by simp
    moreover have "drop (rd_pos r) (rd_buf (grown ext r)) = ?rest @ ext" using wf by (simp add: rd_wf_def)
    ultimately show ?thesis
      using nul(2) unfolding rd_cstr_def by (simp only: Let_def grown_sel option.case) (simp add: r' grown_def)
  qed
  have pos: "position (\<lambda>b. b = 0) (drop (rd_pos r) (take k (rd_buf r)))
      = (if nul < k - rd_pos r then Some nul else None)" for k
    using position_take [OF nul(1), of "k - rd_pos r"] by (simp add: drop_take)
  show "rd_cstr (cut_short k r) = Ok (x, cut_short k r')" if "rd_pos r' \<le> k" for k
  proof -
    have "take nul (drop (rd_pos r) (take k (rd_buf r))) = take nul ?rest"
      using that by (simp add: r' drop_take min_def)
    then show ?thesis using pos [of k] nul(2) that by (simp add: rd_cstr_def Let_def r' cut_short_def)
  qed
  show "\<exists>off n. rd_cstr (cut_short k r) = Err (Truncated off n)" if "rd_pos r \<le> k" "k < rd_pos r'" for k
    using pos [of k] that by (auto simp: rd_cstr_def Let_def r')
qed

lemma bounded_case_prod [bounded_intros]: "(\<And>a b. bounded (f a b)) \<Longrightarrow> bounded (case p of (a, b) \<Rightarrow> f a b)"
  by (cases p) simp

section \<open>What an operation reads back\<close>

text \<open>An operation reads \<open>bs\<close> as \<open>x\<close> when it does so wherever \<open>bs\<close> stands in a buffer.\<close>

definition reads :: "'a reading \<Rightarrow> bytes \<Rightarrow> 'a \<Rightarrow> bool" where
  "reads m bs x \<longleftrightarrow> (\<forall>pre suf. m \<lparr>rd_buf = pre @ bs @ suf, rd_pos = length pre\<rparr> =
     Ok (x, \<lparr>rd_buf = pre @ bs @ suf, rd_pos = length pre + length bs\<rparr>))"

named_theorems reads_intros \<open>what the operations on the cursor read\<close>

lemma reads_return [reads_intros]: "reads (rreturn x) [] x"
  by (simp add: reads_def rreturn_def)

lemma reads_bind [reads_intros]:
  assumes "reads m bs x" and "reads (f x) cs y"
  shows "reads (rbind m f) (bs @ cs) y"
  unfolding reads_def
proof (intro allI)
  fix pre suf
  have "m \<lparr>rd_buf = pre @ (bs @ cs) @ suf, rd_pos = length pre\<rparr> =
      Ok (x, \<lparr>rd_buf = pre @ (bs @ cs) @ suf, rd_pos = length pre + length bs\<rparr>)"
    using assms(1) [unfolded reads_def, rule_format, of pre "cs @ suf"] by simp
  moreover have "f x \<lparr>rd_buf = pre @ (bs @ cs) @ suf, rd_pos = length pre + length bs\<rparr> =
      Ok (y, \<lparr>rd_buf = pre @ (bs @ cs) @ suf, rd_pos = length pre + length (bs @ cs)\<rparr>)"
    using assms(2) [unfolded reads_def, rule_format, of "pre @ bs" suf] by (simp add: add.assoc)
  ultimately show "rbind m f \<lparr>rd_buf = pre @ (bs @ cs) @ suf, rd_pos = length pre\<rparr> =
      Ok (y, \<lparr>rd_buf = pre @ (bs @ cs) @ suf, rd_pos = length pre + length (bs @ cs)\<rparr>)"
    by (simp add: rbind_def)
qed

lemma reads_bind_nil: "reads m [] x \<Longrightarrow> reads (f x) cs y \<Longrightarrow> reads (rbind m f) cs y"
  using reads_bind [of m "[]" x f cs y] by simp

lemma reads_bind_return: "reads m bs x \<Longrightarrow> y = g x \<Longrightarrow> reads (rbind m (\<lambda>x. rreturn (g x))) bs y"
  using reads_bind [of m bs x "\<lambda>x. rreturn (g x)" "[]"] by (simp add: reads_return)

lemma reads_take: "length bs = n \<Longrightarrow> reads (rd_take n) bs bs"
  by (auto simp: reads_def rd_take_def Let_def)

lemma reads_u8 [reads_intros]: "reads rd_u8 [b] b"
  unfolding rd_u8_def by (rule reads_bind_return [OF reads_take]) simp_all

definition be16 :: "16 word \<Rightarrow> bytes" where
  "be16 w = be_enc 2 (unat w)"

lemma be_dec_be16 [simp]: "be_dec (be16 w) = unat w"
  using unat_lt [of w] by (simp add: be16_def be_dec_be_enc)

lemma length_be16 [simp]: "length (be16 w) = 2"
  by (simp add: be16_def)

lemma reads_ints [reads_intros]:
  "reads rd_i16 (be16 w) w" "reads rd_u32 (to_be_bytes32 v) v" "reads rd_i32 (to_be_bytes32 v) v"
  "reads rd_i64 (to_be_bytes64 u) u" "reads rd_lsn (to_be_bytes64 u) u"
  unfolding rd_i16_def rd_u32_def rd_i32_def rd_i64_def rd_lsn_def
  by (rule reads_bind_return [OF reads_take]; simp)+

definition c_string :: "string \<Rightarrow> bool" where
  "c_string s \<longleftrightarrow> valid_utf8 (as_bytes s) \<and> 0 \<notin> set (as_bytes s)"

definition enc_cstr :: "string \<Rightarrow> bytes" where
  "enc_cstr s = as_bytes s @ [0]"

lemma position_append_hit: "\<forall>x \<in> set xs. \<not> P x \<Longrightarrow> P y \<Longrightarrow> position P (xs @ y # ys) = Some (length xs)"
  by (auto simp: position_Some nth_append)

lemma reads_cstr [reads_intros]:
  assumes "c_string s"
  shows "reads rd_cstr (enc_cstr s) s"
  unfolding reads_def
proof (intro allI)
  fix pre suf :: bytes
  have "position (\<lambda>b. b = 0) (as_bytes s @ 0 # suf) = Some (length (as_bytes s))"
    using assms by (intro position_append_hit) (auto simp: c_string_def)
  then show "rd_cstr \<lparr>rd_buf = pre @ enc_cstr s @ suf, rd_pos = length pre\<rparr> =
      Ok (s, \<lparr>rd_buf = pre @ enc_cstr s @ suf, rd_pos = length pre + length (enc_cstr s)\<rparr>)"
    using assms by (simp add: rd_cstr_def enc_cstr_def c_string_def from_utf8_as_bytes)
qed

definition enc_sized :: "bytes \<Rightarrow> bytes" where
  "enc_sized bs = to_be_bytes32 (of_nat (length bs)) @ bs"

lemma reads_lift [reads_intros]: "x = Ok y \<Longrightarrow> reads (lift_res x) [] y"
  by (simp add: reads_def lift_res_def)

lemma count_of_nat: "n < 2 ^ 31 \<Longrightarrow> count_of (of_nat n) = Ok n"
  using signed_take_bit_int_eq_self [of 31 "int n"] by (simp add: count_of_def signed_of_nat)

lemma reads_sized [reads_intros]:
  assumes "length bs < 2 ^ 31"
  shows "reads read_sized (enc_sized bs) bs"
  unfolding read_sized_def enc_sized_def
  by (rule reads_bind [OF reads_ints(3)], rule reads_bind_nil [OF reads_lift [OF count_of_nat [OF assms]]])
    (simp add: reads_take)

lemma reads_replicate [reads_intros]:
  assumes "\<And>x. x \<in> set xs \<Longrightarrow> reads m (enc x) x"
  shows "reads (replicate_reading (length xs) m) (concat (map enc xs)) xs"
  using assms
proof (induction xs)
  case (Cons x xs)
  then show ?case by (simp, intro reads_bind reads_bind_return) simp_all
qed (simp add: reads_return)

end
