(* ===== verification/Pgoutput.thy ===== *)
theory Pgoutput
  imports Reader
begin

text \<open>
  The decoder of PostgreSQL's \<open>pgoutput\<close> messages (\<open>pgshard-repl/src/pgoutput.rs\<close>): one record per
  message, one reading per message type in the order of the source, and \<open>pgoutput_decode\<close>, the method
  \<open>PgOutputDecoder::decode\<close>, which returns the decoder after the call and its result. The
  pre-allocated capacity of vectors has no effect on the result and is left out.
\<close>

section \<open>Definitions\<close>

type_synonym xid = u32
type_synonym oid = u32
type_synonym timestamp_tz = i64

record begin_msg =
  bg_final_lsn :: lsn
  bg_commit_timestamp :: timestamp_tz
  bg_xid :: xid

record message_msg =
  ms_xid :: "xid option"
  ms_transactional :: bool
  ms_lsn :: lsn
  ms_prefix :: string
  ms_content :: bytes

record commit_msg =
  cm_commit_lsn :: lsn
  cm_end_lsn :: lsn
  cm_commit_timestamp :: timestamp_tz

record origin_msg =
  or_commit_lsn :: lsn
  or_name :: string

record relation_column =
  rc_flags :: u8
  rc_name :: string
  rc_type_oid :: oid
  rc_type_modifier :: i32

record relation_msg =
  re_xid :: "xid option"
  re_oid :: oid
  re_namespace :: string
  re_name :: string
  re_replica_identity :: u8
  re_columns :: "relation_column list"

record type_decl =
  ty_xid :: "xid option"
  ty_oid :: oid
  ty_namespace :: string
  ty_name :: string

datatype tuple_column = ColNull | UnchangedToast | ColText bytes | ColBinary bytes

record tuple_data =
  tp_columns :: "tuple_column list"

record insert_msg =
  ins_xid :: "xid option"
  ins_rel_oid :: oid
  ins_new_tuple :: tuple_data

record update_msg =
  up_xid :: "xid option"
  up_rel_oid :: oid
  up_key :: "tuple_data option"
  up_old :: "tuple_data option"
  up_new_tuple :: tuple_data

record delete_msg =
  del_xid :: "xid option"
  del_rel_oid :: oid
  del_key :: "tuple_data option"
  del_old :: "tuple_data option"

record truncate_msg =
  tr_xid :: "xid option"
  tr_options :: u8
  tr_relations :: "oid list"

record stream_start_msg =
  sst_xid :: xid
  sst_first_segment :: bool

record stream_commit_msg =
  sc_xid :: xid
  sc_commit_lsn :: lsn
  sc_end_lsn :: lsn
  sc_commit_timestamp :: timestamp_tz

record stream_abort_msg =
  sa_xid :: xid
  sa_subxid :: xid
  sa_abort_lsn :: "lsn option"
  sa_abort_timestamp :: "timestamp_tz option"

record prepared_txn =
  pt_lsn :: lsn
  pt_end_lsn :: lsn
  pt_timestamp :: timestamp_tz
  pt_xid :: xid
  pt_gid :: string

record rollback_prepared_msg =
  rp_prepared_end_lsn :: lsn
  rp_rollback_end_lsn :: lsn
  rp_prepare_timestamp :: timestamp_tz
  rp_rollback_timestamp :: timestamp_tz
  rp_xid :: xid
  rp_gid :: string

datatype logical_rep_msg =
    Begin begin_msg
  | Message message_msg
  | Commit commit_msg
  | Origin origin_msg
  | RelationMsg relation_msg
  | TypeMsg type_decl
  | InsertMsg insert_msg
  | UpdateMsg update_msg
  | DeleteMsg delete_msg
  | TruncateMsg truncate_msg
  | StreamStart stream_start_msg
  | StreamStop
  | StreamCommit stream_commit_msg
  | StreamAbort stream_abort_msg
  | BeginPrepare prepared_txn
  | Prepare prepared_txn
  | CommitPrepared prepared_txn
  | StreamPrepare prepared_txn
  | RollbackPrepared rollback_prepared_msg

unbundle bit_operations_syntax

definition is_key :: "relation_column \<Rightarrow> bool" where
  "is_key c \<longleftrightarrow> rc_flags c AND 1 \<noteq> 0"

definition truncate_cascade :: "truncate_msg \<Rightarrow> bool" where
  "truncate_cascade t \<longleftrightarrow> tr_options t AND 1 \<noteq> 0"

definition truncate_restart_identity :: "truncate_msg \<Rightarrow> bool" where
  "truncate_restart_identity t \<longleftrightarrow> tr_options t AND 2 \<noteq> 0"

subsection \<open>Readings\<close>

definition stream_xid :: "bool \<Rightarrow> xid option reading" where
  "stream_xid in_stream =
     (if in_stream then rbind rd_u32 (\<lambda>x. rreturn (Some x)) else rreturn None)"

definition expect_marker :: "u8 \<Rightarrow> unit reading" where
  "expect_marker want =
     rbind rd_u8 (\<lambda>got. if got = want then rreturn () else rfail (UnexpectedTupleMarker got))"

definition byte :: "char \<Rightarrow> u8" where
  "byte c = byte_of_char c"

definition read_begin :: "begin_msg reading" where
  "read_begin =
     rbind rd_lsn (\<lambda>final_lsn. rbind rd_i64 (\<lambda>ts. rbind rd_u32 (\<lambda>xid.
       rreturn \<lparr>bg_final_lsn = final_lsn, bg_commit_timestamp = ts, bg_xid = xid\<rparr>)))"

definition logical_message :: "bool \<Rightarrow> message_msg reading" where
  "logical_message in_stream =
     rbind (stream_xid in_stream) (\<lambda>xid. rbind rd_u8 (\<lambda>flags. rbind rd_lsn (\<lambda>lsn.
     rbind rd_cstr (\<lambda>prefix. rbind read_sized (\<lambda>content.
       rreturn \<lparr>ms_xid = xid, ms_transactional = (flags AND 1 \<noteq> 0), ms_lsn = lsn,
                ms_prefix = prefix, ms_content = content\<rparr>)))))"

definition read_commit :: "commit_msg reading" where
  "read_commit =
     rbind rd_u8 (\<lambda>_. rbind rd_lsn (\<lambda>commit_lsn. rbind rd_lsn (\<lambda>end_lsn. rbind rd_i64 (\<lambda>ts.
       rreturn \<lparr>cm_commit_lsn = commit_lsn, cm_end_lsn = end_lsn, cm_commit_timestamp = ts\<rparr>))))"

definition read_origin :: "origin_msg reading" where
  "read_origin =
     rbind rd_lsn (\<lambda>commit_lsn. rbind rd_cstr (\<lambda>name.
       rreturn \<lparr>or_commit_lsn = commit_lsn, or_name = name\<rparr>))"

definition read_relation_column :: "relation_column reading" where
  "read_relation_column =
     rbind rd_u8 (\<lambda>flags. rbind rd_cstr (\<lambda>name. rbind rd_u32 (\<lambda>type_oid. rbind rd_i32 (\<lambda>type_modifier.
       rreturn \<lparr>rc_flags = flags, rc_name = name, rc_type_oid = type_oid,
                rc_type_modifier = type_modifier\<rparr>))))"

definition relation :: "bool \<Rightarrow> relation_msg reading" where
  "relation in_stream =
     rbind (stream_xid in_stream) (\<lambda>xid. rbind rd_u32 (\<lambda>oid. rbind rd_cstr (\<lambda>namespace.
     rbind rd_cstr (\<lambda>name. rbind rd_u8 (\<lambda>replica_identity. rbind rd_i16 (\<lambda>n.
     rbind (lift_res (count_of (scast n))) (\<lambda>count. rbind (replicate_reading count read_relation_column) (\<lambda>columns.
       rreturn \<lparr>re_xid = xid, re_oid = oid, re_namespace = namespace, re_name = name,
                re_replica_identity = replica_identity, re_columns = columns\<rparr>))))))))"

definition read_type_decl :: "bool \<Rightarrow> type_decl reading" where
  "read_type_decl in_stream =
     rbind (stream_xid in_stream) (\<lambda>xid. rbind rd_u32 (\<lambda>oid. rbind rd_cstr (\<lambda>namespace. rbind rd_cstr (\<lambda>name.
       rreturn \<lparr>ty_xid = xid, ty_oid = oid, ty_namespace = namespace, ty_name = name\<rparr>))))"

definition read_tuple_column :: "tuple_column reading" where
  "read_tuple_column =
     rbind rd_u8 (\<lambda>kind.
       if kind = byte (CHR ''n'') then rreturn ColNull
       else if kind = byte (CHR ''u'') then rreturn UnchangedToast
       else if kind = byte (CHR ''t'') then rbind read_sized (\<lambda>v. rreturn (ColText v))
       else if kind = byte (CHR ''b'') then rbind read_sized (\<lambda>v. rreturn (ColBinary v))
       else rfail (UnknownTupleKind kind))"

definition read_tuple_data :: "tuple_data reading" where
  "read_tuple_data =
     rbind rd_i16 (\<lambda>n. rbind (lift_res (count_of (scast n))) (\<lambda>count.
     rbind (replicate_reading count read_tuple_column) (\<lambda>columns. rreturn \<lparr>tp_columns = columns\<rparr>)))"

definition read_insert :: "bool \<Rightarrow> insert_msg reading" where
  "read_insert in_stream =
     rbind (stream_xid in_stream) (\<lambda>xid. rbind rd_u32 (\<lambda>rel_oid.
     rbind (expect_marker (byte (CHR ''N''))) (\<lambda>_. rbind read_tuple_data (\<lambda>new_tuple.
       rreturn \<lparr>ins_xid = xid, ins_rel_oid = rel_oid, ins_new_tuple = new_tuple\<rparr>))))"

definition read_old_image :: "(tuple_data option \<times> tuple_data option \<times> u8) reading" where
  "read_old_image =
     rbind rd_u8 (\<lambda>m.
       if m = byte (CHR ''K'')
         then rbind read_tuple_data (\<lambda>t. rbind rd_u8 (\<lambda>marker. rreturn (Some t, None, marker)))
       else if m = byte (CHR ''O'')
         then rbind read_tuple_data (\<lambda>t. rbind rd_u8 (\<lambda>marker. rreturn (None, Some t, marker)))
       else rreturn (None, None, m))"

definition read_update :: "bool \<Rightarrow> update_msg reading" where
  "read_update in_stream =
     rbind (stream_xid in_stream) (\<lambda>xid. rbind rd_u32 (\<lambda>rel_oid.
     rbind read_old_image (\<lambda>(key, old, marker).
       if marker \<noteq> byte (CHR ''N'') then rfail (UnexpectedTupleMarker marker)
       else rbind read_tuple_data (\<lambda>new_tuple.
         rreturn \<lparr>up_xid = xid, up_rel_oid = rel_oid, up_key = key, up_old = old,
                  up_new_tuple = new_tuple\<rparr>))))"

definition read_delete :: "bool \<Rightarrow> delete_msg reading" where
  "read_delete in_stream =
     rbind (stream_xid in_stream) (\<lambda>xid. rbind rd_u32 (\<lambda>rel_oid.
     rbind rd_u8 (\<lambda>m.
       if m = byte (CHR ''K'')
         then rbind read_tuple_data (\<lambda>t.
           rreturn \<lparr>del_xid = xid, del_rel_oid = rel_oid, del_key = Some t, del_old = None\<rparr>)
       else if m = byte (CHR ''O'')
         then rbind read_tuple_data (\<lambda>t.
           rreturn \<lparr>del_xid = xid, del_rel_oid = rel_oid, del_key = None, del_old = Some t\<rparr>)
       else rfail (UnexpectedTupleMarker m))))"

definition read_truncate :: "bool \<Rightarrow> truncate_msg reading" where
  "read_truncate in_stream =
     rbind (stream_xid in_stream) (\<lambda>xid. rbind rd_i32 (\<lambda>n. rbind (lift_res (count_of n)) (\<lambda>count.
     rbind rd_u8 (\<lambda>options. rbind (replicate_reading count rd_u32) (\<lambda>relations.
       rreturn \<lparr>tr_xid = xid, tr_options = options, tr_relations = relations\<rparr>)))))"

definition read_stream_start :: "stream_start_msg reading" where
  "read_stream_start =
     rbind rd_u32 (\<lambda>xid. rbind rd_u8 (\<lambda>b. rreturn \<lparr>sst_xid = xid, sst_first_segment = (b \<noteq> 0)\<rparr>))"

definition read_stream_commit :: "stream_commit_msg reading" where
  "read_stream_commit =
     rbind rd_u32 (\<lambda>xid. rbind rd_u8 (\<lambda>_. rbind rd_lsn (\<lambda>commit_lsn. rbind rd_lsn (\<lambda>end_lsn.
     rbind rd_i64 (\<lambda>ts.
       rreturn \<lparr>sc_xid = xid, sc_commit_lsn = commit_lsn, sc_end_lsn = end_lsn,
                sc_commit_timestamp = ts\<rparr>)))))"

definition read_stream_abort :: "bool \<Rightarrow> stream_abort_msg reading" where
  "read_stream_abort parallel =
     rbind rd_u32 (\<lambda>xid. rbind rd_u32 (\<lambda>subxid.
     rbind (if parallel
            then rbind rd_lsn (\<lambda>l. rbind rd_i64 (\<lambda>t. rreturn (Some l, Some t)))
            else rreturn (None, None)) (\<lambda>(abort_lsn, abort_timestamp).
       rreturn \<lparr>sa_xid = xid, sa_subxid = subxid, sa_abort_lsn = abort_lsn,
                sa_abort_timestamp = abort_timestamp\<rparr>)))"

definition read_prepared :: "bool \<Rightarrow> prepared_txn reading" where
  "read_prepared has_flags =
     rbind (if has_flags then rbind rd_u8 (\<lambda>_. rreturn ()) else rreturn ()) (\<lambda>_.
     rbind rd_lsn (\<lambda>lsn. rbind rd_lsn (\<lambda>end_lsn. rbind rd_i64 (\<lambda>ts. rbind rd_u32 (\<lambda>xid.
     rbind rd_cstr (\<lambda>gid.
       rreturn \<lparr>pt_lsn = lsn, pt_end_lsn = end_lsn, pt_timestamp = ts, pt_xid = xid, pt_gid = gid\<rparr>))))))"

definition read_rollback_prepared :: "rollback_prepared_msg reading" where
  "read_rollback_prepared =
     rbind rd_u8 (\<lambda>_. rbind rd_lsn (\<lambda>prepared_end. rbind rd_lsn (\<lambda>rollback_end. rbind rd_i64 (\<lambda>pts.
     rbind rd_i64 (\<lambda>rts. rbind rd_u32 (\<lambda>xid. rbind rd_cstr (\<lambda>gid.
       rreturn \<lparr>rp_prepared_end_lsn = prepared_end, rp_rollback_end_lsn = rollback_end,
                rp_prepare_timestamp = pts, rp_rollback_timestamp = rts, rp_xid = xid,
                rp_gid = gid\<rparr>)))))))"

subsection \<open>The decoder\<close>

datatype stream_mode = StreamOff | StreamOn | StreamParallel

record pgoutput_decoder =
  de_protocol_version :: u32
  de_stream_mode :: stream_mode
  de_in_stream :: bool

definition with_stream_mode :: "u32 \<Rightarrow> stream_mode \<Rightarrow> pgoutput_decoder" where
  "with_stream_mode v m = \<lparr>de_protocol_version = v, de_stream_mode = m, de_in_stream = False\<rparr>"

definition pgoutput_decoder_new :: "u32 \<Rightarrow> pgoutput_decoder" where
  "pgoutput_decoder_new v = with_stream_mode v StreamOff"

definition keep_stream :: "bool \<Rightarrow> ('a \<Rightarrow> logical_rep_msg) \<Rightarrow> 'a reading \<Rightarrow> (logical_rep_msg \<times> bool) reading" where
  "keep_stream in_stream c m = rbind m (\<lambda>x. rreturn (c x, in_stream))"

definition read_msg :: "bool \<Rightarrow> bool \<Rightarrow> u8 \<Rightarrow> (logical_rep_msg \<times> bool) reading" where
  "read_msg in_stream parallel tag =
     (if tag = byte (CHR ''B'') then keep_stream in_stream Begin read_begin
      else if tag = byte (CHR ''M'') then keep_stream in_stream Message (logical_message in_stream)
      else if tag = byte (CHR ''C'') then keep_stream in_stream Commit read_commit
      else if tag = byte (CHR ''O'') then keep_stream in_stream Origin read_origin
      else if tag = byte (CHR ''R'') then keep_stream in_stream RelationMsg (relation in_stream)
      else if tag = byte (CHR ''Y'') then keep_stream in_stream TypeMsg (read_type_decl in_stream)
      else if tag = byte (CHR ''I'') then keep_stream in_stream InsertMsg (read_insert in_stream)
      else if tag = byte (CHR ''U'') then keep_stream in_stream UpdateMsg (read_update in_stream)
      else if tag = byte (CHR ''D'') then keep_stream in_stream DeleteMsg (read_delete in_stream)
      else if tag = byte (CHR ''T'') then keep_stream in_stream TruncateMsg (read_truncate in_stream)
      else if tag = byte (CHR ''S'') then rbind read_stream_start (\<lambda>x. rreturn (StreamStart x, True))
      else if tag = byte (CHR ''E'') then rreturn (StreamStop, False)
      else if tag = byte (CHR ''c'') then keep_stream in_stream StreamCommit read_stream_commit
      else if tag = byte (CHR ''A'') then keep_stream in_stream StreamAbort (read_stream_abort parallel)
      else if tag = byte (CHR ''b'') then keep_stream in_stream BeginPrepare (read_prepared False)
      else if tag = byte (CHR ''P'') then keep_stream in_stream Prepare (read_prepared True)
      else if tag = byte (CHR ''K'') then keep_stream in_stream CommitPrepared (read_prepared True)
      else if tag = byte (CHR ''p'') then keep_stream in_stream StreamPrepare (read_prepared True)
      else if tag = byte (CHR ''r'') then keep_stream in_stream RollbackPrepared read_rollback_prepared
      else rfail (UnknownMessage tag))"

definition pgoutput_decode ::
    "pgoutput_decoder \<Rightarrow> bytes \<Rightarrow> pgoutput_decoder \<times> (decode_error + logical_rep_msg)" where
  "pgoutput_decode d frame =
     (case rbind rd_u8 (read_msg (de_in_stream d) (de_stream_mode d = StreamParallel)) (reader_new frame) of
        Err e \<Rightarrow> (d, Err e)
      | Ok ((msg, next_in_stream), r) \<Rightarrow>
          if rd_remaining r \<noteq> 0 then (d, Err (TrailingBytes (rd_remaining r)))
          else (d\<lparr>de_in_stream := next_in_stream\<rparr>, Ok msg))"

end
