(* ===== verification/Pgoutput_Wire.thy ===== *)
theory Pgoutput_Wire
  imports Pgoutput
begin

text \<open>
  The correctness of the pgoutput decoder. \<open>enc_msg\<close> is the wire format of a message as a walsender
  sends it (flag bytes that carry nothing are zero), the reference against which \<open>pgoutput_decode\<close> is
  checked: it reads every message back, refuses every shortened frame, and keeps track of streamed
  transactions.
\<close>

section \<open>The wire format\<close>

definition enc_xid :: "xid option \<Rightarrow> bytes" where
  "enc_xid x = (case x of Some v \<Rightarrow> to_be_bytes32 v | None \<Rightarrow> [])"

fun enc_column :: "tuple_column \<Rightarrow> bytes" where
  "enc_column ColNull = [byte (CHR ''n'')]"
| "enc_column UnchangedToast = [byte (CHR ''u'')]"
| "enc_column (ColText v) = byte (CHR ''t'') # enc_sized v"
| "enc_column (ColBinary v) = byte (CHR ''b'') # enc_sized v"

definition enc_tuple :: "tuple_data \<Rightarrow> bytes" where
  "enc_tuple t = be16 (of_nat (length (tp_columns t))) @ concat (map enc_column (tp_columns t))"

definition enc_relation_column :: "relation_column \<Rightarrow> bytes" where
  "enc_relation_column c =
     rc_flags c # enc_cstr (rc_name c) @ to_be_bytes32 (rc_type_oid c) @ to_be_bytes32 (rc_type_modifier c)"

definition enc_old_image :: "tuple_data option \<Rightarrow> tuple_data option \<Rightarrow> bytes" where
  "enc_old_image key old =
     (case key of Some t \<Rightarrow> byte (CHR ''K'') # enc_tuple t
      | None \<Rightarrow> (case old of Some t \<Rightarrow> byte (CHR ''O'') # enc_tuple t | None \<Rightarrow> []))"

definition enc_prepared :: "prepared_txn \<Rightarrow> bytes" where
  "enc_prepared p = to_be_bytes64 (pt_lsn p) @ to_be_bytes64 (pt_end_lsn p) @ to_be_bytes64 (pt_timestamp p)
     @ to_be_bytes32 (pt_xid p) @ enc_cstr (pt_gid p)"

fun enc_body :: "logical_rep_msg \<Rightarrow> bytes" where
  "enc_body (Begin m) = to_be_bytes64 (bg_final_lsn m) @ to_be_bytes64 (bg_commit_timestamp m) @ to_be_bytes32 (bg_xid m)"
| "enc_body (Message m) = enc_xid (ms_xid m) @ [if ms_transactional m then 1 else 0] @ to_be_bytes64 (ms_lsn m)
     @ enc_cstr (ms_prefix m) @ enc_sized (ms_content m)"
| "enc_body (Commit m) = [0] @ to_be_bytes64 (cm_commit_lsn m) @ to_be_bytes64 (cm_end_lsn m) @ to_be_bytes64 (cm_commit_timestamp m)"
| "enc_body (Origin m) = to_be_bytes64 (or_commit_lsn m) @ enc_cstr (or_name m)"
| "enc_body (RelationMsg m) = enc_xid (re_xid m) @ to_be_bytes32 (re_oid m) @ enc_cstr (re_namespace m)
     @ enc_cstr (re_name m) @ [re_replica_identity m] @ be16 (of_nat (length (re_columns m)))
     @ concat (map enc_relation_column (re_columns m))"
| "enc_body (TypeMsg m) = enc_xid (ty_xid m) @ to_be_bytes32 (ty_oid m) @ enc_cstr (ty_namespace m) @ enc_cstr (ty_name m)"
| "enc_body (InsertMsg m) = enc_xid (ins_xid m) @ to_be_bytes32 (ins_rel_oid m) @ [byte (CHR ''N'')] @ enc_tuple (ins_new_tuple m)"
| "enc_body (UpdateMsg m) = enc_xid (up_xid m) @ to_be_bytes32 (up_rel_oid m) @ (enc_old_image (up_key m) (up_old m)
     @ [byte (CHR ''N'')]) @ enc_tuple (up_new_tuple m)"
| "enc_body (DeleteMsg m) = enc_xid (del_xid m) @ to_be_bytes32 (del_rel_oid m) @ enc_old_image (del_key m) (del_old m)"
| "enc_body (TruncateMsg m) = enc_xid (tr_xid m) @ to_be_bytes32 (of_nat (length (tr_relations m))) @ [tr_options m]
     @ concat (map to_be_bytes32 (tr_relations m))"
| "enc_body (StreamStart m) = to_be_bytes32 (sst_xid m) @ [if sst_first_segment m then 1 else 0]"
| "enc_body StreamStop = []"
| "enc_body (StreamCommit m) = to_be_bytes32 (sc_xid m) @ [0] @ to_be_bytes64 (sc_commit_lsn m)
     @ to_be_bytes64 (sc_end_lsn m) @ to_be_bytes64 (sc_commit_timestamp m)"
| "enc_body (StreamAbort m) = to_be_bytes32 (sa_xid m) @ to_be_bytes32 (sa_subxid m)
     @ (case (sa_abort_lsn m, sa_abort_timestamp m) of (Some l, Some t) \<Rightarrow> to_be_bytes64 l @ to_be_bytes64 t | _ \<Rightarrow> [])"
| "enc_body (BeginPrepare p) = enc_prepared p"
| "enc_body (Prepare p) = [0] @ enc_prepared p"
| "enc_body (CommitPrepared p) = [0] @ enc_prepared p"
| "enc_body (StreamPrepare p) = [0] @ enc_prepared p"
| "enc_body (RollbackPrepared m) = [0] @ to_be_bytes64 (rp_prepared_end_lsn m) @ to_be_bytes64 (rp_rollback_end_lsn m)
     @ to_be_bytes64 (rp_prepare_timestamp m) @ to_be_bytes64 (rp_rollback_timestamp m) @ to_be_bytes32 (rp_xid m)
     @ enc_cstr (rp_gid m)"

fun msg_tag :: "logical_rep_msg \<Rightarrow> u8" where
  "msg_tag (Begin _) = byte (CHR ''B'')"
| "msg_tag (Message _) = byte (CHR ''M'')"
| "msg_tag (Commit _) = byte (CHR ''C'')"
| "msg_tag (Origin _) = byte (CHR ''O'')"
| "msg_tag (RelationMsg _) = byte (CHR ''R'')"
| "msg_tag (TypeMsg _) = byte (CHR ''Y'')"
| "msg_tag (InsertMsg _) = byte (CHR ''I'')"
| "msg_tag (UpdateMsg _) = byte (CHR ''U'')"
| "msg_tag (DeleteMsg _) = byte (CHR ''D'')"
| "msg_tag (TruncateMsg _) = byte (CHR ''T'')"
| "msg_tag (StreamStart _) = byte (CHR ''S'')"
| "msg_tag StreamStop = byte (CHR ''E'')"
| "msg_tag (StreamCommit _) = byte (CHR ''c'')"
| "msg_tag (StreamAbort _) = byte (CHR ''A'')"
| "msg_tag (BeginPrepare _) = byte (CHR ''b'')"
| "msg_tag (Prepare _) = byte (CHR ''P'')"
| "msg_tag (CommitPrepared _) = byte (CHR ''K'')"
| "msg_tag (StreamPrepare _) = byte (CHR ''p'')"
| "msg_tag (RollbackPrepared _) = byte (CHR ''r'')"

definition enc_msg :: "logical_rep_msg \<Rightarrow> bytes" where
  "enc_msg m = msg_tag m # enc_body m"

text \<open>The messages the format can carry for a decoder inside or outside a streamed transaction.\<close>

definition tuple_ok :: "tuple_data \<Rightarrow> bool" where
  "tuple_ok t \<longleftrightarrow> length (tp_columns t) < 2 ^ 15
     \<and> (\<forall>c \<in> set (tp_columns t). case c of ColText v \<Rightarrow> length v < 2 ^ 31 | ColBinary v \<Rightarrow> length v < 2 ^ 31 | _ \<Rightarrow> True)"

definition xid_ok :: "bool \<Rightarrow> xid option \<Rightarrow> bool" where
  "xid_ok in_stream x \<longleftrightarrow> (x \<noteq> None) = in_stream"

definition opt_tuple_ok :: "tuple_data option \<Rightarrow> bool" where
  "opt_tuple_ok x = (case x of None \<Rightarrow> True | Some t \<Rightarrow> tuple_ok t)"

fun msg_ok :: "bool \<Rightarrow> bool \<Rightarrow> logical_rep_msg \<Rightarrow> bool" where
  "msg_ok s p (Message m) \<longleftrightarrow> xid_ok s (ms_xid m) \<and> c_string (ms_prefix m) \<and> length (ms_content m) < 2 ^ 31"
| "msg_ok s p (Origin m) \<longleftrightarrow> c_string (or_name m)"
| "msg_ok s p (RelationMsg m) \<longleftrightarrow> xid_ok s (re_xid m) \<and> c_string (re_namespace m) \<and> c_string (re_name m)
     \<and> length (re_columns m) < 2 ^ 15 \<and> (\<forall>c \<in> set (re_columns m). c_string (rc_name c))"
| "msg_ok s p (TypeMsg m) \<longleftrightarrow> xid_ok s (ty_xid m) \<and> c_string (ty_namespace m) \<and> c_string (ty_name m)"
| "msg_ok s p (InsertMsg m) \<longleftrightarrow> xid_ok s (ins_xid m) \<and> tuple_ok (ins_new_tuple m)"
| "msg_ok s p (UpdateMsg m) \<longleftrightarrow> xid_ok s (up_xid m) \<and> (up_key m = None \<or> up_old m = None)
     \<and> opt_tuple_ok (up_key m) \<and> opt_tuple_ok (up_old m) \<and> tuple_ok (up_new_tuple m)"
| "msg_ok s p (DeleteMsg m) \<longleftrightarrow> xid_ok s (del_xid m) \<and> (del_key m = None) \<noteq> (del_old m = None)
     \<and> opt_tuple_ok (del_key m) \<and> opt_tuple_ok (del_old m)"
| "msg_ok s p (TruncateMsg m) \<longleftrightarrow> xid_ok s (tr_xid m) \<and> length (tr_relations m) < 2 ^ 31"
| "msg_ok s p (StreamAbort m) \<longleftrightarrow> (sa_abort_lsn m \<noteq> None) = p \<and> (sa_abort_timestamp m \<noteq> None) = p"
| "msg_ok s p (BeginPrepare m) \<longleftrightarrow> c_string (pt_gid m)"
| "msg_ok s p (Prepare m) \<longleftrightarrow> c_string (pt_gid m)"
| "msg_ok s p (CommitPrepared m) \<longleftrightarrow> c_string (pt_gid m)"
| "msg_ok s p (StreamPrepare m) \<longleftrightarrow> c_string (pt_gid m)"
| "msg_ok s p (RollbackPrepared m) \<longleftrightarrow> c_string (rp_gid m)"
| "msg_ok s p _ \<longleftrightarrow> True"

fun stream_after :: "bool \<Rightarrow> logical_rep_msg \<Rightarrow> bool" where
  "stream_after s (StreamStart _) = True"
| "stream_after s StreamStop = False"
| "stream_after s _ = s"

section \<open>Reading back\<close>

lemma byte_inject [simp]: "byte a = byte b \<longleftrightarrow> a = b"
  unfolding byte_def by (metis char_byte_inverse)

lemma reads_cons: "reads rd_u8 [b] b \<Longrightarrow> reads (f b) cs y \<Longrightarrow> reads (rbind rd_u8 f) (b # cs) y"
  using reads_bind [of rd_u8 "[b]" b f cs y] by simp

lemma reads_u8_cons: "reads (f b) cs y \<Longrightarrow> reads (rbind rd_u8 f) (b # cs) y"
  by (rule reads_cons [OF reads_u8])

lemma scast_of_nat: "n < 2 ^ 15 \<Longrightarrow> (scast (of_nat n :: 16 word) :: 32 word) = of_nat n"
proof -
  assume n: "n < 2 ^ 15"
  then have "sint (of_nat n :: 16 word) = int n"
    using signed_take_bit_int_eq_self [of 15 "int n"] by (simp add: signed_of_nat)
  then show ?thesis by (simp add: scast_eq)
qed

lemma count_of_i16: "n < 2 ^ 15 \<Longrightarrow> count_of (scast (of_nat n :: 16 word)) = Ok n"
  by (simp add: scast_of_nat count_of_nat)

lemma reads_xid: "xid_ok s x \<Longrightarrow> reads (stream_xid s) (enc_xid x) x"
proof (cases x)
  case (Some v)
  assume "xid_ok s x"
  then have s: s using Some by (simp add: xid_ok_def)
  show ?thesis
    unfolding stream_xid_def enc_xid_def Some using s by (simp add: reads_bind_return [OF reads_ints(2)])
qed (simp add: xid_ok_def stream_xid_def enc_xid_def reads_return)

lemma reads_column:
  assumes "case c of ColText v \<Rightarrow> length v < 2 ^ 31 | ColBinary v \<Rightarrow> length v < 2 ^ 31 | _ \<Rightarrow> True"
  shows "reads read_tuple_column (enc_column c) c"
  using assms unfolding read_tuple_column_def
  by (cases c) (auto intro!: reads_u8_cons reads_return reads_bind_return [OF reads_sized])

lemma reads_tuple: "tuple_ok t \<Longrightarrow> reads read_tuple_data (enc_tuple t) t"
  unfolding read_tuple_data_def enc_tuple_def tuple_ok_def
  by (rule reads_bind [OF reads_ints(1)], rule reads_bind_nil [OF reads_lift [OF count_of_i16]])
    (auto intro!: reads_bind_return [OF reads_replicate] reads_column)

lemma reads_return_eq: "y = x \<Longrightarrow> reads (rreturn x) [] y"
  by (simp add: reads_return)

lemma reads_count:
  "n < 2 ^ 15 \<Longrightarrow> reads (f n) cs y \<Longrightarrow> reads (rbind (lift_res (count_of (scast (of_nat n :: 16 word)))) f) cs y"
  by (rule reads_bind_nil [OF reads_lift [OF count_of_i16]])

lemma reads_count32: "n < 2 ^ 31 \<Longrightarrow> reads (f n) cs y \<Longrightarrow> reads (rbind (lift_res (count_of (of_nat n))) f) cs y"
  by (rule reads_bind_nil [OF reads_lift [OF count_of_nat]])

lemmas reading_rules = reads_u8_cons reads_count reads_count32 reads_bind reads_bind_return
  reads_return_eq reads_xid reads_tuple reads_cstr reads_sized reads_ints

lemma reads_relation_column: "c_string (rc_name c) \<Longrightarrow> reads read_relation_column (enc_relation_column c) c"
  unfolding read_relation_column_def enc_relation_column_def
  by (rule reading_rules | assumption | (simp; fail))+

lemma reads_begin: "reads read_begin (enc_body (Begin m)) m"
  unfolding read_begin_def enc_body.simps by (rule reading_rules | (simp; fail))+

lemma reads_message:
  assumes "msg_ok s p (Message m)"
  shows "reads (logical_message s) (enc_body (Message m)) m"
proof -
  have ok: "xid_ok s (ms_xid m)" "c_string (ms_prefix m)" "length (ms_content m) < 2 ^ 31" using assms by simp_all
  show ?thesis
    unfolding logical_message_def enc_body.simps append_Cons append_Nil
    by (rule reading_rules ok | (simp; fail))+
qed

lemma reads_commit: "reads read_commit (enc_body (Commit m)) m"
  unfolding read_commit_def enc_body.simps append_Cons append_Nil by (rule reading_rules | (simp; fail))+

lemma reads_origin: "c_string (or_name m) \<Longrightarrow> reads read_origin (enc_body (Origin m)) m"
  unfolding read_origin_def enc_body.simps by (rule reading_rules | assumption | (simp; fail))+

lemma reads_relation:
  assumes "msg_ok s p (RelationMsg m)"
  shows "reads (relation s) (enc_body (RelationMsg m)) m"
proof -
  have ok: "xid_ok s (re_xid m)" "c_string (re_namespace m)" "c_string (re_name m)" "length (re_columns m) < 2 ^ 15"
    using assms by simp_all
  have cols: "reads (replicate_reading (length (re_columns m)) read_relation_column)
      (concat (map enc_relation_column (re_columns m))) (re_columns m)"
    using assms by (intro reads_replicate reads_relation_column) simp
  show ?thesis
    unfolding relation_def enc_body.simps append_Cons append_Nil
    by (rule reading_rules ok cols | (simp; fail))+
qed

lemma reads_type_decl:
  assumes "msg_ok s p (TypeMsg m)"
  shows "reads (read_type_decl s) (enc_body (TypeMsg m)) m"
proof -
  have ok: "xid_ok s (ty_xid m)" "c_string (ty_namespace m)" "c_string (ty_name m)" using assms by simp_all
  show ?thesis unfolding read_type_decl_def enc_body.simps by (rule reading_rules ok | (simp; fail))+
qed

lemma reads_marker: "reads (f ()) cs y \<Longrightarrow> reads (rbind (expect_marker b) f) (b # cs) y"
proof -
  assume f: "reads (f ()) cs y"
  have "reads (expect_marker b) [b] ()" unfolding expect_marker_def by (rule reads_u8_cons) (simp add: reads_return)
  then show ?thesis using reads_bind [where f = f, of "expect_marker b" "[b]" "()" cs y] f by simp
qed

lemma reads_insert:
  assumes "msg_ok s p (InsertMsg m)"
  shows "reads (read_insert s) (enc_body (InsertMsg m)) m"
proof -
  have ok: "xid_ok s (ins_xid m)" "tuple_ok (ins_new_tuple m)" using assms by simp_all
  show ?thesis unfolding read_insert_def enc_body.simps append_Cons append_Nil
    by (rule reads_marker reading_rules ok | (simp; fail))+
qed

lemma reads_old_image:
  assumes "k = None \<or> old = None" and "opt_tuple_ok k" and "opt_tuple_ok old"
  shows "reads read_old_image (enc_old_image k old @ [byte (CHR ''N'')]) (k, old, byte (CHR ''N''))"
proof (cases k)
  case (Some t)
  then have ok: "tuple_ok t" "old = None" using assms by (auto simp: opt_tuple_ok_def)
  then show ?thesis
    unfolding read_old_image_def enc_old_image_def Some
    by (simp, intro reads_u8_cons) (simp, rule reads_bind [OF reads_tuple], simp, rule reads_u8_cons, simp add: reads_return)
next
  case None
  then show ?thesis
  proof (cases old)
    case (Some t)
    then have ok: "tuple_ok t" using assms by (simp add: opt_tuple_ok_def)
    then show ?thesis
      unfolding read_old_image_def enc_old_image_def None Some
      by (simp, intro reads_u8_cons) (simp, rule reads_bind [OF reads_tuple], simp, rule reads_u8_cons, simp add: reads_return)
  next
    case None
    with \<open>k = None\<close> show ?thesis
      unfolding read_old_image_def enc_old_image_def by (simp, intro reads_u8_cons) (simp add: reads_return)
  qed
qed

lemma reads_update:
  assumes "msg_ok s p (UpdateMsg m)"
  shows "reads (read_update s) (enc_body (UpdateMsg m)) m"
proof -
  have ok: "xid_ok s (up_xid m)" "tuple_ok (up_new_tuple m)" using assms by simp_all
  have old: "reads read_old_image (enc_old_image (up_key m) (up_old m) @ [byte (CHR ''N'')])
      (up_key m, up_old m, byte (CHR ''N''))"
    using assms by (intro reads_old_image) simp_all
  show ?thesis unfolding read_update_def enc_body.simps
    by (rule reads_bind [OF reads_xid [OF ok(1)]], rule reads_bind [OF reads_ints(2)], rule reads_bind [OF old])
      (simp add: reads_bind_return [OF reads_tuple [OF ok(2)]])
qed

lemma reads_delete:
  assumes "msg_ok s p (DeleteMsg m)"
  shows "reads (read_delete s) (enc_body (DeleteMsg m)) m"
proof -
  have ok: "xid_ok s (del_xid m)" using assms by simp
  have "reads (rbind rd_u8 (\<lambda>b. if b = byte (CHR ''K'')
         then rbind read_tuple_data (\<lambda>t.
           rreturn \<lparr>del_xid = del_xid m, del_rel_oid = del_rel_oid m, del_key = Some t, del_old = None\<rparr>)
       else if b = byte (CHR ''O'')
         then rbind read_tuple_data (\<lambda>t.
           rreturn \<lparr>del_xid = del_xid m, del_rel_oid = del_rel_oid m, del_key = None, del_old = Some t\<rparr>)
       else rfail (UnexpectedTupleMarker b))) (enc_old_image (del_key m) (del_old m)) m"
  proof (cases "del_key m")
    case (Some t)
    then have "del_old m = None" "tuple_ok t" using assms by (auto simp: opt_tuple_ok_def)
    then show ?thesis unfolding enc_old_image_def Some
      by (simp, intro reads_u8_cons) (auto intro!: reads_bind_return [OF reads_tuple] simp: Some [symmetric])
  next
    case None
    then obtain t where "del_old m = Some t" "tuple_ok t" using assms by (auto simp: opt_tuple_ok_def)
    then show ?thesis unfolding enc_old_image_def None
      by (simp, intro reads_u8_cons) (auto intro!: reads_bind_return [OF reads_tuple] simp: None [symmetric])
  qed
  then show ?thesis unfolding read_delete_def enc_body.simps
    by (intro reads_bind [OF reads_xid [OF ok]] reads_bind [OF reads_ints(2)])
qed

lemma reads_truncate:
  assumes "msg_ok s p (TruncateMsg m)"
  shows "reads (read_truncate s) (enc_body (TruncateMsg m)) m"
proof -
  have ok: "xid_ok s (tr_xid m)" "length (tr_relations m) < 2 ^ 31" using assms by simp_all
  have rels: "reads (replicate_reading (length (tr_relations m)) rd_u32)
      (concat (map to_be_bytes32 (tr_relations m))) (tr_relations m)"
    by (intro reads_replicate reads_ints)
  show ?thesis unfolding read_truncate_def enc_body.simps append_Cons append_Nil
    by (rule reading_rules ok rels | (simp; fail))+
qed

lemma reads_stream_start: "reads read_stream_start (enc_body (StreamStart m)) m"
  unfolding read_stream_start_def enc_body.simps by (rule reading_rules | (simp; fail))+

lemma reads_stream_commit: "reads read_stream_commit (enc_body (StreamCommit m)) m"
  unfolding read_stream_commit_def enc_body.simps append_Cons append_Nil
  by (rule reading_rules | (simp; fail))+

lemma reads_stream_abort:
  assumes "msg_ok s p (StreamAbort m)"
  shows "reads (read_stream_abort p) (enc_body (StreamAbort m)) m"
proof -
  let ?tail = "case (sa_abort_lsn m, sa_abort_timestamp m) of (Some l, Some t) \<Rightarrow> to_be_bytes64 l @ to_be_bytes64 t | _ \<Rightarrow> []"
  have tail: "reads (if p then rbind rd_lsn (\<lambda>l. rbind rd_i64 (\<lambda>t. rreturn (Some l, Some t))) else rreturn (None, None))
      ?tail (sa_abort_lsn m, sa_abort_timestamp m)"
  proof (cases p)
    case True
    then obtain l t where lt: "sa_abort_lsn m = Some l" "sa_abort_timestamp m = Some t" using assms by auto
    then show ?thesis using True by (simp, intro reads_bind [OF reads_ints(5)] reads_bind_return [OF reads_ints(4)]) simp
  qed (use assms in \<open>auto simp: reads_return\<close>)
  show ?thesis unfolding read_stream_abort_def enc_body.simps split_def
    by (rule reads_bind, rule reads_ints, rule reads_bind, rule reads_ints, rule reads_bind_return,
        rule tail [unfolded split_def]) simp
qed

lemma reads_prepared:
  assumes "c_string (pt_gid m)"
  shows "reads (read_prepared False) (enc_prepared m) m" "reads (read_prepared True) (0 # enc_prepared m) m"
proof -
  have body: "reads (rbind rd_lsn (\<lambda>lsn. rbind rd_lsn (\<lambda>end_lsn. rbind rd_i64 (\<lambda>ts. rbind rd_u32 (\<lambda>xid.
     rbind rd_cstr (\<lambda>gid.
       rreturn \<lparr>pt_lsn = lsn, pt_end_lsn = end_lsn, pt_timestamp = ts, pt_xid = xid, pt_gid = gid\<rparr>))))))
     (enc_prepared m) m"
    unfolding enc_prepared_def by (rule reading_rules assms | (simp; fail))+
  show "reads (read_prepared False) (enc_prepared m) m"
    unfolding read_prepared_def if_False by (rule reads_bind_nil, rule reads_return, rule body)
  have flags: "reads (rbind rd_u8 (\<lambda>_. rreturn ())) [0] ()" by (rule reads_u8_cons [OF reads_return])
  show "reads (read_prepared True) (0 # enc_prepared m) m"
    unfolding read_prepared_def if_True
    by (rule reads_bind [of _ "[0]", simplified], rule flags, rule body)
qed

lemma reads_rollback_prepared:
  assumes "c_string (rp_gid m)"
  shows "reads read_rollback_prepared (enc_body (RollbackPrepared m)) m"
  unfolding read_rollback_prepared_def enc_body.simps append_Cons append_Nil
  by (rule reading_rules assms | (simp; fail))+

lemma reads_keep: "reads m bs x \<Longrightarrow> reads (keep_stream s c m) bs (c x, s)"
  unfolding keep_stream_def by (rule reads_bind_return) simp_all

lemma reads_stream_start_msg: "reads (rbind read_stream_start (\<lambda>x. rreturn (StreamStart x, True))) (enc_body (StreamStart m)) (StreamStart m, True)"
  by (rule reads_bind_return [OF reads_stream_start]) simp

lemma reads_msg:
  assumes ok: "msg_ok s p m"
  shows "reads (read_msg s p (msg_tag m)) (enc_body m) (m, stream_after s m)"
proof (cases m)
  case (Message x)
  then show ?thesis using reads_keep [OF reads_message] ok by (simp add: read_msg_def del: enc_body.simps)
next
  case (RelationMsg x)
  then show ?thesis using reads_keep [OF reads_relation] ok by (simp add: read_msg_def del: enc_body.simps)
next
  case (TypeMsg x)
  then show ?thesis using reads_keep [OF reads_type_decl] ok by (simp add: read_msg_def del: enc_body.simps)
next
  case (InsertMsg x)
  then show ?thesis using reads_keep [OF reads_insert] ok by (simp add: read_msg_def del: enc_body.simps)
next
  case (UpdateMsg x)
  then show ?thesis using reads_keep [OF reads_update] ok by (simp add: read_msg_def del: enc_body.simps)
next
  case (DeleteMsg x)
  then show ?thesis using reads_keep [OF reads_delete] ok by (simp add: read_msg_def del: enc_body.simps)
next
  case (TruncateMsg x)
  then show ?thesis using reads_keep [OF reads_truncate] ok by (simp add: read_msg_def del: enc_body.simps)
next
  case (StreamAbort x)
  then have "reads (read_stream_abort p) (enc_body m) x" using reads_stream_abort [of s p x] ok by simp
  then show ?thesis using StreamAbort by (simp add: read_msg_def reads_keep del: enc_body.simps)
qed (use ok in \<open>simp_all add: read_msg_def reads_keep reads_return reads_stream_start_msg reads_prepared
  reads_begin reads_commit reads_origin reads_stream_commit reads_rollback_prepared
  del: enc_body.simps(1-11) enc_body.simps(13,14,19)\<close>)

section \<open>Bounded readings\<close>

lemma bounded_parts [bounded_intros]:
  "bounded (stream_xid s)" "bounded (expect_marker b)" "bounded read_relation_column" "bounded read_tuple_column"
  by (auto simp: stream_xid_def expect_marker_def read_relation_column_def read_tuple_column_def
      intro!: bounded_intros)

lemma bounded_tuple [bounded_intros]: "bounded read_tuple_data"
  unfolding read_tuple_data_def by (intro bounded_intros)

lemma bounded_old_image [bounded_intros]: "bounded read_old_image"
  unfolding read_old_image_def by (intro bounded_intros)

lemma bounded_messages [bounded_intros]:
  "bounded read_begin" "bounded (logical_message s)" "bounded read_commit" "bounded read_origin"
  "bounded (relation s)" "bounded (read_type_decl s)" "bounded (read_insert s)" "bounded (read_update s)"
  "bounded (read_delete s)" "bounded (read_truncate s)" "bounded read_stream_start"
  "bounded read_stream_commit" "bounded (read_stream_abort p)" "bounded (read_prepared f)"
  "bounded read_rollback_prepared"
  unfolding read_begin_def logical_message_def read_commit_def read_origin_def relation_def
    read_type_decl_def read_insert_def read_update_def read_delete_def read_truncate_def
    read_stream_start_def read_stream_commit_def read_stream_abort_def read_prepared_def
    read_rollback_prepared_def
  by (intro bounded_intros)+

lemma bounded_msg: "bounded (read_msg s p tag)"
  unfolding read_msg_def keep_stream_def by (intro bounded_intros)

lemma bounded_frame: "bounded (rbind rd_u8 (read_msg s p))"
  by (intro bounded_bind bounded_ints bounded_msg)

section \<open>The decoder as a whole\<close>

lemma decode_Ok:
  "pgoutput_decode d frame = (d', Ok m) \<longleftrightarrow>
     (\<exists>nxt. rbind rd_u8 (read_msg (de_in_stream d) (de_stream_mode d = StreamParallel)) (reader_new frame)
          = Ok ((m, nxt), \<lparr>rd_buf = frame, rd_pos = length frame\<rparr>)
        \<and> d' = d\<lparr>de_in_stream := nxt\<rparr>)"
proof
  let ?run = "rbind rd_u8 (read_msg (de_in_stream d) (de_stream_mode d = StreamParallel)) (reader_new frame)"
  assume dec: "pgoutput_decode d frame = (d', Ok m)"
  then obtain nxt r where run: "?run = Ok ((m, nxt), r)" and left: "rd_remaining r = 0"
      and d': "d' = d\<lparr>de_in_stream := nxt\<rparr>"
    by (auto simp: pgoutput_decode_def split: sum.splits prod.splits if_splits)
  have "rd_buf r = frame \<and> rd_wf r"
    using bounded_moves [OF bounded_frame _ run] by (auto simp: reader_new_def rd_wf_def)
  then have "r = \<lparr>rd_buf = frame, rd_pos = length frame\<rparr>"
    using left by (cases r) (simp add: rd_remaining_def rd_wf_def)
  then show "\<exists>nxt. ?run = Ok ((m, nxt), \<lparr>rd_buf = frame, rd_pos = length frame\<rparr>) \<and> d' = d\<lparr>de_in_stream := nxt\<rparr>"
    using run d' by blast
next
  assume "\<exists>nxt. rbind rd_u8 (read_msg (de_in_stream d) (de_stream_mode d = StreamParallel)) (reader_new frame)
          = Ok ((m, nxt), \<lparr>rd_buf = frame, rd_pos = length frame\<rparr>) \<and> d' = d\<lparr>de_in_stream := nxt\<rparr>"
  then show "pgoutput_decode d frame = (d', Ok m)" by (auto simp: pgoutput_decode_def rd_remaining_def)
qed

text \<open>The xid prefix of a change message; other messages have none.\<close>

fun change_xid :: "logical_rep_msg \<Rightarrow> xid option option" where
  "change_xid (Message m) = Some (ms_xid m)"
| "change_xid (RelationMsg m) = Some (re_xid m)"
| "change_xid (TypeMsg m) = Some (ty_xid m)"
| "change_xid (InsertMsg m) = Some (ins_xid m)"
| "change_xid (UpdateMsg m) = Some (up_xid m)"
| "change_xid (DeleteMsg m) = Some (del_xid m)"
| "change_xid (TruncateMsg m) = Some (tr_xid m)"
| "change_xid _ = None"

lemma stream_xid_Ok: "stream_xid s r = Ok (x, r') \<Longrightarrow> xid_ok s x"
  by (auto simp: stream_xid_def xid_ok_def rbind_Ok rreturn_def split: if_splits)

lemma change_xid_readings:
  "logical_message s r = Ok (m1, r') \<Longrightarrow> xid_ok s (ms_xid m1)"
  "relation s r = Ok (m2, r') \<Longrightarrow> xid_ok s (re_xid m2)"
  "read_type_decl s r = Ok (m3, r') \<Longrightarrow> xid_ok s (ty_xid m3)"
  "read_insert s r = Ok (m4, r') \<Longrightarrow> xid_ok s (ins_xid m4)"
  "read_update s r = Ok (m5, r') \<Longrightarrow> xid_ok s (up_xid m5)"
  "read_delete s r = Ok (m6, r') \<Longrightarrow> xid_ok s (del_xid m6)"
  "read_truncate s r = Ok (m7, r') \<Longrightarrow> xid_ok s (tr_xid m7)"
  by (auto simp: logical_message_def relation_def read_type_decl_def read_insert_def read_update_def
      read_delete_def read_truncate_def rbind_Ok rreturn_def rfail_def dest!: stream_xid_Ok split: if_splits)

lemma keep_stream_Ok: "keep_stream s c m r = Ok ((x, s'), r') \<longleftrightarrow> (\<exists>y. m r = Ok (y, r') \<and> x = c y \<and> s' = s)"
  by (auto simp: keep_stream_def rbind_Ok rreturn_def)

lemma read_msg_Ok:
  assumes "read_msg s p tag r = Ok ((m, s'), r')"
  shows "s' = stream_after s m \<and> (\<forall>x. change_xid m = Some x \<longrightarrow> xid_ok s x)"
  using assms unfolding read_msg_def
  by (auto simp: keep_stream_Ok rbind_Ok rreturn_def rfail_def split: if_splits
      dest: change_xid_readings)

section \<open>Properties\<close>

text \<open>C35: The decoder reads back every message. Whatever message the wire format can carry for the
  decoder's state, decoding its frame returns that message, and moves the decoder into or out of a
  streamed transaction exactly on Stream Start and Stream Stop.\<close>

theorem pgoutput_roundtrip:
  assumes "msg_ok (de_in_stream d) (de_stream_mode d = StreamParallel) m"
  shows "pgoutput_decode d (enc_msg m) = (d\<lparr>de_in_stream := stream_after (de_in_stream d) m\<rparr>, Ok m)"
proof -
  have "reads (rbind rd_u8 (read_msg (de_in_stream d) (de_stream_mode d = StreamParallel))) (enc_msg m)
      (m, stream_after (de_in_stream d) m)"
    unfolding enc_msg_def by (rule reads_u8_cons) (rule reads_msg [OF assms])
  from this [unfolded reads_def, rule_format, of "[]" "[]"] show ?thesis
    unfolding decode_Ok by (auto simp: reader_new_def)
qed

definition demo_update :: update_msg where
  "demo_update = \<lparr>up_xid = Some 7, up_rel_oid = 16384, up_key = None,
     up_old = Some \<lparr>tp_columns = [ColText (as_bytes ''1''), ColNull]\<rparr>,
     up_new_tuple = \<lparr>tp_columns = [ColText (as_bytes ''1''), UnchangedToast]\<rparr>\<rparr>"

theorem pgoutput_roundtrip_witness:
  "let d = (with_stream_mode 2 StreamOn)\<lparr>de_in_stream := True\<rparr> in
   pgoutput_decode d (enc_msg (UpdateMsg demo_update)) = (d, Ok (UpdateMsg demo_update))"
proof -
  let ?d = "(with_stream_mode 2 StreamOn)\<lparr>de_in_stream := True\<rparr>"
  have ok: "msg_ok (de_in_stream ?d) (de_stream_mode ?d = StreamParallel) (UpdateMsg demo_update)"
    by (simp add: with_stream_mode_def demo_update_def xid_ok_def opt_tuple_ok_def tuple_ok_def as_bytes_def)
  show ?thesis using pgoutput_roundtrip [OF ok] by (simp add: Let_def with_stream_mode_def)
qed

text \<open>C36: A damaged frame is never taken for a message: if a frame decodes, every proper prefix of it
  is refused as truncated and every extension of it as having trailing bytes, and the decoder's state
  is unchanged by the refusal.\<close>

theorem pgoutput_frame_exact:
  assumes "pgoutput_decode d frame = (d', Ok m)"
  shows "(\<forall>k < length frame. \<exists>off n. pgoutput_decode d (take k frame) = (d, Err (Truncated off n)))
    \<and> (\<forall>ext. ext \<noteq> [] \<longrightarrow> pgoutput_decode d (frame @ ext) = (d, Err (TrailingBytes (length ext))))"
proof -
  let ?m = "rbind rd_u8 (read_msg (de_in_stream d) (de_stream_mode d = StreamParallel))"
  obtain nxt where run: "?m (reader_new frame) = Ok ((m, nxt), \<lparr>rd_buf = frame, rd_pos = length frame\<rparr>)"
    using assms unfolding decode_Ok by blast
  have wf: "rd_wf (reader_new frame)" by (simp add: reader_new_def rd_wf_def)
  have cut: "cut_short k (reader_new frame) = reader_new (take k frame)" for k
    by (simp add: cut_short_def reader_new_def)
  have "\<exists>off n. ?m (reader_new (take k frame)) = Err (Truncated off n)" if "k < length frame" for k
    using bounded_earlier [OF bounded_frame wf run, of k] that unfolding cut by (simp add: reader_new_def)
  moreover have "?m (reader_new (frame @ ext)) = Ok ((m, nxt), \<lparr>rd_buf = frame @ ext, rd_pos = length frame\<rparr>)" for ext
    using bounded_grown [OF bounded_frame wf run, of ext] by (simp add: grown_def reader_new_def)
  ultimately show ?thesis by (fastforce simp: pgoutput_decode_def rd_remaining_def)
qed

theorem pgoutput_frame_exact_witness:
  "pgoutput_decode (pgoutput_decoder_new 1) [byte (CHR ''E'')] = (pgoutput_decoder_new 1, Ok StreamStop)
   \<and> pgoutput_decode (pgoutput_decoder_new 1) ([byte (CHR ''E'')] @ [0]) = (pgoutput_decoder_new 1, Err (TrailingBytes 1))"
proof -
  have d: "pgoutput_decode (pgoutput_decoder_new 1) [byte (CHR ''E'')] = (pgoutput_decoder_new 1, Ok StreamStop)"
    by (simp add: pgoutput_decode_def reader_new_def rbind_def rd_u8_def rd_take_def rreturn_def read_msg_def
        rd_remaining_def pgoutput_decoder_new_def with_stream_mode_def)
  show ?thesis using d pgoutput_frame_exact [OF d] by simp
qed

text \<open>C37: The decoder tracks streamed transactions. A refused frame leaves it as it was; an accepted one
  changes only the stream bracket, to true on Stream Start and to false on Stream Stop; and a change
  message carries an xid exactly when the decoder was inside a streamed transaction.\<close>

theorem pgoutput_tracks_stream:
  "case pgoutput_decode d frame of
     (d', Err e) \<Rightarrow> d' = d
   | (d', Ok m) \<Rightarrow> d' = d\<lparr>de_in_stream := stream_after (de_in_stream d) m\<rparr>
       \<and> (\<forall>x. change_xid m = Some x \<longrightarrow> (x \<noteq> None) = de_in_stream d)"
proof (cases "pgoutput_decode d frame")
  case (Pair d' res)
  show ?thesis
  proof (cases res)
    case (Inl e)
    then show ?thesis
      using Pair by (auto simp: pgoutput_decode_def split: sum.splits prod.splits if_splits)
  next
    case (Inr m)
    then obtain nxt where "rbind rd_u8 (read_msg (de_in_stream d) (de_stream_mode d = StreamParallel)) (reader_new frame)
          = Ok ((m, nxt), \<lparr>rd_buf = frame, rd_pos = length frame\<rparr>)" "d' = d\<lparr>de_in_stream := nxt\<rparr>"
      using Pair unfolding decode_Ok [symmetric] by (auto simp: decode_Ok)
    then show ?thesis using Pair Inr by (auto simp: rbind_Ok xid_ok_def dest!: read_msg_Ok)
  qed
qed

theorem pgoutput_tracks_stream_witness:
  "snd (pgoutput_decode (pgoutput_decoder_new 1) [byte (CHR ''E'')]) = Ok StreamStop
   \<and> fst (pgoutput_decode (pgoutput_decoder_new 1) [byte (CHR ''E'')]) = (pgoutput_decoder_new 1)\<lparr>de_in_stream := False\<rparr>"
proof -
  have d: "pgoutput_decode (pgoutput_decoder_new 1) [byte (CHR ''E'')] = (pgoutput_decoder_new 1, Ok StreamStop)"
    by (simp add: pgoutput_decode_def reader_new_def rbind_def rd_u8_def rd_take_def rreturn_def read_msg_def
        rd_remaining_def pgoutput_decoder_new_def with_stream_mode_def)
  show ?thesis using d pgoutput_tracks_stream [of "pgoutput_decoder_new 1" "[byte (CHR ''E'')]"] by simp
qed

end
