(* ===== verification/Repl_Stream.thy ===== *)
theory Repl_Stream
  imports Reader
begin

text \<open>
  The wrapper of the replication stream (\<open>pgshard-repl/src/stream.rs\<close>): the messages inside \<open>CopyData\<close>
  frames during \<open>START_REPLICATION\<close>. The server sends WAL data and keepalives, the client encodes
  status updates and hot-standby feedback.
\<close>

section \<open>Definitions\<close>

record xlog_data =
  xl_wal_start :: lsn
  xl_wal_end :: lsn
  xl_server_time :: i64
  xl_data :: bytes

record primary_keepalive =
  ka_wal_end :: lsn
  ka_server_time :: i64
  ka_reply_requested :: bool

datatype replication_message = XLogData xlog_data | PrimaryKeepalive primary_keepalive

definition read_rest :: "bytes reading" where
  "read_rest r = Ok (rd_rest r)"

definition read_xlog_data :: "xlog_data reading" where
  "read_xlog_data =
     rbind rd_lsn (\<lambda>wal_start. rbind rd_lsn (\<lambda>wal_end. rbind rd_i64 (\<lambda>server_time. rbind read_rest (\<lambda>data.
       rreturn \<lparr>xl_wal_start = wal_start, xl_wal_end = wal_end, xl_server_time = server_time,
                xl_data = data\<rparr>))))"

definition read_keepalive :: "primary_keepalive reading" where
  "read_keepalive =
     rbind rd_lsn (\<lambda>wal_end. rbind rd_i64 (\<lambda>server_time. rbind rd_u8 (\<lambda>b.
       rreturn \<lparr>ka_wal_end = wal_end, ka_server_time = server_time, ka_reply_requested = (b \<noteq> 0)\<rparr>)))"

definition repl_decode :: "bytes \<Rightarrow> decode_error + replication_message" where
  "repl_decode frame =
     (case rbind rd_u8 (\<lambda>tag.
             if tag = byte_of_char (CHR ''w'') then rbind read_xlog_data (\<lambda>x. rreturn (XLogData x))
             else if tag = byte_of_char (CHR ''k'') then rbind read_keepalive (\<lambda>k. rreturn (PrimaryKeepalive k))
             else rfail (UnknownMessage tag)) (reader_new frame) of
        Err e \<Rightarrow> Err e
      | Ok (msg, r) \<Rightarrow>
          if rd_remaining r \<noteq> 0 then Err (TrailingBytes (rd_remaining r)) else Ok msg)"

record standby_status_update =
  su_write_lsn :: lsn
  su_flush_lsn :: lsn
  su_apply_lsn :: lsn
  su_client_time :: i64
  su_reply_requested :: bool

definition bool_byte :: "bool \<Rightarrow> u8" where
  "bool_byte b = (if b then 1 else 0)"

definition status_encode :: "standby_status_update \<Rightarrow> bytes" where
  "status_encode s =
     [byte_of_char (CHR ''r'')] @ to_be_bytes64 (su_write_lsn s) @ to_be_bytes64 (su_flush_lsn s)
     @ to_be_bytes64 (su_apply_lsn s) @ to_be_bytes64 (su_client_time s) @ [bool_byte (su_reply_requested s)]"

record hot_standby_feedback =
  hf_client_time :: i64
  hf_global_xmin :: u32
  hf_global_xmin_epoch :: u32
  hf_catalog_xmin :: u32
  hf_catalog_xmin_epoch :: u32

definition feedback_encode :: "hot_standby_feedback \<Rightarrow> bytes" where
  "feedback_encode f =
     [byte_of_char (CHR ''h'')] @ to_be_bytes64 (hf_client_time f) @ to_be_bytes32 (hf_global_xmin f)
     @ to_be_bytes32 (hf_global_xmin_epoch f) @ to_be_bytes32 (hf_catalog_xmin f)
     @ to_be_bytes32 (hf_catalog_xmin_epoch f)"

section \<open>The wire format of the server's messages\<close>

fun enc_repl :: "replication_message \<Rightarrow> bytes" where
  "enc_repl (XLogData x) = byte_of_char (CHR ''w'') # to_be_bytes64 (xl_wal_start x) @ to_be_bytes64 (xl_wal_end x)
     @ to_be_bytes64 (xl_server_time x) @ xl_data x"
| "enc_repl (PrimaryKeepalive k) = byte_of_char (CHR ''k'') # to_be_bytes64 (ka_wal_end k)
     @ to_be_bytes64 (ka_server_time k) @ [bool_byte (ka_reply_requested k)]"

lemma run_reads:
  "reads m bs x \<Longrightarrow> buf = pre @ bs @ suf \<Longrightarrow> pos = length pre \<Longrightarrow>
   m \<lparr>rd_buf = buf, rd_pos = pos\<rparr> = Ok (x, \<lparr>rd_buf = buf, rd_pos = pos + length bs\<rparr>)"
  by (simp add: reads_def)

lemma byte_of_char_eq [simp]: "byte_of_char a = byte_of_char b \<longleftrightarrow> a = b"
  by (metis char_byte_inverse)

lemma reads_keepalive:
  "reads read_keepalive (to_be_bytes64 (ka_wal_end k) @ to_be_bytes64 (ka_server_time k) @ [bool_byte (ka_reply_requested k)]) k"
  unfolding read_keepalive_def
  by (rule reads_bind, rule reads_ints, rule reads_bind, rule reads_ints, rule reads_bind_return, rule reads_u8)
    (simp add: bool_byte_def)

text \<open>The payload runs to the end of the frame, so it is read back only at the end of a buffer.\<close>

lemma run_xlog_data:
  "read_xlog_data \<lparr>rd_buf = pre @ to_be_bytes64 (xl_wal_start x) @ to_be_bytes64 (xl_wal_end x)
      @ to_be_bytes64 (xl_server_time x) @ xl_data x, rd_pos = length pre\<rparr>
   = Ok (x, \<lparr>rd_buf = pre @ to_be_bytes64 (xl_wal_start x) @ to_be_bytes64 (xl_wal_end x)
      @ to_be_bytes64 (xl_server_time x) @ xl_data x,
      rd_pos = length pre + 24 + length (xl_data x)\<rparr>)"
proof -
  let ?a = "to_be_bytes64 (xl_wal_start x)" and ?b = "to_be_bytes64 (xl_wal_end x)"
    and ?c = "to_be_bytes64 (xl_server_time x)"
  let ?buf = "pre @ ?a @ ?b @ ?c @ xl_data x"
  have one: "rd_lsn \<lparr>rd_buf = ?buf, rd_pos = length pre\<rparr> = Ok (xl_wal_start x, \<lparr>rd_buf = ?buf, rd_pos = length pre + 8\<rparr>)"
    using run_reads [OF reads_ints(5), of ?buf pre _ "?b @ ?c @ xl_data x" "length pre"] by simp
  have two: "rd_lsn \<lparr>rd_buf = ?buf, rd_pos = length pre + 8\<rparr> = Ok (xl_wal_end x, \<lparr>rd_buf = ?buf, rd_pos = length pre + 16\<rparr>)"
    using run_reads [OF reads_ints(5), of ?buf "pre @ ?a" _ "?c @ xl_data x" "length pre + 8"] by simp
  have three: "rd_i64 \<lparr>rd_buf = ?buf, rd_pos = length pre + 16\<rparr> = Ok (xl_server_time x, \<lparr>rd_buf = ?buf, rd_pos = length pre + 24\<rparr>)"
    using run_reads [OF reads_ints(4), of ?buf "pre @ ?a @ ?b" _ "xl_data x" "length pre + 16"] by simp
  show ?thesis
    by (simp add: read_xlog_data_def rbind_def one two three rreturn_def read_rest_def rd_rest_def)
qed

lemma enc_repl_decodes: "repl_decode (enc_repl m) = Ok m"
proof (cases m)
  case (XLogData x)
  let ?w = "byte_of_char (CHR ''w'')"
  have tag: "rd_u8 (reader_new (enc_repl m)) = Ok (?w, \<lparr>rd_buf = enc_repl m, rd_pos = 1\<rparr>)"
    using run_reads [OF reads_u8, of "enc_repl m" "[]" ?w _ 0] XLogData by (simp add: reader_new_def)
  have "read_xlog_data \<lparr>rd_buf = enc_repl m, rd_pos = 1\<rparr> = Ok (x, \<lparr>rd_buf = enc_repl m, rd_pos = length (enc_repl m)\<rparr>)"
    using run_xlog_data [of "[?w]" x] XLogData by simp
  then show ?thesis using tag XLogData
    by (simp add: repl_decode_def rbind_def rreturn_def rd_remaining_def del: enc_repl.simps)
next
  case (PrimaryKeepalive k)
  let ?k = "byte_of_char (CHR ''k'')"
  have tag: "rd_u8 (reader_new (enc_repl m)) = Ok (?k, \<lparr>rd_buf = enc_repl m, rd_pos = 1\<rparr>)"
    using run_reads [OF reads_u8, of "enc_repl m" "[]" ?k _ 0] PrimaryKeepalive by (simp add: reader_new_def)
  have "read_keepalive \<lparr>rd_buf = enc_repl m, rd_pos = 1\<rparr> = Ok (k, \<lparr>rd_buf = enc_repl m, rd_pos = length (enc_repl m)\<rparr>)"
    using run_reads [OF reads_keepalive, of "enc_repl m" "[?k]" k "[]" 1] PrimaryKeepalive by simp
  then show ?thesis using tag PrimaryKeepalive
    by (simp add: repl_decode_def rbind_def rreturn_def rd_remaining_def del: enc_repl.simps)
qed

text \<open>The server's side of the feedback messages: the fields in the order of the protocol.\<close>

definition read_status :: "standby_status_update reading" where
  "read_status =
     rbind rd_u8 (\<lambda>tag. if tag \<noteq> byte_of_char (CHR ''r'') then rfail (UnknownMessage tag) else
     rbind rd_lsn (\<lambda>w. rbind rd_lsn (\<lambda>f. rbind rd_lsn (\<lambda>a. rbind rd_i64 (\<lambda>t. rbind rd_u8 (\<lambda>b.
       rreturn \<lparr>su_write_lsn = w, su_flush_lsn = f, su_apply_lsn = a, su_client_time = t,
                su_reply_requested = (b = 1)\<rparr>))))))"

definition read_feedback :: "hot_standby_feedback reading" where
  "read_feedback =
     rbind rd_u8 (\<lambda>tag. if tag \<noteq> byte_of_char (CHR ''h'') then rfail (UnknownMessage tag) else
     rbind rd_i64 (\<lambda>t. rbind rd_u32 (\<lambda>x. rbind rd_u32 (\<lambda>xe. rbind rd_u32 (\<lambda>c. rbind rd_u32 (\<lambda>ce.
       rreturn \<lparr>hf_client_time = t, hf_global_xmin = x, hf_global_xmin_epoch = xe, hf_catalog_xmin = c,
                hf_catalog_xmin_epoch = ce\<rparr>))))))"

lemmas repl_rules = reads_bind reads_bind_return reads_u8 reads_ints

lemma reads_status: "reads read_status (status_encode s) s"
  unfolding read_status_def status_encode_def
proof (rule reads_bind [OF reads_u8])
  let ?rest = "to_be_bytes64 (su_write_lsn s) @ to_be_bytes64 (su_flush_lsn s)
     @ to_be_bytes64 (su_apply_lsn s) @ to_be_bytes64 (su_client_time s) @ [bool_byte (su_reply_requested s)]"
  have "reads (rbind rd_lsn (\<lambda>w. rbind rd_lsn (\<lambda>f. rbind rd_lsn (\<lambda>a. rbind rd_i64 (\<lambda>t. rbind rd_u8 (\<lambda>b.
       rreturn \<lparr>su_write_lsn = w, su_flush_lsn = f, su_apply_lsn = a, su_client_time = t,
                su_reply_requested = (b = 1)\<rparr>)))))) ?rest s"
    by (rule repl_rules | (simp add: bool_byte_def; fail))+
  then show "reads (if byte_of_char (CHR ''r'') \<noteq> byte_of_char (CHR ''r'') then rfail (UnknownMessage (byte_of_char (CHR ''r''))) else
     rbind rd_lsn (\<lambda>w. rbind rd_lsn (\<lambda>f. rbind rd_lsn (\<lambda>a. rbind rd_i64 (\<lambda>t. rbind rd_u8 (\<lambda>b.
       rreturn \<lparr>su_write_lsn = w, su_flush_lsn = f, su_apply_lsn = a, su_client_time = t,
                su_reply_requested = (b = 1)\<rparr>)))))) ?rest s"
    by simp
qed

lemma reads_feedback: "reads read_feedback (feedback_encode f) f"
  unfolding read_feedback_def feedback_encode_def
proof (rule reads_bind [OF reads_u8])
  let ?rest = "to_be_bytes64 (hf_client_time f) @ to_be_bytes32 (hf_global_xmin f)
     @ to_be_bytes32 (hf_global_xmin_epoch f) @ to_be_bytes32 (hf_catalog_xmin f) @ to_be_bytes32 (hf_catalog_xmin_epoch f)"
  have "reads (rbind rd_i64 (\<lambda>t. rbind rd_u32 (\<lambda>x. rbind rd_u32 (\<lambda>xe. rbind rd_u32 (\<lambda>c. rbind rd_u32 (\<lambda>ce.
       rreturn \<lparr>hf_client_time = t, hf_global_xmin = x, hf_global_xmin_epoch = xe, hf_catalog_xmin = c,
                hf_catalog_xmin_epoch = ce\<rparr>)))))) ?rest f"
    by (rule repl_rules | (simp; fail))+
  then show "reads (if byte_of_char (CHR ''h'') \<noteq> byte_of_char (CHR ''h'') then rfail (UnknownMessage (byte_of_char (CHR ''h''))) else
     rbind rd_i64 (\<lambda>t. rbind rd_u32 (\<lambda>x. rbind rd_u32 (\<lambda>xe. rbind rd_u32 (\<lambda>c. rbind rd_u32 (\<lambda>ce.
       rreturn \<lparr>hf_client_time = t, hf_global_xmin = x, hf_global_xmin_epoch = xe, hf_catalog_xmin = c,
                hf_catalog_xmin_epoch = ce\<rparr>)))))) ?rest f"
    by simp
qed

section \<open>Properties\<close>

text \<open>Both directions of the replication stream agree with the protocol's field order: the server's
  messages are read back whatever payload they carry, and the client's status updates and hot-standby
  feedback, of 34 and 25 bytes, are read back by a reader of the protocol.\<close>

theorem repl_stream_roundtrip:
  "repl_decode (enc_repl m) = Ok m
   \<and> reads read_status (status_encode s) s \<and> length (status_encode s) = 34
   \<and> reads read_feedback (feedback_encode f) f \<and> length (feedback_encode f) = 25"
  by (simp add: enc_repl_decodes reads_status reads_feedback) (simp add: status_encode_def feedback_encode_def)

end
