(* ===== verification/Keyspace_Filter.thy ===== *)
theory Keyspace_Filter
  imports Pgoutput Shardfn
begin

text \<open>
  The keyspace filter of a reshard (\<open>pgshard-repl/src/filter.rs\<close>): which replicated rows belong to a
  target range. The digest is the parameter \<open>xxh64\<close> of the shard function.
\<close>

section \<open>Definitions\<close>

datatype filter_error =
    NoShardKeyColumn string
  | ColumnOutOfRange nat nat
  | UnroutableCell
  | BinaryCell
  | FilterInvalidUtf8
  | Uncoercible string scalar_type

definition shard_key_index :: "relation_msg \<Rightarrow> string \<Rightarrow> filter_error + nat" where
  "shard_key_index rel shard_key_column =
     ok_or (NoShardKeyColumn shard_key_column)
       (position (\<lambda>c. rc_name c = shard_key_column) (re_columns rel))"

definition text_keyspace_id ::
    "(bytes \<Rightarrow> u64 \<Rightarrow> u64) \<Rightarrow> string \<Rightarrow> scalar_type \<Rightarrow> shard_fn \<Rightarrow> filter_error + keyspace_id" where
  "text_keyspace_id xxh64 text shard_key_type shard_fn =
     bind_res (ok_or (Uncoercible text shard_key_type) (coerce shard_key_type (Text text)))
       (\<lambda>canonical. Ok (keyspace_id xxh64 shard_fn canonical))"

definition cell_keyspace_id ::
    "(bytes \<Rightarrow> u64 \<Rightarrow> u64) \<Rightarrow> tuple_column \<Rightarrow> scalar_type \<Rightarrow> shard_fn \<Rightarrow> filter_error + keyspace_id" where
  "cell_keyspace_id xxh64 cell shard_key_type shard_fn =
     bind_res
       (case cell of
          ColText bs \<Rightarrow> Ok bs
        | ColBinary _ \<Rightarrow> Err BinaryCell
        | ColNull \<Rightarrow> Err UnroutableCell
        | UnchangedToast \<Rightarrow> Err UnroutableCell)
       (\<lambda>bs. bind_res (ok_or FilterInvalidUtf8 (from_utf8 bs))
          (\<lambda>text. text_keyspace_id xxh64 text shard_key_type shard_fn))"

definition tuple_keyspace_id ::
    "(bytes \<Rightarrow> u64 \<Rightarrow> u64) \<Rightarrow> tuple_data \<Rightarrow> nat \<Rightarrow> scalar_type \<Rightarrow> shard_fn \<Rightarrow> filter_error + keyspace_id" where
  "tuple_keyspace_id xxh64 tuple index shard_key_type shard_fn =
     bind_res (ok_or (ColumnOutOfRange index (length (tp_columns tuple))) (nth_opt (tp_columns tuple) index))
       (\<lambda>cell. cell_keyspace_id xxh64 cell shard_key_type shard_fn)"

definition tuple_in_range ::
    "(bytes \<Rightarrow> u64 \<Rightarrow> u64) \<Rightarrow> tuple_data \<Rightarrow> nat \<Rightarrow> scalar_type \<Rightarrow> shard_fn \<Rightarrow> key_range \<Rightarrow> filter_error + bool" where
  "tuple_in_range xxh64 tuple index shard_key_type shard_fn rng =
     bind_res (tuple_keyspace_id xxh64 tuple index shard_key_type shard_fn)
       (\<lambda>key. Ok (contains rng key))"

section \<open>Properties\<close>



end
