(* ===== verification/Sql_Text.thy ===== *)
theory Sql_Text
  imports Prelude
begin

text \<open>
  The SQL text the replication code builds: quoting of identifiers and literals
  (\<open>quote_ident\<close> of \<open>apply.rs\<close> and \<open>copy.rs\<close>, \<open>quote_literal\<close> of \<open>apply.rs\<close>) and \<open>[String]::join\<close>. A lexer
  of PostgreSQL's quoting rules (with \<open>standard_conforming_strings\<close> on, which the applier sets) is the
  reference: a quoted name or value is one token, whatever characters it contains.
\<close>

section \<open>Definitions\<close>

abbreviation dquote :: char where "dquote \<equiv> CHR 0x22"
abbreviation squote :: char where "squote \<equiv> CHR 0x27"

text \<open>\<open>str::replace(q, "qq")\<close> for a character \<open>q\<close>.\<close>

definition double_char :: "char \<Rightarrow> string \<Rightarrow> string" where
  "double_char q s = concat (map (\<lambda>c. if c = q then [q, q] else [c]) s)"

definition quote_ident :: "string \<Rightarrow> string" where
  "quote_ident name = [dquote] @ double_char dquote name @ [dquote]"

definition quote_literal :: "string \<Rightarrow> string" where
  "quote_literal value = [squote] @ double_char squote value @ [squote]"

fun join :: "string \<Rightarrow> string list \<Rightarrow> string" where
  "join sep [] = []"
| "join sep [x] = x"
| "join sep (x # y # ys) = x @ sep @ join sep (y # ys)"

section \<open>The lexer\<close>

datatype sql_token = Word string | QIdent string | QLit string | Sym char

datatype lex_mode = Plain | InWord string | InQuote char string | AfterQuote char string

definition quoted :: "char \<Rightarrow> string \<Rightarrow> sql_token" where
  "quoted q w = (if q = dquote then QIdent w else QLit w)"

definition word_char :: "char \<Rightarrow> bool" where
  "word_char c \<longleftrightarrow> c \<in> set ''ABCDEFGHIJKLMNOPQRSTUVWXYZabcdefghijklmnopqrstuvwxyz0123456789_''"

definition lex_plain :: "sql_token list \<Rightarrow> char \<Rightarrow> sql_token list \<times> lex_mode" where
  "lex_plain ts c =
     (if c = CHR '' '' then (ts, Plain)
      else if word_char c then (ts, InWord [c])
      else if c = dquote \<or> c = squote then (ts, InQuote c [])
      else (ts @ [Sym c], Plain))"

fun lex_step :: "sql_token list \<times> lex_mode \<Rightarrow> char \<Rightarrow> sql_token list \<times> lex_mode" where
  "lex_step (ts, Plain) c = lex_plain ts c"
| "lex_step (ts, InWord w) c = (if word_char c then (ts, InWord (w @ [c])) else lex_plain (ts @ [Word w]) c)"
| "lex_step (ts, InQuote q w) c = (if c = q then (ts, AfterQuote q w) else (ts, InQuote q (w @ [c])))"
| "lex_step (ts, AfterQuote q w) c =
     (if c = q then (ts, InQuote q (w @ [q])) else lex_plain (ts @ [quoted q w]) c)"

fun lex_finish :: "sql_token list \<times> lex_mode \<Rightarrow> sql_token list option" where
  "lex_finish (ts, Plain) = Some ts"
| "lex_finish (ts, InWord w) = Some (ts @ [Word w])"
| "lex_finish (ts, InQuote q w) = None"
| "lex_finish (ts, AfterQuote q w) = Some (ts @ [quoted q w])"

definition sql_lex :: "string \<Rightarrow> sql_token list option" where
  "sql_lex s = lex_finish (foldl lex_step ([], Plain) s)"

section \<open>Quoting is safe\<close>

lemma lex_doubled:
  "foldl lex_step (ts, InQuote q w) (double_char q s) = (ts, InQuote q (w @ s))"
proof (induction s arbitrary: w)
  case (Cons c s)
  show ?case
  proof (cases "c = q")
    case True
    then have "foldl lex_step (ts, InQuote q w) (double_char q (c # s))
        = foldl lex_step (ts, InQuote q (w @ [q])) (double_char q s)"
      by (simp add: double_char_def)
    then show ?thesis using Cons True by simp
  next
    case False
    then have "foldl lex_step (ts, InQuote q w) (double_char q (c # s))
        = foldl lex_step (ts, InQuote q (w @ [c])) (double_char q s)"
      by (simp add: double_char_def)
    then show ?thesis using Cons by simp
  qed
qed (simp add: double_char_def)

named_theorems sql_lexing \<open>how pieces of SQL text are read\<close>

lemma lex_ident: "foldl lex_step (ts, Plain) (quote_ident s) = (ts, AfterQuote dquote s)"
  by (simp add: quote_ident_def lex_plain_def word_char_def lex_doubled)

lemma lex_literal: "foldl lex_step (ts, Plain) (quote_literal s) = (ts, AfterQuote squote s)"
  by (simp add: quote_literal_def lex_plain_def word_char_def lex_doubled)

text \<open>A piece of text is read as some tokens by whatever plain character follows, and a separator ends
  the token before it and leaves the lexer between tokens.\<close>

definition ends_token :: "sql_token list \<times> lex_mode \<Rightarrow> sql_token list \<Rightarrow> bool" where
  "ends_token m ts \<longleftrightarrow> lex_finish m = Some ts
     \<and> list_all (\<lambda>c. lex_step m c = lex_plain ts c) [CHR '' '', CHR '','', CHR '')'', CHR ''.'']"

definition lexes_to :: "string \<Rightarrow> sql_token list \<Rightarrow> bool" where
  "lexes_to s new \<longleftrightarrow> (\<forall>ts. ends_token (foldl lex_step (ts, Plain) s) (ts @ new))"

definition sep_reads :: "string \<Rightarrow> sql_token list \<Rightarrow> bool" where
  "sep_reads sep new \<longleftrightarrow> (\<forall>m ts. ends_token m ts \<longrightarrow> foldl lex_step m sep = (ts @ new, Plain))"

lemma lexes_Nil [sql_lexing]: "lexes_to [] []"
  by (simp add: lexes_to_def ends_token_def)

lemma lexes_ident [sql_lexing]: "lexes_to (quote_ident s) [QIdent s]"
  by (auto simp: lexes_to_def ends_token_def lex_ident quoted_def)

lemma lexes_literal [sql_lexing]: "lexes_to (quote_literal s) [QLit s]"
  by (auto simp: lexes_to_def ends_token_def lex_literal quoted_def)

lemma lexes_sep [sql_lexing]:
  "lexes_to a x \<Longrightarrow> sep_reads sep t \<Longrightarrow> lexes_to b y \<Longrightarrow> lexes_to (a @ sep @ b) (x @ t @ y)"
  unfolding lexes_to_def sep_reads_def by (metis append.assoc foldl_append)

lemma sql_lex_lexes: "lexes_to s new \<Longrightarrow> sql_lex s = Some new"
  unfolding lexes_to_def sql_lex_def ends_token_def by (metis append_Nil)

fun sep_tokens :: "sql_token \<Rightarrow> sql_token list list \<Rightarrow> sql_token list" where
  "sep_tokens t [] = []"
| "sep_tokens t [x] = x"
| "sep_tokens t (x # y # ys) = x @ t # sep_tokens t (y # ys)"

lemma lexes_join [sql_lexing]:
  assumes "list_all2 lexes_to ss tss" and "sep_reads sep [t]"
  shows "lexes_to (join sep ss) (sep_tokens t tss)"
  using assms(1)
proof (induction ss arbitrary: tss rule: induct_list012)
  case (3 x y ys)
  then obtain u v us where tss: "tss = u # v # us" and x: "lexes_to x u" and rest: "list_all2 lexes_to (y # ys) (v # us)"
    by (auto simp: list_all2_Cons1)
  show ?case using lexes_sep [OF x assms(2) "3.IH"(2) [OF rest]] by (simp add: tss)
qed (auto simp: list_all2_Cons1 lexes_Nil)

text \<open>The fixed text of the applier's statements.\<close>

lemma sep_readsI:
  assumes "\<And>ts. foldl lex_step (lex_plain ts c) cs = (ts @ new, Plain)"
    and "c \<in> {CHR '' '', CHR '','', CHR '')'', CHR ''.''}"
  shows "sep_reads (c # cs) new"
  using assms by (auto simp: sep_reads_def ends_token_def)

lemma lead_readsI:
  assumes "\<And>ts. foldl lex_step (ts, Plain) lead = (ts @ t, Plain)" and "lexes_to b y"
  shows "lexes_to (lead @ b) (t @ y)"
  using assms unfolding lexes_to_def by simp (metis append.assoc)

lemma applier_separators [sql_lexing]:
  "sep_reads '', '' [Sym (CHR '','')]" "sep_reads '' AND '' [Word ''AND'']" "sep_reads '' = '' [Sym (CHR ''='')]"
  "sep_reads ''.'' [Sym (CHR ''.'')]" "sep_reads '' ('' [Sym (CHR ''('')]"
  "sep_reads '') VALUES ('' [Sym (CHR '')''), Word ''VALUES'', Sym (CHR ''('')]"
  "sep_reads '' SET '' [Word ''SET'']" "sep_reads '' WHERE '' [Word ''WHERE'']" "sep_reads '')'' [Sym (CHR '')'')]"
  by (rule sep_readsI; simp add: lex_plain_def word_char_def)+

lemma applier_leads:
  "foldl lex_step (ts, Plain) ''INSERT INTO '' = (ts @ [Word ''INSERT'', Word ''INTO''], Plain)"
  "foldl lex_step (ts, Plain) ''UPDATE '' = (ts @ [Word ''UPDATE''], Plain)"
  "foldl lex_step (ts, Plain) ''DELETE FROM '' = (ts @ [Word ''DELETE'', Word ''FROM''], Plain)"
  by (simp_all add: lex_plain_def word_char_def)

lemma lexes_null: "lexes_to ''NULL'' [Word ''NULL'']"
  by (simp add: lexes_to_def ends_token_def lex_plain_def word_char_def)

end
