(* ===== verification/Copy.thy ===== *)
theory Copy
  imports Keyspace_Filter Sql_Text
begin

text \<open>
  The filtered snapshot copy of a reshard (\<open>pgshard-repl/src/copy.rs\<close>). The database driver is outside
  the model: what each call on the source and target connections returns is a field of \<open>copy_env\<close>, and
  the statements sent are logged. The text of \<open>Malformed\<close> errors is kept as data.
\<close>

section \<open>Definitions\<close>

datatype malformed = NoFinalTerminator | FewerColumns nat

datatype copy_error =
    CopySource string
  | CopyTarget string
  | CopyFilter filter_error
  | CopyNoShardKeyColumn string
  | CopyMalformed malformed
  | BadSnapshot string

record copy_spec =
  cs_schema :: string
  cs_table :: string
  cs_columns :: "string list"
  cs_shard_key_column :: string
  cs_shard_key_type :: scalar_type
  cs_target_range :: key_range

abbreviation newline :: u8 where "newline \<equiv> 10"
abbreviation tab :: u8 where "tab \<equiv> 9"
abbreviation backslash :: u8 where "backslash \<equiv> 92"

definition unescape_char :: "u8 \<Rightarrow> u8" where
  "unescape_char b =
     (if b = byte_of_char (CHR ''b'') then 8
      else if b = byte_of_char (CHR ''f'') then 12
      else if b = byte_of_char (CHR ''n'') then 10
      else if b = byte_of_char (CHR ''r'') then 13
      else if b = byte_of_char (CHR ''t'') then 9
      else if b = byte_of_char (CHR ''v'') then 11
      else if b = backslash then backslash
      else b)"

fun unescape_loop :: "bytes \<Rightarrow> bytes" where
  "unescape_loop [] = []"
| "unescape_loop [b] = [b]"
| "unescape_loop (b # c # bs) =
     (if b = backslash then unescape_char c # unescape_loop bs else b # unescape_loop (c # bs))"

definition copy_field_unescape :: "bytes \<Rightarrow> bytes option" where
  "copy_field_unescape field =
     (if field = [backslash, byte_of_char (CHR ''N'')] then None else Some (unescape_loop field))"

text \<open>\<open>slice::split\<close> at a separator byte.\<close>

fun split_bytes :: "u8 \<Rightarrow> bytes \<Rightarrow> bytes list" where
  "split_bytes sep [] = [[]]"
| "split_bytes sep (b # bs) =
     (if b = sep then [] # split_bytes sep bs
      else (case split_bytes sep bs of f # fs \<Rightarrow> (b # f) # fs | [] \<Rightarrow> [[b]]))"

definition strip_newline :: "bytes \<Rightarrow> bytes" where
  "strip_newline row = (if row \<noteq> [] \<and> last row = newline then butlast row else row)"

definition row_in_range ::
    "(bytes \<Rightarrow> u64 \<Rightarrow> u64) \<Rightarrow> bytes \<Rightarrow> nat \<Rightarrow> copy_spec \<Rightarrow> shard_fn \<Rightarrow> copy_error + bool" where
  "row_in_range xxh64 row key_index spec shard_fn =
     (let line = strip_newline row in
      bind_res (ok_or (CopyMalformed (FewerColumns (key_index + 1))) (nth_opt (split_bytes tab line) key_index)) (\<lambda>field.
      bind_res (ok_or (CopyFilter UnroutableCell) (copy_field_unescape field)) (\<lambda>value.
      bind_res (ok_or (CopyFilter FilterInvalidUtf8) (from_utf8 value)) (\<lambda>text.
      bind_res (map_err CopyFilter (text_keyspace_id xxh64 text (cs_shard_key_type spec) shard_fn)) (\<lambda>key.
        Ok (contains (cs_target_range spec) key))))))"

subsection \<open>Streaming\<close>

record copy_env =
  ce_src_begin :: "string + unit"
  ce_src_setup :: "string + unit"
  ce_tgt_setup :: "string + unit"
  ce_copy_out :: "string + (string + bytes) list"
  ce_copy_in :: "string + unit"
  ce_send :: "nat \<Rightarrow> string + unit"
  ce_finish :: "string + unit"
  ce_commit :: "string + unit"

text \<open>The inner loop: forward every complete row of the buffer. It returns the rest of the buffer and
  the rows sent so far.\<close>

function drain_rows ::
    "(bytes \<Rightarrow> u64 \<Rightarrow> u64) \<Rightarrow> copy_env \<Rightarrow> nat \<Rightarrow> copy_spec \<Rightarrow> shard_fn \<Rightarrow> bytes \<Rightarrow> bytes list
     \<Rightarrow> bytes \<times> bytes list \<times> (copy_error + unit)" where
  "drain_rows xxh64 env key_index spec shard_fn buf sent =
     (case position (\<lambda>b. b = newline) buf of
        None \<Rightarrow> (buf, sent, Ok ())
      | Some nl \<Rightarrow>
          let row = take (nl + 1) buf; buf = drop (nl + 1) buf in
          (case row_in_range xxh64 row key_index spec shard_fn of
             Err e \<Rightarrow> (buf, sent, Err e)
           | Ok True \<Rightarrow>
               (case ce_send env (length sent) of
                  Err e \<Rightarrow> (buf, sent, Err (CopyTarget e))
                | Ok _ \<Rightarrow> drain_rows xxh64 env key_index spec shard_fn buf (sent @ [row]))
           | Ok False \<Rightarrow> drain_rows xxh64 env key_index spec shard_fn buf sent))"
  by pat_completeness auto
termination
  by (relation "measure (\<lambda>(xxh64, env, key_index, spec, shard_fn, buf, sent). length buf)")
    (auto simp: position_Some)

fun stream_chunks ::
    "(bytes \<Rightarrow> u64 \<Rightarrow> u64) \<Rightarrow> copy_env \<Rightarrow> nat \<Rightarrow> copy_spec \<Rightarrow> shard_fn \<Rightarrow> (string + bytes) list \<Rightarrow> bytes
     \<Rightarrow> bytes list \<Rightarrow> bytes \<times> bytes list \<times> (copy_error + unit)" where
  "stream_chunks xxh64 env key_index spec shard_fn [] buf sent = (buf, sent, Ok ())"
| "stream_chunks xxh64 env key_index spec shard_fn (chunk # chunks) buf sent =
     (case chunk of
        Err e \<Rightarrow> (buf, sent, Err (CopySource e))
      | Ok bs \<Rightarrow>
          (case drain_rows xxh64 env key_index spec shard_fn (buf @ bs) sent of
             (buf, sent, Err e) \<Rightarrow> (buf, sent, Err e)
           | (buf, sent, Ok _) \<Rightarrow> stream_chunks xxh64 env key_index spec shard_fn chunks buf sent))"

definition stream_filtered ::
    "(bytes \<Rightarrow> u64 \<Rightarrow> u64) \<Rightarrow> copy_env \<Rightarrow> nat \<Rightarrow> copy_spec \<Rightarrow> shard_fn \<Rightarrow> bytes list \<times> (copy_error + nat)" where
  "stream_filtered xxh64 env key_index spec shard_fn =
     (case ce_copy_out env of
        Err e \<Rightarrow> ([], Err (CopySource e))
      | Ok chunks \<Rightarrow>
          (case ce_copy_in env of
             Err e \<Rightarrow> ([], Err (CopyTarget e))
           | Ok _ \<Rightarrow>
               (case stream_chunks xxh64 env key_index spec shard_fn chunks [] [] of
                  (_, sent, Err e) \<Rightarrow> (sent, Err e)
                | (buf, sent, Ok _) \<Rightarrow>
                    if buf \<noteq> [] then (sent, Err (CopyMalformed NoFinalTerminator))
                    else (case ce_finish env of
                            Err e \<Rightarrow> (sent, Err (CopyTarget e))
                          | Ok _ \<Rightarrow> (sent, Ok (length sent))))))"

subsection \<open>The whole copy\<close>

datatype copy_stmt = OnSource string | OnTarget string

definition source_begin :: string where
  "source_begin = ''BEGIN ISOLATION LEVEL REPEATABLE READ READ ONLY''"

definition source_setup :: "string \<Rightarrow> string" where
  "source_setup snapshot =
     ''SET TRANSACTION SNAPSHOT '' @ [squote] @ snapshot @ [squote] @ ''; SET LOCAL row_security = off; '' @
     ''SET LOCAL bytea_output = '' @ quote_literal ''hex'' @ ''; SET LOCAL DateStyle = '' @ quote_literal ''ISO'' @
     ''; SET LOCAL IntervalStyle = '' @ quote_literal ''postgres'' @ ''; SET LOCAL extra_float_digits = 3''"

definition target_setup :: string where
  "target_setup = ''BEGIN; SET LOCAL session_replication_role = replica; SET LOCAL DateStyle = '' @
     quote_literal ''ISO'' @ ''; SET LOCAL IntervalStyle = '' @ quote_literal ''postgres''"

definition copy_to :: "copy_spec \<Rightarrow> string" where
  "copy_to spec = ''COPY '' @ quote_ident (cs_schema spec) @ ''.'' @ quote_ident (cs_table spec) @ '' ('' @
     join '', '' (map quote_ident (cs_columns spec)) @ '') TO STDOUT''"

definition copy_from :: "copy_spec \<Rightarrow> string" where
  "copy_from spec = ''COPY '' @ quote_ident (cs_schema spec) @ ''.'' @ quote_ident (cs_table spec) @ '' ('' @
     join '', '' (map quote_ident (cs_columns spec)) @ '') FROM STDIN''"

definition snapshot_ok :: "string \<Rightarrow> bool" where
  "snapshot_ok snapshot \<longleftrightarrow> snapshot \<noteq> [] \<and> list_all (\<lambda>c. is_ascii_hexdigit c \<or> c = CHR ''-'') snapshot"

text \<open>The target transaction, from its setup to its end: statements sent, rows sent, result.\<close>

definition copy_target ::
    "(bytes \<Rightarrow> u64 \<Rightarrow> u64) \<Rightarrow> copy_env \<Rightarrow> nat \<Rightarrow> copy_spec \<Rightarrow> shard_fn
     \<Rightarrow> copy_stmt list \<times> bytes list \<times> (copy_error + nat)" where
  "copy_target xxh64 env key_index spec shard_fn =
     (case ce_tgt_setup env of
        Err e \<Rightarrow> ([OnTarget target_setup, OnTarget ''ROLLBACK''], [], Err (CopyTarget e))
      | Ok _ \<Rightarrow>
          (case stream_filtered xxh64 env key_index spec shard_fn of
             (sent, Ok n) \<Rightarrow>
               ([OnTarget target_setup, OnSource (copy_to spec), OnTarget (copy_from spec), OnTarget ''COMMIT''], sent,
                map_err CopyTarget (bind_res (ce_commit env) (\<lambda>_. Ok n)))
           | (sent, Err e) \<Rightarrow>
               ([OnTarget target_setup, OnSource (copy_to spec)]
                @ (if is_ok (ce_copy_out env) then [OnTarget (copy_from spec)] else [])
                @ [OnTarget ''ROLLBACK''], sent, Err e)))"

definition copy_filtered ::
    "(bytes \<Rightarrow> u64 \<Rightarrow> u64) \<Rightarrow> copy_env \<Rightarrow> string \<Rightarrow> copy_spec \<Rightarrow> shard_fn
     \<Rightarrow> copy_stmt list \<times> bytes list \<times> (copy_error + nat)" where
  "copy_filtered xxh64 env snapshot spec shard_fn =
     (if \<not> snapshot_ok snapshot then ([], [], Err (BadSnapshot snapshot))
      else (case position (\<lambda>c. c = cs_shard_key_column spec) (cs_columns spec) of
          None \<Rightarrow> ([], [], Err (CopyNoShardKeyColumn (cs_shard_key_column spec)))
        | Some key_index \<Rightarrow>
            (case ce_src_begin env of
               Err e \<Rightarrow> ([OnSource source_begin], [], Err (CopySource e))
             | Ok _ \<Rightarrow>
                 let (log, sent, result) =
                   (case ce_src_setup env of
                      Ok _ \<Rightarrow> copy_target xxh64 env key_index spec shard_fn
                    | Err e \<Rightarrow> ([], [], Err (CopySource e)))
                 in ([OnSource source_begin, OnSource (source_setup snapshot)] @ log @ [OnSource ''ROLLBACK''],
                     sent, result))))"

section \<open>The COPY text format\<close>

text \<open>What \<open>COPY TO\<close> writes: the letter escapes and the doubled backslash, \<open>\N\<close> for NULL, tabs between
  the fields of a row and a newline after it.\<close>

definition escape_byte :: "u8 \<Rightarrow> bytes" where
  "escape_byte b =
     (if b = 8 then [backslash, 98] else if b = 12 then [backslash, 102] else if b = 10 then [backslash, 110]
      else if b = 13 then [backslash, 114] else if b = 9 then [backslash, 116] else if b = 11 then [backslash, 118]
      else if b = backslash then [backslash, backslash] else [b])"

definition escape :: "bytes \<Rightarrow> bytes" where
  "escape v = concat (map escape_byte v)"

fun copy_field :: "tuple_column \<Rightarrow> bytes" where
  "copy_field (ColText v) = escape v"
| "copy_field (ColBinary v) = escape v"
| "copy_field ColNull = [backslash, 78]"
| "copy_field UnchangedToast = [backslash, 78]"

fun join_fields :: "bytes list \<Rightarrow> bytes" where
  "join_fields [] = []"
| "join_fields [f] = f"
| "join_fields (f # g # fs) = f @ tab # join_fields (g # fs)"

definition copy_row :: "tuple_data \<Rightarrow> bytes" where
  "copy_row t = join_fields (map copy_field (tp_columns t)) @ [newline]"

lemma letter_bytes:
  "byte_of_char (CHR ''b'') = 98" "byte_of_char (CHR ''f'') = 102" "byte_of_char (CHR ''n'') = 110"
  "byte_of_char (CHR ''r'') = 114" "byte_of_char (CHR ''t'') = 116" "byte_of_char (CHR ''v'') = 118"
  "byte_of_char (CHR ''N'') = 78"
  by (simp_all add: byte_of_char_def)

lemma unescape_loop_plain: "b \<noteq> backslash \<Longrightarrow> unescape_loop (b # bs) = b # unescape_loop bs"
  by (cases bs) simp_all

lemma unescape_escape_byte: "unescape_loop (escape_byte b @ bs) = b # unescape_loop bs"
  by (auto simp: escape_byte_def unescape_char_def letter_bytes unescape_loop_plain)

lemma unescape_escape: "unescape_loop (escape v) = v"
  by (induction v) (simp_all add: escape_def unescape_escape_byte)

lemma escape_byte_cases:
  "escape_byte b = [b] \<and> b \<noteq> backslash \<and> b \<noteq> 9 \<and> b \<noteq> 10 \<or>
   (\<exists>c. escape_byte b = [backslash, c] \<and> c \<noteq> 78 \<and> c \<noteq> 9 \<and> c \<noteq> 10)"
  by (auto simp: escape_byte_def)

lemma escape_not_null: "escape v \<noteq> [backslash, 78]"
proof (cases v)
  case (Cons b bs)
  then show ?thesis using escape_byte_cases [of b] by (auto simp: escape_def)
qed (simp add: escape_def)

lemma escape_clean: "9 \<notin> set (escape v)" "10 \<notin> set (escape v)"
proof -
  have "9 \<notin> set (escape_byte b) \<and> 10 \<notin> set (escape_byte b)" for b
    using escape_byte_cases [of b] by auto
  then show "9 \<notin> set (escape v)" "10 \<notin> set (escape v)" by (auto simp: escape_def)
qed

lemma copy_field_clean: "9 \<notin> set (copy_field c)" "10 \<notin> set (copy_field c)"
  by (cases c; simp add: escape_clean)+

lemma copy_field_unescape_field:
  "copy_field_unescape (escape v) = Some v"
  "copy_field_unescape [backslash, 78] = None"
  by (simp_all add: copy_field_unescape_def letter_bytes escape_not_null unescape_escape)

section \<open>Splitting\<close>

lemma split_bytes_not_Nil [simp]: "split_bytes sep bs \<noteq> []"
  by (induction bs) (auto split: list.splits)

lemma split_bytes_clean: "sep \<notin> set f \<Longrightarrow> split_bytes sep f = [f]"
  by (induction f) auto

lemma split_bytes_first: "sep \<notin> set f \<Longrightarrow> split_bytes sep (f @ sep # bs) = f # split_bytes sep bs"
  by (induction f) auto

lemma split_bytes_append:
  "split_bytes sep (a @ b) = butlast (split_bytes sep a) @ split_bytes sep (last (split_bytes sep a) @ b)"
proof (induction a)
  case (Cons x a)
  obtain f fs where a: "split_bytes sep a = f # fs" by (cases "split_bytes sep a") auto
  show ?case
  proof (cases "x = sep")
    case False
    then show ?thesis using Cons.IH a by (cases fs) auto
  qed (use Cons.IH in simp)
qed simp

lemma split_bytes_parts: "\<forall>f \<in> set (split_bytes sep bs). sep \<notin> set f"
  by (induction bs) (auto split: list.splits)

lemma split_join_fields:
  "fs \<noteq> [] \<Longrightarrow> \<forall>f \<in> set fs. 9 \<notin> set f \<Longrightarrow> split_bytes tab (join_fields fs) = fs"
  by (induction fs rule: join_fields.induct) (simp_all add: split_bytes_clean split_bytes_first)

lemma join_fields_no_newline: "\<forall>f \<in> set fs. 10 \<notin> set f \<Longrightarrow> 10 \<notin> set (join_fields fs)"
  by (induction fs rule: join_fields.induct) simp_all

lemma strip_newline_snoc [simp]: "strip_newline (l @ [newline]) = l"
  by (simp add: strip_newline_def)

lemma is_ok_map_err [simp]: "is_ok (map_err g r) = is_ok r"
  by (cases r) simp_all

text \<open>The seam: a copied row is judged like the streamed row.\<close>

definition shipped :: "tuple_column \<Rightarrow> bool" where
  "shipped c \<longleftrightarrow> (case c of ColText _ \<Rightarrow> True | ColNull \<Rightarrow> True | _ \<Rightarrow> False)"

lemma row_in_range_copy_row:
  assumes i: "i < length (tp_columns t)" and sh: "shipped (tp_columns t ! i)"
  shows "row_in_range xxh64 (copy_row t) i spec f =
    map_err CopyFilter (tuple_in_range xxh64 t i (cs_shard_key_type spec) f (cs_target_range spec))"
proof -
  have "split_bytes tab (join_fields (map copy_field (tp_columns t))) = map copy_field (tp_columns t)"
    by (rule split_join_fields) (use i in \<open>auto simp: copy_field_clean\<close>)
  then have field: "nth_opt (split_bytes tab (strip_newline (copy_row t))) i = Some (copy_field (tp_columns t ! i))"
    using i by (simp add: copy_row_def nth_opt_def)
  have stream: "tuple_in_range xxh64 t i ty f rng =
      bind_res (cell_keyspace_id xxh64 (tp_columns t ! i) ty f) (\<lambda>key. Ok (contains rng key))" for ty rng
    using i by (simp add: tuple_in_range_def tuple_keyspace_id_def nth_opt_def)
  show ?thesis
    unfolding row_in_range_def Let_def field stream using sh
    by (auto simp: shipped_def copy_field_unescape_field cell_keyspace_id_def bind_res_def ok_or_def map_err_def
        split: tuple_column.splits option.splits sum.splits)
qed

section \<open>Chunking independence\<close>

fun forward_rows ::
    "(bytes \<Rightarrow> u64 \<Rightarrow> u64) \<Rightarrow> copy_env \<Rightarrow> nat \<Rightarrow> copy_spec \<Rightarrow> shard_fn \<Rightarrow> bytes list \<Rightarrow> bytes list
     \<Rightarrow> bytes list \<times> (copy_error + unit)" where
  "forward_rows xxh64 env i spec f [] sent = (sent, Ok ())"
| "forward_rows xxh64 env i spec f (l # ls) sent =
     (case row_in_range xxh64 (l @ [newline]) i spec f of
        Err e \<Rightarrow> (sent, Err e)
      | Ok True \<Rightarrow>
          (case ce_send env (length sent) of
             Err e \<Rightarrow> (sent, Err (CopyTarget e))
           | Ok _ \<Rightarrow> forward_rows xxh64 env i spec f ls (sent @ [l @ [newline]]))
      | Ok False \<Rightarrow> forward_rows xxh64 env i spec f ls sent)"

declare drain_rows.simps [simp del]

lemma split_at_newline:
  "position (\<lambda>b. b = newline) buf = Some nl \<Longrightarrow>
   split_bytes newline buf = take nl buf # split_bytes newline (drop (nl + 1) buf) \<and> take (nl + 1) buf = take nl buf @ [newline]"
proof -
  assume "position (\<lambda>b. b = newline) buf = Some nl"
  then have nl: "nl < length buf" "buf ! nl = newline" "\<forall>j < nl. buf ! j \<noteq> newline"
    by (auto simp: position_Some)
  have clean: "newline \<notin> set (take nl buf)" using nl by (auto simp: in_set_conv_nth)
  have buf: "buf = take nl buf @ newline # drop (nl + 1) buf" using nl id_take_nth_drop by fastforce
  then have "split_bytes newline buf = take nl buf # split_bytes newline (drop (nl + 1) buf)"
    using split_bytes_first [OF clean] by metis
  then show ?thesis using nl by (simp add: take_Suc_conv_app_nth)
qed

lemma drain_rows_forward:
  "snd (drain_rows xxh64 env i spec f buf sent) = forward_rows xxh64 env i spec f (butlast (split_bytes newline buf)) sent
   \<and> (is_ok (snd (snd (drain_rows xxh64 env i spec f buf sent)))
      \<longrightarrow> fst (drain_rows xxh64 env i spec f buf sent) = last (split_bytes newline buf))"
proof (induction xxh64 env i spec f buf sent rule: drain_rows.induct)
  case (1 xxh64 env i spec f buf sent)
  show ?case
  proof (cases "position (\<lambda>b. b = newline) buf")
    case None
    then have "newline \<notin> set buf" by (auto simp: position_None)
    then show ?thesis using None by (subst (1 2 3) drain_rows.simps) (simp add: split_bytes_clean)
  next
    case (Some nl)
    note sp = split_at_newline [OF Some]
    show ?thesis
      using 1 [OF Some refl refl] sp Some
      by (subst (1 2 3) drain_rows.simps) (auto simp: Let_def split: sum.splits bool.splits)
  qed
qed

lemma forward_rows_append:
  "forward_rows xxh64 env i spec f (ls @ ms) sent =
   (case forward_rows xxh64 env i spec f ls sent of
      (sent', Err e) \<Rightarrow> (sent', Err e)
    | (sent', Ok _) \<Rightarrow> forward_rows xxh64 env i spec f ms sent')"
  by (induction ls arbitrary: sent) (auto split: sum.splits bool.splits)

lemma stream_chunks_forward:
  assumes "newline \<notin> set buf"
  shows "snd (stream_chunks xxh64 env i spec f (map Inr chunks) buf sent)
      = forward_rows xxh64 env i spec f (butlast (split_bytes newline (buf @ concat chunks))) sent
    \<and> (is_ok (snd (snd (stream_chunks xxh64 env i spec f (map Inr chunks) buf sent)))
      \<longrightarrow> fst (stream_chunks xxh64 env i spec f (map Inr chunks) buf sent) = last (split_bytes newline (buf @ concat chunks)))"
  using assms
proof (induction chunks arbitrary: buf sent)
  case (Cons c cs)
  let ?d = "drain_rows xxh64 env i spec f (buf @ c) sent"
  let ?s = "split_bytes newline (buf @ c)"
  obtain buf' sent' r where d: "?d = (buf', sent', r)" by (cases ?d)
  have f1: "forward_rows xxh64 env i spec f (butlast ?s) sent = (sent', r)" and f2: "is_ok r \<Longrightarrow> buf' = last ?s"
    using drain_rows_forward [of xxh64 env i spec f "buf @ c" sent] unfolding d by simp_all
  have all: "split_bytes newline (buf @ concat (c # cs)) = butlast ?s @ split_bytes newline (last ?s @ concat cs)"
    using split_bytes_append [of newline "buf @ c" "concat cs"] by simp
  have but: "butlast (split_bytes newline (buf @ concat (c # cs)))
      = butlast ?s @ butlast (split_bytes newline (last ?s @ concat cs))"
    unfolding all by (simp add: butlast_append)
  have lst: "last (split_bytes newline (buf @ concat (c # cs))) = last (split_bytes newline (last ?s @ concat cs))"
    unfolding all by simp
  show ?case
  proof (cases r)
    case (Inl e)
    then show ?thesis unfolding but forward_rows_append f1 by (simp add: d)
  next
    case (Inr u)
    then have buf': "buf' = last ?s" using f2 by simp
    then have clean: "newline \<notin> set buf'" using split_bytes_parts [of newline "buf @ c"] last_in_set [of ?s] by auto
    show ?thesis
      using Cons.IH [OF clean, of sent'] unfolding but lst forward_rows_append f1 buf' [symmetric]
      by (simp add: d Inr)
  qed
qed (simp add: split_bytes_clean)

lemma forward_rows_ok:
  assumes send: "\<And>n. ce_send env n = Ok ()"
  shows "forward_rows xxh64 env i spec f ls sent = (sent', Ok ()) \<longleftrightarrow>
    list_all (\<lambda>l. is_ok (row_in_range xxh64 (l @ [newline]) i spec f)) ls
    \<and> sent' = sent @ filter (\<lambda>r. row_in_range xxh64 r i spec f = Ok True) (map (\<lambda>l. l @ [newline]) ls)"
proof (induction ls arbitrary: sent)
  case (Cons l ls)
  show ?case
    using Cons.IH send by (cases "row_in_range xxh64 (l @ [newline]) i spec f") (auto split: bool.splits)
qed auto

text \<open>Rows of a table, as the server writes them.\<close>

lemma split_copy_rows:
  "split_bytes newline (concat (map copy_row ts)) =
   map (\<lambda>t. join_fields (map copy_field (tp_columns t))) ts @ [[]]"
proof (induction ts)
  case (Cons t ts)
  have "newline \<notin> set (join_fields (map copy_field (tp_columns t)))"
    by (rule join_fields_no_newline) (auto simp: copy_field_clean)
  from split_bytes_first [OF this] Cons show ?case by (simp add: copy_row_def)
qed simp

section \<open>The statements of a copy\<close>

lemma copy_stmts_distinct:
  "''COMMIT'' \<noteq> target_setup" "''ROLLBACK'' \<noteq> target_setup"
  "''COMMIT'' \<noteq> copy_from spec" "''ROLLBACK'' \<noteq> copy_from spec" "target_setup \<noteq> copy_from spec"
  by (simp_all add: target_setup_def copy_from_def)

lemma copy_target_cases:
  assumes "copy_target xxh64 env i spec f = (log, sent, result)"
  obtains (commit) n where "stream_filtered xxh64 env i spec f = (sent, Ok n)"
      "log = [OnTarget target_setup, OnSource (copy_to spec), OnTarget (copy_from spec)] @ [OnTarget ''COMMIT'']"
      "result = map_err CopyTarget (map_sum id (\<lambda>_. n) (ce_commit env))"
  | (rollback) mid e where "log = (OnTarget target_setup # mid) @ [OnTarget ''ROLLBACK'']"
      "set mid \<subseteq> {OnSource (copy_to spec), OnTarget (copy_from spec)}" "result = Err e"
proof (cases "ce_tgt_setup env")
  case (Inl e)
  then show ?thesis using assms by (intro rollback [of "[]"]) (auto simp: copy_target_def)
next
  case (Inr u)
  obtain sent' r where st: "stream_filtered xxh64 env i spec f = (sent', r)" by fastforce
  show ?thesis
  proof (cases r)
    case (Inl e)
    then show ?thesis using assms Inr st
      by (intro rollback [of "OnSource (copy_to spec) # (if is_ok (ce_copy_out env) then [OnTarget (copy_from spec)] else [])"])
        (auto simp: copy_target_def)
  next
    case (Inr n)
    then show ?thesis using assms \<open>ce_tgt_setup env = Inr u\<close> st
      by (intro commit [of n]) (auto simp: copy_target_def bind_res_def split: sum.splits)
  qed
qed

lemma copy_filtered_cases:
  assumes "copy_filtered xxh64 env snapshot spec f = (log, sent, result)"
  obtains (refused) e where "log = []" "result = Err e"
  | (no_begin) e where "log = [OnSource source_begin]" "result = Err e" "ce_src_begin env \<noteq> Ok ()"
  | (no_setup) e where "log = [OnSource source_begin, OnSource (source_setup snapshot)] @ [OnSource ''ROLLBACK'']" "result = Err e"
  | (target) i mid where "position (\<lambda>c. c = cs_shard_key_column spec) (cs_columns spec) = Some i"
      "copy_target xxh64 env i spec f = (mid, sent, result)"
      "log = [OnSource source_begin, OnSource (source_setup snapshot)] @ mid @ [OnSource ''ROLLBACK'']"
  using assms
  by (auto simp: copy_filtered_def Let_def split: if_splits option.splits sum.splits prod.splits)

section \<open>Properties\<close>

text \<open>C20: The snapshot copies exactly the rows the change stream would keep. However the driver cuts
  the \<open>COPY\<close> data into chunks, when no driver call fails the copy succeeds exactly if the stream filter
  can route every row of the table, and then the rows sent are the rows of the target range in table
  order, byte for byte, and their number is returned; there is no gap and no overlap at the seam.\<close>

theorem copy_matches_stream:
  assumes "ce_copy_out env = Ok (map Ok chunks)" and "concat chunks = concat (map copy_row table)"
    and "ce_copy_in env = Ok ()" and "\<And>n. ce_send env n = Ok ()" and "ce_finish env = Ok ()"
    and "\<forall>t \<in> set table. i < length (tp_columns t) \<and> shipped (tp_columns t ! i)"
  shows "stream_filtered xxh64 env i spec f = (sent, Ok n) \<longleftrightarrow>
    list_all (\<lambda>t. is_ok (tuple_in_range xxh64 t i (cs_shard_key_type spec) f (cs_target_range spec))) table
    \<and> sent = map copy_row (filter (\<lambda>t. tuple_in_range xxh64 t i (cs_shard_key_type spec) f (cs_target_range spec) = Ok True) table)
    \<and> n = length sent"
proof -
  let ?line = "\<lambda>t. join_fields (map copy_field (tp_columns t))"
  let ?st = "stream_chunks xxh64 env i spec f (map Inr chunks) [] []"
  have run: "snd ?st = forward_rows xxh64 env i spec f (map ?line table) []"
    and rest: "is_ok (snd (snd ?st)) \<Longrightarrow> fst ?st = []"
    using stream_chunks_forward [of "[]" xxh64 env i spec f chunks "[]"] assms(2) by (simp_all add: split_copy_rows)
  have judged: "is_ok (row_in_range xxh64 (copy_row t) i spec f)
        = is_ok (tuple_in_range xxh64 t i (cs_shard_key_type spec) f (cs_target_range spec))"
      "row_in_range xxh64 (copy_row t) i spec f = Ok True \<longleftrightarrow>
        tuple_in_range xxh64 t i (cs_shard_key_type spec) f (cs_target_range spec) = Ok True"
    if "t \<in> set table" for t
    using assms(6) that by (simp_all add: row_in_range_copy_row is_ok_map_err)
  have "stream_filtered xxh64 env i spec f = (sent, Ok n) \<longleftrightarrow> snd ?st = (sent, Ok ()) \<and> n = length sent"
    using assms(1,3,5) rest by (cases ?st) (auto simp: stream_filtered_def split: sum.splits)
  also have "\<dots> \<longleftrightarrow> list_all (\<lambda>t. is_ok (row_in_range xxh64 (copy_row t) i spec f)) table
      \<and> sent = filter (\<lambda>r. row_in_range xxh64 r i spec f = Ok True) (map copy_row table) \<and> n = length sent"
    unfolding run forward_rows_ok [where env = env, OF assms(4)]
    by (simp add: list_all_iff copy_row_def [symmetric] o_def)
  finally show ?thesis
    using judged by (simp add: list_all_iff filter_map o_def cong: filter_cong)
qed

definition demo_copy_env :: copy_env where
  "demo_copy_env = \<lparr>ce_src_begin = Ok (), ce_src_setup = Ok (), ce_tgt_setup = Ok (),
     ce_copy_out = Ok [Ok [49, 9], Ok [120, 10, 50], Ok [9, 92, 110, 10]],
     ce_copy_in = Ok (), ce_send = (\<lambda>_. Ok ()), ce_finish = Ok (), ce_commit = Ok ()\<rparr>"

definition demo_copy_spec :: copy_spec where
  "demo_copy_spec = \<lparr>cs_schema = ''public'', cs_table = ''t'', cs_columns = [''id'', ''v''], cs_shard_key_column = ''id'',
     cs_shard_key_type = TyInt, cs_target_range = \<lparr>kr_start = 2, kr_end = None\<rparr>\<rparr>"

definition demo_copy_table :: "tuple_data list" where
  "demo_copy_table = [\<lparr>tp_columns = [ColText [49], ColText [120]]\<rparr>, \<lparr>tp_columns = [ColText [50], ColText [10]]\<rparr>]"

theorem copy_matches_stream_witness:
  "stream_filtered (\<lambda>bs _. of_nat (be_dec bs)) demo_copy_env 0 demo_copy_spec XxHash64V1 = ([[50, 9, 92, 110, 10]], Ok 1)"
proof -
  let ?kept = "\<lambda>t. tuple_in_range (\<lambda>bs _. of_nat (be_dec bs)) t 0 TyInt XxHash64V1 \<lparr>kr_start = 2, kr_end = None\<rparr>"
  have out: "ce_copy_out demo_copy_env = Ok (map Ok [[49, 9], [120, 10, 50], [9, 92, 110, 10]])"
    and drv: "ce_copy_in demo_copy_env = Ok ()" "\<And>n. ce_send demo_copy_env n = Ok ()" "ce_finish demo_copy_env = Ok ()"
    by (simp_all add: demo_copy_env_def)
  have data: "concat [[49, 9], [120, 10, 50], [9, 92, 110, 10]] = concat (map copy_row demo_copy_table)"
    by (simp add: demo_copy_table_def copy_row_def escape_def escape_byte_def)
  have sh: "\<forall>t \<in> set demo_copy_table. 0 < length (tp_columns t) \<and> shipped (tp_columns t ! 0)"
    by (simp add: demo_copy_table_def shipped_def)
  have co: "from_utf8 [49] = Some ''1''" "from_utf8 [50] = Some ''2''"
      "coerce TyInt (Text ''1'') = Some (Int64 1)" "coerce TyInt (Text ''2'') = Some (Int64 2)"
    by code_simp+
  have t1: "?kept \<lparr>tp_columns = [ColText [49], ColText [120]]\<rparr> = Ok False"
    and t2: "?kept \<lparr>tp_columns = [ColText [50], ColText [10]]\<rparr> = Ok True"
    by (simp_all add: tuple_in_range_def tuple_keyspace_id_def cell_keyspace_id_def text_keyspace_id_def co
        contains_def end_exclusive_def word_le_nat_alt del: coerce.simps)
  have row: "copy_row \<lparr>tp_columns = [ColText [50], ColText [10]]\<rparr> = [50, 9, 92, 110, 10]"
    by (simp add: copy_row_def escape_def escape_byte_def)
  show ?thesis
    by (rule copy_matches_stream [OF out data drv sh, THEN iffD2])
      (simp add: demo_copy_table_def demo_copy_spec_def t1 t2 row)
qed

text \<open>C25: The copy is all or nothing. The target commits only after every row of the source was read
  and the rows of the range were accepted, and otherwise its transaction is rolled back once it may have
  begun; success is reported exactly when that commit succeeded; and the source transaction, once open,
  is rolled back on every path.\<close>

theorem copy_filtered_atomic:
  assumes "copy_filtered xxh64 env snapshot spec f = (log, sent, result)"
  shows "(OnTarget ''COMMIT'' \<in> set log \<longrightarrow>
        (\<exists>i n. position (\<lambda>c. c = cs_shard_key_column spec) (cs_columns spec) = Some i
           \<and> stream_filtered xxh64 env i spec f = (sent, Ok n) \<and> result = map_err CopyTarget (map_sum id (\<lambda>_. n) (ce_commit env))))
    \<and> (is_ok result \<longrightarrow> OnTarget ''COMMIT'' \<in> set log \<and> ce_commit env = Ok ())
    \<and> (OnTarget target_setup \<in> set log \<longrightarrow>
        (\<exists>pre fin. log = pre @ [OnTarget fin, OnSource ''ROLLBACK'']
           \<and> (fin = ''COMMIT'' \<and> OnTarget ''ROLLBACK'' \<notin> set log \<or> fin = ''ROLLBACK'' \<and> OnTarget ''COMMIT'' \<notin> set log)))
    \<and> (OnSource source_begin \<in> set log \<and> ce_src_begin env = Ok () \<longrightarrow> last log = OnSource ''ROLLBACK'')"
  using assms
proof (cases rule: copy_filtered_cases)
  case (target i mid)
  from target(2) show ?thesis
  proof (cases rule: copy_target_cases)
    case (commit n)
    then show ?thesis using target(1,3) copy_stmts_distinct
      by (cases "ce_commit env") (auto intro: exI [of _ n])
  next
    case (rollback mid' e)
    then show ?thesis using target(1,3) copy_stmts_distinct by auto
  qed
qed (auto simp: copy_stmts_distinct)

theorem copy_filtered_atomic_witness:
  "\<exists>pre n. fst (copy_filtered (\<lambda>_ _. 0) (demo_copy_env\<lparr>ce_copy_out := Ok []\<rparr>) ''00000003-1B'' demo_copy_spec XxHash64V1)
       = pre @ [OnTarget ''COMMIT'', OnSource ''ROLLBACK'']
     \<and> stream_filtered (\<lambda>_ _. 0) (demo_copy_env\<lparr>ce_copy_out := Ok []\<rparr>) 0 demo_copy_spec XxHash64V1 = ([], Ok n)"
proof -
  let ?env = "demo_copy_env\<lparr>ce_copy_out := Ok []\<rparr>"
  have stream: "stream_filtered (\<lambda>_ _. 0) ?env 0 demo_copy_spec XxHash64V1 = ([], Ok 0)"
    by (simp add: stream_filtered_def demo_copy_env_def)
  have drv: "ce_src_begin ?env = Ok ()" "ce_src_setup ?env = Ok ()" "ce_tgt_setup ?env = Ok ()" "ce_commit ?env = Ok ()"
    by (simp_all add: demo_copy_env_def)
  have snap: "snapshot_ok ''00000003-1B''" by code_simp
  have col: "position (\<lambda>c. c = cs_shard_key_column demo_copy_spec) (cs_columns demo_copy_spec) = Some 0"
    by (simp add: demo_copy_spec_def)
  have run: "\<exists>log. copy_filtered (\<lambda>_ _. 0) ?env ''00000003-1B'' demo_copy_spec XxHash64V1 = (log, [], Ok 0)
      \<and> OnTarget target_setup \<in> set log \<and> OnTarget ''COMMIT'' \<in> set log"
    using snap col stream drv by (simp add: copy_filtered_def copy_target_def)
  then obtain log where log: "copy_filtered (\<lambda>_ _. 0) ?env ''00000003-1B'' demo_copy_spec XxHash64V1 = (log, [], Ok 0)"
      "OnTarget target_setup \<in> set log" "OnTarget ''COMMIT'' \<in> set log" by blast
  then obtain pre where "log = pre @ [OnTarget ''COMMIT'', OnSource ''ROLLBACK'']"
    using copy_filtered_atomic [OF log(1)] by auto
  then show ?thesis using log(1) stream by auto
qed

end
