(* ===== verification/Applier.thy ===== *)
theory Applier
  imports Pgoutput Sql_Text
begin

text \<open>
  The transactional applier (\<open>pgshard-repl/src/apply.rs\<close>). The target database is a state with two
  parts: the replicated data, changed only by the statements the applier builds (what a statement does is
  the parameter \<open>exec\<close>, which gives the number of affected rows and the new data, or an error), and the
  progress table, whose statements are written out here. A target transaction is one atomic step. Driver
  failures are arguments, among them a commit whose outcome the client never learns.
\<close>

section \<open>Definitions\<close>

text \<open>\<open>IndexPanic\<close> stands for the panic of an out-of-range slice index.\<close>

datatype fence_cause = LeaseHeld string | ProgressPast string lsn

datatype apply_error =
    Db string
  | UnknownRelation oid
  | ColumnCountMismatch string nat nat
  | ApplyInvalidUtf8
  | RowCountMismatch nat
  | Fenced fence_cause
  | Unsupported string
  | IndexPanic

record relation_info =
  ri_schema :: string
  ri_table :: string
  ri_columns :: "string list"
  ri_replica_identity :: u8
  ri_key_columns :: "nat list"

datatype cell = CellNull | CellText bytes | CellUnchanged

datatype pending_change =
    PInsert oid "cell list"
  | PUpdate oid "cell list" "cell list"
  | PDelete oid "cell list"

record applier =
  ap_relations :: "oid \<rightharpoonup> relation_info"
  ap_consumer :: string
  ap_checkpoint :: lsn
  ap_ack :: lsn
  ap_pending :: "pending_change list"

subsection \<open>Building statements\<close>

definition cell_of :: "tuple_column \<Rightarrow> apply_error + cell" where
  "cell_of column =
     (case column of
        ColNull \<Rightarrow> Ok CellNull
      | ColText bs \<Rightarrow> Ok (CellText bs)
      | UnchangedToast \<Rightarrow> Ok CellUnchanged
      | ColBinary _ \<Rightarrow> Err (Unsupported ''binary-format value''))"

definition tuple_cells :: "tuple_data \<Rightarrow> apply_error + cell list" where
  "tuple_cells tuple = collect_res cell_of (tp_columns tuple)"

definition check_len :: "relation_info \<Rightarrow> cell list \<Rightarrow> apply_error + unit" where
  "check_len rel cells =
     (if length cells \<noteq> length (ri_columns rel)
      then Err (ColumnCountMismatch (ri_schema rel @ ''.'' @ ri_table rel) (length (ri_columns rel)) (length cells))
      else Ok ())"

definition render_cell :: "cell \<Rightarrow> apply_error + string" where
  "render_cell cell =
     (case cell of
        CellNull \<Rightarrow> Ok ''NULL''
      | CellText bs \<Rightarrow> bind_res (ok_or ApplyInvalidUtf8 (from_utf8 bs)) (\<lambda>text. Ok (quote_literal text))
      | CellUnchanged \<Rightarrow> Err (Unsupported ''unshipped TOAST value in a full row''))"

definition build_insert :: "relation_info \<Rightarrow> cell list \<Rightarrow> apply_error + string" where
  "build_insert rel values =
     bind_res (check_len rel values) (\<lambda>_.
     let columns = join '', '' (map quote_ident (ri_columns rel)) in
     bind_res (collect_res render_cell values) (\<lambda>rendered.
       Ok (''INSERT INTO '' @ quote_ident (ri_schema rel) @ ''.'' @ quote_ident (ri_table rel) @
           '' ('' @ columns @ '') VALUES ('' @ join '', '' rendered @ '')'')))"

text \<open>One pass of the loop over the key columns, and the loop.\<close>

definition key_condition :: "relation_info \<Rightarrow> cell list \<Rightarrow> nat \<Rightarrow> apply_error + string" where
  "key_condition rel key_source i =
     (case nth_opt key_source i of
        None \<Rightarrow> Err IndexPanic
      | Some CellNull \<Rightarrow> Err (Unsupported ''null replica-identity key'')
      | Some CellUnchanged \<Rightarrow> Err (Unsupported ''unshipped replica-identity key'')
      | Some cell \<Rightarrow>
          bind_res (ok_or IndexPanic (nth_opt (ri_columns rel) i)) (\<lambda>column.
          bind_res (render_cell cell) (\<lambda>text. Ok (quote_ident column @ '' = '' @ text))))"

definition build_where :: "relation_info \<Rightarrow> cell list \<Rightarrow> apply_error + string" where
  "build_where rel key_source =
     (if ri_replica_identity rel \<notin> {byte (CHR ''d''), byte (CHR ''i'')}
      then Err (Unsupported ''update/delete requires REPLICA IDENTITY DEFAULT or an index (full/nothing not supported)'')
      else if ri_key_columns rel = []
      then Err (Unsupported ''update/delete on a table with no replica-identity key'')
      else bind_res (collect_res (key_condition rel key_source) (ri_key_columns rel))
             (\<lambda>conditions. Ok (join '' AND '' conditions)))"

definition assignment :: "string \<times> cell \<Rightarrow> apply_error + string" where
  "assignment = (\<lambda>(name, cell). bind_res (render_cell cell) (\<lambda>text. Ok (quote_ident name @ '' = '' @ text)))"

definition build_update :: "relation_info \<Rightarrow> cell list \<Rightarrow> cell list \<Rightarrow> apply_error + string option" where
  "build_update rel key_source new =
     bind_res (check_len rel key_source) (\<lambda>_.
     bind_res (check_len rel new) (\<lambda>_.
     bind_res (collect_res assignment (filter (\<lambda>(_, cell). cell \<noteq> CellUnchanged) (zip (ri_columns rel) new))) (\<lambda>assignments.
       if assignments = [] then Ok None
       else bind_res (build_where rel key_source) (\<lambda>cond.
         Ok (Some (''UPDATE '' @ quote_ident (ri_schema rel) @ ''.'' @ quote_ident (ri_table rel) @
                   '' SET '' @ join '', '' assignments @ '' WHERE '' @ cond))))))"

definition build_delete :: "relation_info \<Rightarrow> cell list \<Rightarrow> apply_error + string" where
  "build_delete rel key_source =
     bind_res (check_len rel key_source) (\<lambda>_.
     bind_res (build_where rel key_source) (\<lambda>cond.
       Ok (''DELETE FROM '' @ quote_ident (ri_schema rel) @ ''.'' @ quote_ident (ri_table rel) @ '' WHERE '' @ cond)))"

definition relation_of :: "(oid \<rightharpoonup> relation_info) \<Rightarrow> oid \<Rightarrow> apply_error + relation_info" where
  "relation_of relations oid = ok_or (UnknownRelation oid) (relations oid)"

text \<open>The statements of one buffered change: one, or none for an update with nothing to set.\<close>

definition build_change :: "(oid \<rightharpoonup> relation_info) \<Rightarrow> pending_change \<Rightarrow> apply_error + string list" where
  "build_change relations change =
     (case change of
        PInsert oid new \<Rightarrow>
          bind_res (relation_of relations oid) (\<lambda>rel. bind_res (build_insert rel new) (\<lambda>sql. Ok [sql]))
      | PUpdate oid key_source new \<Rightarrow>
          bind_res (relation_of relations oid) (\<lambda>rel. bind_res (build_update rel key_source new)
            (\<lambda>sql. Ok (case sql of Some sql \<Rightarrow> [sql] | None \<Rightarrow> [])))
      | PDelete oid key_source \<Rightarrow>
          bind_res (relation_of relations oid) (\<lambda>rel. bind_res (build_delete rel key_source) (\<lambda>sql. Ok [sql])))"

definition build_statements :: "(oid \<rightharpoonup> relation_info) \<Rightarrow> pending_change list \<Rightarrow> apply_error + string list" where
  "build_statements relations pending = bind_res (collect_res (build_change relations) pending) (\<lambda>ss. Ok (concat ss))"

subsection \<open>The target\<close>

record 'd target =
  tg_data :: 'd
  tg_progress :: "string \<rightharpoonup> i64 \<times> i64"

text \<open>The upsert of the progress row: the number of rows it affects and the table after it. \<open>bigint\<close>
  compares as a signed number.\<close>

definition progress_cas ::
    "string \<Rightarrow> i64 \<Rightarrow> i64 \<Rightarrow> (string \<rightharpoonup> i64 \<times> i64) \<Rightarrow> nat \<times> (string \<rightharpoonup> i64 \<times> i64)" where
  "progress_cas consumer lsn end_lsn progress =
     (case progress consumer of
        None \<Rightarrow> (1, progress(consumer \<mapsto> (lsn, end_lsn)))
      | Some (current, _) \<Rightarrow>
          if sint current < sint lsn then (1, progress(consumer \<mapsto> (lsn, end_lsn))) else (0, progress))"

fun run_statements :: "(string \<Rightarrow> 'd \<Rightarrow> string + nat \<times> 'd) \<Rightarrow> string list \<Rightarrow> 'd \<Rightarrow> apply_error + 'd" where
  "run_statements exec [] d = Ok d"
| "run_statements exec (sql # sqls) d =
     (case exec sql d of
        Err e \<Rightarrow> Err (Db e)
      | Ok (affected, d') \<Rightarrow>
          if affected \<noteq> 1 then Err (RowCountMismatch affected) else run_statements exec sqls d')"

text \<open>What the driver reports: opening the transaction, the progress upsert, the commit. A commit may
  take effect although the client sees an error.\<close>

datatype commit_outcome = CommitOk | CommitLost string | CommitInDoubt string

record driver =
  dr_begin :: "string + unit"
  dr_progress :: "string + unit"
  dr_commit :: commit_outcome

subsection \<open>The applier\<close>

record start_env =
  se_set_timeout :: "string + unit"
  se_lease :: "(bool \<times> string) + unit"
  se_reset_timeout :: "string + unit"
  se_setup :: "string + unit"
  se_load :: "string + unit"

definition applier_new :: "start_env \<Rightarrow> (string \<rightharpoonup> i64 \<times> i64) \<Rightarrow> string \<Rightarrow> apply_error + applier" where
  "applier_new env progress consumer =
     bind_res (map_err Db (se_set_timeout env)) (\<lambda>_.
     bind_res (map_err Db (se_reset_timeout env)) (\<lambda>_.
     bind_res (map_err (\<lambda>(contended, e). if contended then Fenced (LeaseHeld consumer) else Db e) (se_lease env)) (\<lambda>_.
     bind_res (map_err Db (se_setup env)) (\<lambda>_.
     bind_res (map_err Db (se_load env)) (\<lambda>_.
       let (checkpoint, ack) =
         (case progress consumer of Some (lsn, end_lsn) \<Rightarrow> (lsn, max end_lsn lsn) | None \<Rightarrow> (0, 0))
       in Ok \<lparr>ap_relations = Map.empty, ap_consumer = consumer, ap_checkpoint = checkpoint, ap_ack = ack, ap_pending = []\<rparr>)))))"

definition apply_commit ::
    "(string \<Rightarrow> 'd \<Rightarrow> string + nat \<times> 'd) \<Rightarrow> driver \<Rightarrow> lsn \<Rightarrow> lsn \<Rightarrow> applier \<Rightarrow> 'd target
     \<Rightarrow> applier \<times> 'd target \<times> (apply_error + unit)" where
  "apply_commit exec dr commit_lsn end_lsn a tg =
     (if commit_lsn \<le> ap_checkpoint a
      then (a\<lparr>ap_ack := max (ap_ack a) end_lsn, ap_pending := []\<rparr>, tg, Ok ())
      else (case build_statements (ap_relations a) (ap_pending a) of
          Err e \<Rightarrow> (a, tg, Err e)
        | Ok statements \<Rightarrow>
            (case dr_begin dr of
               Err e \<Rightarrow> (a, tg, Err (Db e))
             | Ok _ \<Rightarrow>
                 (case run_statements exec statements (tg_data tg) of
                    Err e \<Rightarrow> (a, tg, Err e)
                  | Ok d \<Rightarrow>
                      (case dr_progress dr of
                         Err e \<Rightarrow> (a, tg, Err (Db e))
                       | Ok _ \<Rightarrow>
                           let (advanced, progress) = progress_cas (ap_consumer a) commit_lsn end_lsn (tg_progress tg) in
                           if advanced \<noteq> 1 then (a, tg, Err (Fenced (ProgressPast (ap_consumer a) commit_lsn)))
                           else (case dr_commit dr of
                                   CommitLost e \<Rightarrow> (a, tg, Err (Db e))
                                 | CommitInDoubt e \<Rightarrow> (a, \<lparr>tg_data = d, tg_progress = progress\<rparr>, Err (Db e))
                                 | CommitOk \<Rightarrow>
                                     (a\<lparr>ap_checkpoint := commit_lsn, ap_ack := max (ap_ack a) end_lsn, ap_pending := []\<rparr>,
                                      \<lparr>tg_data = d, tg_progress = progress\<rparr>, Ok ())))))))"

definition relation_info_of :: "relation_msg \<Rightarrow> relation_info" where
  "relation_info_of r =
     \<lparr>ri_schema = re_namespace r, ri_table = re_name r, ri_columns = map rc_name (re_columns r),
      ri_replica_identity = re_replica_identity r,
      ri_key_columns = filter (\<lambda>i. is_key (re_columns r ! i)) [0..<length (re_columns r)]\<rparr>"

definition push_change :: "applier \<Rightarrow> apply_error + pending_change \<Rightarrow> applier \<times> (apply_error + unit)" where
  "push_change a change =
     (case change of Err e \<Rightarrow> (a, Err e) | Ok c \<Rightarrow> (a\<lparr>ap_pending := ap_pending a @ [c]\<rparr>, Ok ()))"

definition update_change :: "update_msg \<Rightarrow> apply_error + pending_change" where
  "update_change update =
     bind_res
       (case (up_key update, up_old update) of
          (Some key, _) \<Rightarrow> tuple_cells key
        | (None, Some old) \<Rightarrow> tuple_cells old
        | (None, None) \<Rightarrow> tuple_cells (up_new_tuple update))
       (\<lambda>key_source. bind_res (tuple_cells (up_new_tuple update)) (\<lambda>new. Ok (PUpdate (up_rel_oid update) key_source new)))"

definition delete_change :: "delete_msg \<Rightarrow> apply_error + pending_change" where
  "delete_change delete =
     bind_res
       (case (del_key delete, del_old delete) of
          (Some key, _) \<Rightarrow> tuple_cells key
        | (None, Some old) \<Rightarrow> tuple_cells old
        | (None, None) \<Rightarrow> Err (Unsupported ''delete without a replica-identity key''))
       (\<lambda>key_source. Ok (PDelete (del_rel_oid delete) key_source))"

definition insert_change :: "insert_msg \<Rightarrow> apply_error + pending_change" where
  "insert_change ins = bind_res (tuple_cells (ins_new_tuple ins)) (\<lambda>new. Ok (PInsert (ins_rel_oid ins) new))"

definition handle ::
    "(string \<Rightarrow> 'd \<Rightarrow> string + nat \<times> 'd) \<Rightarrow> driver \<Rightarrow> logical_rep_msg \<Rightarrow> applier \<Rightarrow> 'd target
     \<Rightarrow> applier \<times> 'd target \<times> (apply_error + unit)" where
  "handle exec dr msg a tg =
     (case msg of
        RelationMsg r \<Rightarrow> (a\<lparr>ap_relations := (ap_relations a)(re_oid r \<mapsto> relation_info_of r)\<rparr>, tg, Ok ())
      | Begin _ \<Rightarrow> (a\<lparr>ap_pending := []\<rparr>, tg, Ok ())
      | InsertMsg ins \<Rightarrow> (let (a, r) = push_change a (insert_change ins) in (a, tg, r))
      | UpdateMsg update \<Rightarrow> (let (a, r) = push_change a (update_change update) in (a, tg, r))
      | DeleteMsg delete \<Rightarrow> (let (a, r) = push_change a (delete_change delete) in (a, tg, r))
      | Commit commit \<Rightarrow> apply_commit exec dr (cm_commit_lsn commit) (cm_end_lsn commit) a tg
      | Origin _ \<Rightarrow> (a, tg, Ok ())
      | TypeMsg _ \<Rightarrow> (a, tg, Ok ())
      | Message _ \<Rightarrow> (a, tg, Ok ())
      | TruncateMsg _ \<Rightarrow> (a, tg, Err (Unsupported ''TRUNCATE apply''))
      | _ \<Rightarrow> (a, tg, Err (Unsupported ''streamed or two-phase transactions'')))"

text \<open>A worker's loop over the messages it receives: it stops at the first error.\<close>

fun handle_all ::
    "(string \<Rightarrow> 'd \<Rightarrow> string + nat \<times> 'd) \<Rightarrow> driver \<Rightarrow> logical_rep_msg list \<Rightarrow> applier \<Rightarrow> 'd target
     \<Rightarrow> applier \<times> 'd target \<times> (apply_error + unit)" where
  "handle_all exec dr [] a tg = (a, tg, Ok ())"
| "handle_all exec dr (msg # msgs) a tg =
     (case handle exec dr msg a tg of
        (a, tg, Err e) \<Rightarrow> (a, tg, Err e)
      | (a, tg, Ok _) \<Rightarrow> handle_all exec dr msgs a tg)"

section \<open>The statements are well formed\<close>

text \<open>The tokens a rendered value or condition must be read as.\<close>

fun cell_token :: "cell \<Rightarrow> sql_token" where
  "cell_token CellNull = Word ''NULL''"
| "cell_token (CellText bs) = QLit (map char_of_byte bs)"
| "cell_token CellUnchanged = Word ''DEFAULT''"

definition equals_tokens :: "string \<times> cell \<Rightarrow> sql_token list" where
  "equals_tokens = (\<lambda>(name, cell). [QIdent name, Sym (CHR ''=''), cell_token cell])"

definition table_tokens :: "relation_info \<Rightarrow> sql_token list" where
  "table_tokens rel = [QIdent (ri_schema rel), Sym (CHR ''.''), QIdent (ri_table rel)]"

definition where_tokens :: "relation_info \<Rightarrow> cell list \<Rightarrow> sql_token list" where
  "where_tokens rel key_source =
     sep_tokens (Word ''AND'') (map (\<lambda>i. equals_tokens (ri_columns rel ! i, key_source ! i)) (ri_key_columns rel))"

fun change_tokens :: "relation_info \<Rightarrow> pending_change \<Rightarrow> sql_token list list" where
  "change_tokens rel (PInsert _ new) =
     [[Word ''INSERT'', Word ''INTO''] @ table_tokens rel
      @ [Sym (CHR ''('')] @ sep_tokens (Sym (CHR '','')) (map (\<lambda>c. [QIdent c]) (ri_columns rel))
      @ [Sym (CHR '')''), Word ''VALUES'', Sym (CHR ''('')] @ sep_tokens (Sym (CHR '','')) (map (\<lambda>c. [cell_token c]) new)
      @ [Sym (CHR '')'')]]"
| "change_tokens rel (PUpdate _ key_source new) =
     (let sets = filter (\<lambda>(_, cell). cell \<noteq> CellUnchanged) (zip (ri_columns rel) new) in
      if sets = [] then []
      else [[Word ''UPDATE''] @ table_tokens rel
            @ [Word ''SET''] @ sep_tokens (Sym (CHR '','')) (map equals_tokens sets)
            @ [Word ''WHERE''] @ where_tokens rel key_source])"
| "change_tokens rel (PDelete _ key_source) =
     [[Word ''DELETE'', Word ''FROM''] @ table_tokens rel @ [Word ''WHERE''] @ where_tokens rel key_source]"

fun change_oid :: "pending_change \<Rightarrow> oid" where
  "change_oid (PInsert oid _) = oid"
| "change_oid (PUpdate oid _ _) = oid"
| "change_oid (PDelete oid _) = oid"

lemma render_cell_lexes: "render_cell cell = Ok s \<Longrightarrow> lexes_to s [cell_token cell]"
  by (cases cell) (auto simp: render_cell_def from_utf8_Some bind_res_eq_Inr as_bytes_def o_def lexes_null lexes_literal)

lemma equals_lexes: "render_cell cell = Ok s \<Longrightarrow> lexes_to (quote_ident name @ '' = '' @ s) (equals_tokens (name, cell))"
  using lexes_sep [OF lexes_ident applier_separators(3) render_cell_lexes] by (simp add: equals_tokens_def)

lemma key_condition_lexes:
  "key_condition rel key_source i = Ok s \<Longrightarrow> lexes_to s (equals_tokens (ri_columns rel ! i, key_source ! i))"
  by (auto simp: key_condition_def nth_opt_Some bind_res_eq_Inr equals_lexes [simplified] split: option.splits cell.splits)

lemma collect_lexes:
  assumes "collect_res g xs = Ok ss" and "\<And>x s. x \<in> set xs \<Longrightarrow> g x = Ok s \<Longrightarrow> lexes_to s (tok x)"
  shows "list_all2 lexes_to ss (map tok xs)"
  using assms by (auto simp: collect_res_Inr list_all2_conv_all_nth)

lemma where_lexes:
  assumes "build_where rel key_source = Ok s"
  shows "lexes_to s (where_tokens rel key_source)"
proof -
  obtain ss where ss: "collect_res (key_condition rel key_source) (ri_key_columns rel) = Ok ss" "s = join '' AND '' ss"
    using assms by (auto simp: build_where_def bind_res_eq_Inr split: if_splits)
  show ?thesis
    unfolding ss(2) where_tokens_def
    by (rule lexes_join [OF collect_lexes [OF ss(1)] applier_separators(2)]) (rule key_condition_lexes)
qed

lemma table_lexes: "lexes_to (quote_ident s @ ''.'' @ quote_ident t) [QIdent s, Sym (CHR ''.''), QIdent t]"
  using lexes_sep [OF lexes_ident applier_separators(4) lexes_ident] by simp

lemma columns_lexes: "lexes_to (join '', '' (map quote_ident cs)) (sep_tokens (Sym (CHR '','')) (map (\<lambda>c. [QIdent c]) cs))"
  by (rule lexes_join [OF _ applier_separators(1)]) (simp add: list_all2_conv_all_nth lexes_ident)

lemma insert_lexes:
  assumes "build_insert rel new = Ok sql"
  shows "[sql_lex sql] = map Some (change_tokens rel (PInsert oid new))"
proof -
  obtain vs where vs: "collect_res render_cell new = Ok vs"
      "sql = ''INSERT INTO '' @ (quote_ident (ri_schema rel) @ ''.'' @ quote_ident (ri_table rel)) @
         '' ('' @ join '', '' (map quote_ident (ri_columns rel)) @ '') VALUES ('' @ join '', '' vs @ '')'' @ []"
    using assms by (auto simp: build_insert_def bind_res_eq_Inr Let_def)
  have "lexes_to (join '', '' vs) (sep_tokens (Sym (CHR '','')) (map (\<lambda>c. [cell_token c]) new))"
    by (rule lexes_join [OF collect_lexes [OF vs(1)] applier_separators(1)]) (rule render_cell_lexes)
  note vals = lexes_sep [OF this applier_separators(9) lexes_Nil]
  note columns = lexes_sep [OF columns_lexes applier_separators(6) vals]
  note all = lead_readsI [OF applier_leads(1) lexes_sep [OF table_lexes applier_separators(5) columns]]
  show ?thesis unfolding vs(2) sql_lex_lexes [OF all] by (simp add: table_tokens_def)
qed

lemma delete_lexes:
  assumes "build_delete rel key_source = Ok sql"
  shows "[sql_lex sql] = map Some (change_tokens rel (PDelete oid key_source))"
proof -
  obtain cond where cond: "build_where rel key_source = Ok cond"
      "sql = ''DELETE FROM '' @ (quote_ident (ri_schema rel) @ ''.'' @ quote_ident (ri_table rel)) @ '' WHERE '' @ cond"
    using assms by (auto simp: build_delete_def bind_res_eq_Inr)
  note all = lead_readsI [OF applier_leads(3) lexes_sep [OF table_lexes applier_separators(8) where_lexes [OF cond(1)]]]
  show ?thesis unfolding cond(2) sql_lex_lexes [OF all] by (simp add: table_tokens_def)
qed

lemma update_lexes:
  assumes "build_update rel key_source new = Ok sql"
  shows "map sql_lex (case sql of Some s \<Rightarrow> [s] | None \<Rightarrow> []) = map Some (change_tokens rel (PUpdate oid key_source new))"
proof -
  let ?sets = "filter (\<lambda>(_, cell). cell \<noteq> CellUnchanged) (zip (ri_columns rel) new)"
  obtain as where as: "collect_res assignment ?sets = Ok as"
    and sql: "if as = [] then sql = None else \<exists>cond. build_where rel key_source = Ok cond
      \<and> sql = Some (''UPDATE '' @ (quote_ident (ri_schema rel) @ ''.'' @ quote_ident (ri_table rel)) @
                   '' SET '' @ join '', '' as @ '' WHERE '' @ cond)"
    using assms by (auto simp: build_update_def bind_res_eq_Inr split: if_splits)
  have "list_all2 lexes_to as (map equals_tokens ?sets)"
    by (rule collect_lexes [OF as]) (auto simp: assignment_def bind_res_eq_Inr equals_lexes [simplified])
  note sets = lexes_join [OF this applier_separators(1)]
  have len: "as = [] \<longleftrightarrow> ?sets = []" using as by (auto simp: collect_res_Inr)
  show ?thesis
  proof (cases "as = []")
    case False
    then obtain cond where cond: "build_where rel key_source = Ok cond"
      "sql = Some (''UPDATE '' @ (quote_ident (ri_schema rel) @ ''.'' @ quote_ident (ri_table rel)) @
                   '' SET '' @ join '', '' as @ '' WHERE '' @ cond)" using sql by auto
    note tail = lexes_sep [OF sets applier_separators(8) where_lexes [OF cond(1)]]
    note all = lead_readsI [OF applier_leads(2) lexes_sep [OF table_lexes applier_separators(7) tail]]
    show ?thesis using False len unfolding cond(2) by (simp add: table_tokens_def sql_lex_lexes [OF all, simplified] Let_def)
  qed (use sql len in \<open>simp add: Let_def\<close>)
qed

text \<open>C29: The statements the applier builds are the statements it means, whatever the names and values
  contain: read by PostgreSQL's quoting rules, a change becomes the expected keywords and punctuation with
  each schema, table and column name and each value as one token, so no replicated text is ever executed.
  An update changes only the columns that were shipped and matches the row by its key columns, and one
  with nothing to set becomes no statement.\<close>

theorem apply_sql_exact:
  assumes "build_change relations change = Ok sqls"
  shows "\<exists>rel. relations (change_oid change) = Some rel \<and> map sql_lex sqls = map Some (change_tokens rel change)"
proof (cases change)
  case (PInsert oid new)
  then show ?thesis using assms
    by (auto simp: build_change_def relation_of_def bind_res_eq_Inr dest: insert_lexes [where oid = oid])
next
  case (PUpdate oid key_source new)
  then show ?thesis using assms
    by (auto simp: build_change_def relation_of_def bind_res_eq_Inr dest: update_lexes [where oid = oid])
next
  case (PDelete oid key_source)
  then show ?thesis using assms
    by (auto simp: build_change_def relation_of_def bind_res_eq_Inr dest: delete_lexes [where oid = oid])
qed

definition demo_relation :: relation_info where
  "demo_relation = \<lparr>ri_schema = ''public'', ri_table = ''t'', ri_columns = [''id'', ''v''],
     ri_replica_identity = byte (CHR ''d''), ri_key_columns = [0]\<rparr>"

theorem apply_sql_exact_witness:
  "\<exists>sql. build_change [7 \<mapsto> demo_relation]
       (PUpdate 7 [CellText (as_bytes ''1''), CellNull] [CellUnchanged, CellText (as_bytes ([squote] @ ''; DROP TABLE t''))]) = Ok [sql]
     \<and> sql_lex sql = Some [Word ''UPDATE'', QIdent ''public'', Sym (CHR ''.''), QIdent ''t'', Word ''SET'',
          QIdent ''v'', Sym (CHR ''=''), QLit ([squote] @ ''; DROP TABLE t''), Word ''WHERE'', QIdent ''id'', Sym (CHR ''=''), QLit ''1'']"
proof -
  let ?c = "PUpdate 7 [CellText (as_bytes ''1''), CellNull] [CellUnchanged, CellText (as_bytes ([squote] @ ''; DROP TABLE t''))]"
  have utf: "valid_utf8 (as_bytes ''1'')" "valid_utf8 (as_bytes ([squote] @ ''; DROP TABLE t''))" by code_simp+
  have "\<exists>sql. build_change [7 \<mapsto> demo_relation] ?c = Ok [sql]"
    by (simp add: build_change_def relation_of_def build_update_def check_len_def demo_relation_def assignment_def
        build_where_def key_condition_def render_cell_def from_utf8_as_bytes [OF utf(1)] from_utf8_as_bytes [OF utf(2), simplified])
  then obtain sql where sql: "build_change [7 \<mapsto> demo_relation] ?c = Ok [sql]" by blast
  have "[sql_lex sql] = map Some (change_tokens demo_relation ?c)" using apply_sql_exact [OF sql] by simp
  then show ?thesis
    using sql by (simp add: demo_relation_def table_tokens_def where_tokens_def equals_tokens_def as_bytes_def Let_def)
qed

section \<open>Slice indexing never panics\<close>

definition rel_wf :: "relation_info \<Rightarrow> bool" where
  "rel_wf rel \<longleftrightarrow> list_all (\<lambda>i. i < length (ri_columns rel)) (ri_key_columns rel)"

definition no_panic :: "apply_error + 'a \<Rightarrow> bool" where
  "no_panic r \<longleftrightarrow> r \<noteq> Err IndexPanic"

named_theorems no_panics \<open>operations that never index out of range\<close>

lemma no_panic_bind [no_panics]:
  "no_panic m \<Longrightarrow> (\<And>x. m = Ok x \<Longrightarrow> no_panic (k x)) \<Longrightarrow> no_panic (bind_res m k)"
  by (cases m) (auto simp: no_panic_def)

lemma no_panic_basic [no_panics]:
  "no_panic (Ok x)" "e \<noteq> IndexPanic \<Longrightarrow> no_panic (Err e)" "e \<noteq> IndexPanic \<Longrightarrow> no_panic (ok_or e r)"
  by (cases r; simp add: no_panic_def)+

lemma no_panic_collect [no_panics]: "(\<And>x. x \<in> set xs \<Longrightarrow> no_panic (g x)) \<Longrightarrow> no_panic (collect_res g xs)"
  by (induction xs) (auto simp: no_panic_def split: sum.splits)

lemma no_panic_render [no_panics]: "no_panic (render_cell cell)"
  unfolding render_cell_def by (cases cell) (auto intro!: no_panics)

lemma no_panic_where:
  assumes "rel_wf rel" and "length key_source = length (ri_columns rel)"
  shows "no_panic (build_where rel key_source)"
proof -
  have "no_panic (key_condition rel key_source i)" if "i \<in> set (ri_key_columns rel)" for i
  proof -
    have "i < length key_source" "i < length (ri_columns rel)"
      using assms that by (auto simp: rel_wf_def list_all_iff)
    then show ?thesis
      unfolding key_condition_def by (auto simp: nth_opt_def split: cell.splits intro!: no_panics)
  qed
  then show ?thesis unfolding build_where_def by (auto intro!: no_panics)
qed

lemma check_len_Ok: "check_len rel cells = Ok u \<longleftrightarrow> length cells = length (ri_columns rel)"
  by (auto simp: check_len_def)

lemma no_panic_check_len [no_panics]: "no_panic (check_len rel cells)"
  by (simp add: check_len_def no_panics)

lemma no_panic_build_change:
  assumes "\<forall>rel \<in> ran relations. rel_wf rel"
  shows "no_panic (build_change relations change)"
proof -
  have rel: "rel_wf rel" if "relation_of relations oid = Ok rel" for oid rel
    using assms that by (auto simp: relation_of_def ran_def)
  have known: "no_panic (relation_of relations oid)" for oid by (simp add: relation_of_def no_panics)
  have "no_panic (build_update rel key_source new)" if "rel_wf rel" for rel key_source new
    unfolding build_update_def assignment_def using that
    by (auto simp: check_len_Ok intro!: no_panics no_panic_where split: prod.splits)
  moreover have "no_panic (build_delete rel key_source)" if "rel_wf rel" for rel key_source
    unfolding build_delete_def using that by (auto simp: check_len_Ok intro!: no_panics no_panic_where)
  moreover have "no_panic (build_insert rel new)" for rel new
    unfolding build_insert_def Let_def by (auto intro!: no_panics)
  ultimately show ?thesis
    unfolding build_change_def by (cases change) (auto intro!: no_panics known dest: rel)
qed

lemma no_panic_run: "no_panic (run_statements exec sqls d)"
  by (induction exec sqls d rule: run_statements.induct) (auto intro: no_panics split: sum.splits)

lemma no_panic_commit:
  assumes "\<forall>rel \<in> ran (ap_relations a). rel_wf rel"
  shows "no_panic (snd (snd (apply_commit exec dr commit_lsn end_lsn a tg)))"
    and "ap_relations (fst (apply_commit exec dr commit_lsn end_lsn a tg)) = ap_relations a"
proof -
  have "no_panic (build_statements (ap_relations a) (ap_pending a))"
    unfolding build_statements_def by (intro no_panics no_panic_build_change assms)
  then show "no_panic (snd (snd (apply_commit exec dr commit_lsn end_lsn a tg)))"
    using no_panic_run [of exec _ "tg_data tg"]
    by (force simp: apply_commit_def no_panic_def Let_def split: sum.splits prod.splits commit_outcome.splits)
  show "ap_relations (fst (apply_commit exec dr commit_lsn end_lsn a tg)) = ap_relations a"
    by (simp add: apply_commit_def Let_def split: sum.splits prod.splits commit_outcome.splits)
qed

lemma relation_info_wf: "rel_wf (relation_info_of r)"
  by (auto simp: rel_wf_def relation_info_of_def list_all_iff)

lemma no_panic_cells [no_panics]: "no_panic (tuple_cells t)"
  unfolding tuple_cells_def by (intro no_panics) (auto simp: cell_of_def split: tuple_column.splits intro!: no_panics)

lemma no_panic_changes:
  "no_panic (insert_change i)" "no_panic (update_change u)" "no_panic (delete_change x)"
  unfolding insert_change_def update_change_def delete_change_def
  by (auto split: option.splits intro!: no_panics)

lemma no_panic_push:
  assumes "no_panic c"
  shows "no_panic (snd (push_change a c))" "ap_relations (fst (push_change a c)) = ap_relations a"
  using assms by (auto simp: push_change_def no_panic_def split: sum.splits)

lemma handle_no_panic:
  assumes "\<forall>rel \<in> ran (ap_relations a). rel_wf rel"
  shows "no_panic (snd (snd (handle exec dr msg a tg))) \<and> (\<forall>rel \<in> ran (ap_relations (fst (handle exec dr msg a tg))). rel_wf rel)"
proof (cases msg)
  case (RelationMsg r)
  have "\<forall>rel \<in> ran ((ap_relations a)(re_oid r \<mapsto> relation_info_of r)). rel_wf rel"
    using assms relation_info_wf by (auto simp: ran_def)
  then show ?thesis using RelationMsg by (simp add: handle_def no_panics)
qed (use assms in \<open>simp_all add: handle_def Let_def case_prod_beta no_panics no_panic_push no_panic_changes
    no_panic_commit [OF assms]\<close>)

lemma handle_all_no_panic:
  assumes "\<forall>rel \<in> ran (ap_relations a). rel_wf rel"
  shows "no_panic (snd (snd (handle_all exec dr msgs a tg)))"
  using assms
proof (induction exec dr msgs a tg rule: handle_all.induct)
  case (2 exec dr msg msgs a tg)
  obtain a' tg' r where h: "handle exec dr msg a tg = (a', tg', r)" by (cases "handle exec dr msg a tg")
  show ?case using handle_no_panic [OF "2.prems", of exec dr msg tg] 2(1) [OF h [symmetric] refl] h
    by (cases r) auto
qed (simp add: no_panics)

text \<open>C38: The applier never panics. Whatever messages a server sends, in any order and with rows of any
  width, a worker that started ends in success or in one of the documented errors: a key column index is
  never out of range.\<close>

theorem applier_never_panics:
  assumes "applier_new env progress consumer = Ok a"
  shows "snd (snd (handle_all exec dr msgs a tg)) \<noteq> Err IndexPanic"
proof -
  have "ap_relations a = Map.empty"
    using assms by (auto simp: applier_new_def bind_res_eq_Inr Let_def split: option.splits prod.splits)
  then show ?thesis using handle_all_no_panic [of a] by (simp add: no_panic_def)
qed

theorem applier_never_panics_witness:
  "snd (snd (handle_all (\<lambda>sql d. Ok (1, d + 1)) \<lparr>dr_begin = Ok (), dr_progress = Ok (), dr_commit = CommitOk\<rparr>
      [DeleteMsg \<lparr>del_xid = None, del_rel_oid = 7, del_key = Some \<lparr>tp_columns = []\<rparr>, del_old = None\<rparr>]
      \<lparr>ap_relations = Map.empty, ap_consumer = ''c'', ap_checkpoint = 0, ap_ack = 0, ap_pending = []\<rparr>
      \<lparr>tg_data = 0 :: nat, tg_progress = Map.empty\<rparr>)) \<noteq> Err IndexPanic"
  by (rule applier_never_panics [of "\<lparr>se_set_timeout = Ok (), se_lease = Ok (), se_reset_timeout = Ok (), se_setup = Ok (), se_load = Ok ()\<rparr>"
        Map.empty]) (simp add: applier_new_def)

end
