(* ===== verification/Applier_Once.thy ===== *)
theory Applier_Once
  imports Applier
begin

text \<open>
  Exactly-once apply. Any number of workers of one consumer, started at any time, each receive a suffix
  of the source's transactions from its slot; they may crash anywhere, lose a commit or never learn its
  outcome, and two may run at once although the lease should prevent it. The server resends every
  transaction it was not told is durable: it skips one only when its commit position is below the
  confirmed one (the documented rule of logical slots). The target is always the source's state after some
  prefix of the transactions, and its progress row names that prefix.
\<close>

section \<open>The source's transactions\<close>

record txn =
  tx_begin :: begin_msg
  tx_body :: "logical_rep_msg list"
  tx_commit :: commit_msg

definition txn_msgs :: "txn \<Rightarrow> logical_rep_msg list" where
  "txn_msgs t = Begin (tx_begin t) # tx_body t @ [Commit (tx_commit t)]"

abbreviation tx_lsn :: "txn \<Rightarrow> lsn" where "tx_lsn t \<equiv> cm_commit_lsn (tx_commit t)"
abbreviation tx_end :: "txn \<Rightarrow> lsn" where "tx_end t \<equiv> cm_end_lsn (tx_commit t)"

text \<open>A body has the messages between a begin and a commit; \<open>rels\<close> are the published relations, and
  a relation message describes one of them.\<close>

fun body_msg_ok :: "(oid \<rightharpoonup> relation_info) \<Rightarrow> logical_rep_msg \<Rightarrow> bool" where
  "body_msg_ok rels (Begin _) = False"
| "body_msg_ok rels (Commit _) = False"
| "body_msg_ok rels (RelationMsg r) = (rels (re_oid r) = Some (relation_info_of r))"
| "body_msg_ok rels _ = True"

fun change_of :: "logical_rep_msg \<Rightarrow> apply_error + pending_change list" where
  "change_of (InsertMsg i) = bind_res (insert_change i) (\<lambda>c. Ok [c])"
| "change_of (UpdateMsg u) = bind_res (update_change u) (\<lambda>c. Ok [c])"
| "change_of (DeleteMsg d) = bind_res (delete_change d) (\<lambda>c. Ok [c])"
| "change_of (RelationMsg _) = Ok []"
| "change_of (Origin _) = Ok []"
| "change_of (TypeMsg _) = Ok []"
| "change_of (Message _) = Ok []"
| "change_of (TruncateMsg _) = Err (Unsupported ''TRUNCATE apply'')"
| "change_of _ = Err (Unsupported ''streamed or two-phase transactions'')"

definition changes_of :: "logical_rep_msg list \<Rightarrow> apply_error + pending_change list" where
  "changes_of msgs = bind_res (collect_res change_of msgs) (\<lambda>cs. Ok (concat cs))"

text \<open>The effect of one source transaction on the data, and of a sequence of them.\<close>

definition effect :: "(string \<Rightarrow> 'd \<Rightarrow> string + nat \<times> 'd) \<Rightarrow> (oid \<rightharpoonup> relation_info) \<Rightarrow> txn \<Rightarrow> 'd \<Rightarrow> 'd option" where
  "effect exec rels t d =
     ok_of (bind_res (changes_of (tx_body t)) (\<lambda>cs.
            bind_res (build_statements rels cs) (\<lambda>ss. run_statements exec ss d)))"

fun replay :: "(string \<Rightarrow> 'd \<Rightarrow> string + nat \<times> 'd) \<Rightarrow> (oid \<rightharpoonup> relation_info) \<Rightarrow> txn list \<Rightarrow> 'd \<Rightarrow> 'd option" where
  "replay exec rels [] d = Some d"
| "replay exec rels (t # ts) d = Option.bind (effect exec rels t d) (replay exec rels ts)"

text \<open>Positions grow along the stream, a transaction ends after its commit record and before the next
  one's, and all fit a signed 64-bit number. \<open>start\<close> is the slot's consistent point.\<close>

fun positions_ok :: "lsn \<Rightarrow> txn list \<Rightarrow> bool" where
  "positions_ok start [] = True"
| "positions_ok start (t # ts) \<longleftrightarrow> start \<le> tx_lsn t \<and> tx_lsn t < tx_end t \<and> tx_end t < 2 ^ 63 \<and> positions_ok (tx_end t) ts"

definition stream_ok :: "(oid \<rightharpoonup> relation_info) \<Rightarrow> lsn \<Rightarrow> txn list \<Rightarrow> bool" where
  "stream_ok rels start stream \<longleftrightarrow> 0 < start \<and> positions_ok start stream
     \<and> list_all (\<lambda>t. list_all (body_msg_ok rels) (tx_body t)) stream"

section \<open>Workers\<close>

record 'd world =
  wo_target :: "'d target"
  wo_confirmed :: lsn
  wo_worker :: "nat \<Rightarrow> (applier \<times> nat) option"

definition may_start :: "txn list \<Rightarrow> lsn \<Rightarrow> nat \<Rightarrow> bool" where
  "may_start stream confirmed j \<longleftrightarrow> j \<le> length stream \<and> list_all (\<lambda>t. tx_lsn t < confirmed) (take j stream)"

definition world_init :: "lsn \<Rightarrow> string \<Rightarrow> 'd target \<Rightarrow> 'd world \<Rightarrow> bool" where
  "world_init start consumer tg w \<longleftrightarrow> tg_progress tg consumer = None
     \<and> w = \<lparr>wo_target = tg, wo_confirmed = start, wo_worker = (\<lambda>_. None)\<rparr>"

inductive apply_step ::
    "(string \<Rightarrow> 'd \<Rightarrow> string + nat \<times> 'd) \<Rightarrow> string \<Rightarrow> txn list \<Rightarrow> 'd world \<Rightarrow> 'd world \<Rightarrow> bool"
  for exec consumer stream where
  worker_start:
    "applier_new env (tg_progress (wo_target w)) consumer = Ok a \<Longrightarrow> may_start stream (wo_confirmed w) j \<Longrightarrow>
     apply_step exec consumer stream w (w\<lparr>wo_worker := (wo_worker w)(p \<mapsto> (a, j))\<rparr>)"
| worker_txn:
    "wo_worker w p = Some (a, j) \<Longrightarrow> j < length stream \<Longrightarrow>
     handle_all exec dr (txn_msgs (stream ! j)) a (wo_target w) = (a', tg', Ok ()) \<Longrightarrow>
     apply_step exec consumer stream w (w\<lparr>wo_target := tg', wo_worker := (wo_worker w)(p \<mapsto> (a', j + 1))\<rparr>)"
| worker_fail:
    "wo_worker w p = Some (a, j) \<Longrightarrow> j < length stream \<Longrightarrow>
     handle_all exec dr (txn_msgs (stream ! j)) a (wo_target w) = (a', tg', Err e) \<Longrightarrow>
     apply_step exec consumer stream w (w\<lparr>wo_target := tg', wo_worker := (wo_worker w)(p := None)\<rparr>)"
| worker_crash:
    "apply_step exec consumer stream w (w\<lparr>wo_worker := (wo_worker w)(p := None)\<rparr>)"
| worker_confirm:
    "wo_worker w p = Some (a, j) \<Longrightarrow> c \<le> ap_ack a \<Longrightarrow>
     apply_step exec consumer stream w (w\<lparr>wo_confirmed := max (wo_confirmed w) c\<rparr>)"

inductive apply_reachable ::
    "(string \<Rightarrow> 'd \<Rightarrow> string + nat \<times> 'd) \<Rightarrow> string \<Rightarrow> txn list \<Rightarrow> 'd world \<Rightarrow> 'd world \<Rightarrow> bool"
  for exec consumer stream w0 where
  reach_init: "apply_reachable exec consumer stream w0 w0"
| reach_step: "apply_reachable exec consumer stream w0 w \<Longrightarrow> apply_step exec consumer stream w w' \<Longrightarrow>
    apply_reachable exec consumer stream w0 w'"

section \<open>Positions\<close>

definition lsn_at :: "txn list \<Rightarrow> nat \<Rightarrow> lsn" where
  "lsn_at stream k = (if k = 0 then 0 else tx_lsn (stream ! (k - 1)))"

definition end_at :: "lsn \<Rightarrow> txn list \<Rightarrow> nat \<Rightarrow> lsn" where
  "end_at start stream k = (if k = 0 then start else tx_end (stream ! (k - 1)))"

lemma positions_nth:
  assumes "positions_ok start stream" and "i < length stream"
  shows "end_at start stream i \<le> tx_lsn (stream ! i) \<and> tx_lsn (stream ! i) < tx_end (stream ! i) \<and> tx_end (stream ! i) < 2 ^ 63"
  using assms
proof (induction stream arbitrary: start i)
  case (Cons t ts)
  show ?case
  proof (cases i)
    case (Suc k)
    then have "end_at start (t # ts) i = end_at (tx_end t) ts k" by (cases k) (simp_all add: end_at_def)
    then show ?thesis using Cons Suc by auto
  qed (use Cons.prems in \<open>simp add: end_at_def\<close>)
qed simp

lemma end_at_mono:
  assumes "positions_ok start stream" and "i \<le> k" and "k \<le> length stream"
  shows "end_at start stream i \<le> end_at start stream k"
  using assms(2,3)
proof (induction rule: dec_induct)
  case (step n)
  then have "end_at start stream n \<le> tx_lsn (stream ! n)" "tx_lsn (stream ! n) < tx_end (stream ! n)"
    using positions_nth [OF assms(1), of n] by simp_all
  then have "end_at start stream n \<le> end_at start stream (Suc n)" by (simp add: end_at_def)
  then show ?case using step by simp
qed simp

lemma end_at_le_lsn:
  "positions_ok start stream \<Longrightarrow> i \<le> k \<Longrightarrow> k < length stream \<Longrightarrow> end_at start stream i \<le> tx_lsn (stream ! k)"
  using end_at_mono [of start stream i k] positions_nth [of start stream k] by (meson less_imp_le order_trans)

lemma lsn_at_less_end: "positions_ok start stream \<Longrightarrow> 0 < start \<Longrightarrow> k \<le> length stream \<Longrightarrow> lsn_at stream k < end_at start stream k"
  using positions_nth [of start stream "k - 1"] by (auto simp: lsn_at_def end_at_def)

lemma lsn_compare:
  assumes "positions_ok start stream" and "0 < start" and "m \<le> length stream" and "j < length stream"
  shows "tx_lsn (stream ! j) \<le> lsn_at stream m \<longleftrightarrow> j < m"
proof
  assume le: "tx_lsn (stream ! j) \<le> lsn_at stream m"
  show "j < m"
  proof (rule ccontr)
    assume "\<not> j < m"
    then have "end_at start stream m \<le> tx_lsn (stream ! j)" using end_at_le_lsn assms by simp
    then show False using le lsn_at_less_end [OF assms(1-3)] by simp
  qed
next
  assume "j < m"
  show "tx_lsn (stream ! j) \<le> lsn_at stream m"
  proof (cases "m = j + 1")
    case False
    then have "end_at start stream (j + 1) \<le> tx_lsn (stream ! (m - 1))"
      using \<open>j < m\<close> assms by (intro end_at_le_lsn) auto
    moreover have "tx_lsn (stream ! j) < end_at start stream (j + 1)"
      using positions_nth [OF assms(1,4)] by (simp add: end_at_def)
    ultimately show ?thesis using \<open>j < m\<close> by (simp add: lsn_at_def)
  qed (simp add: lsn_at_def)
qed

lemma sint_less_iff:
  assumes "a < 2 ^ 63" and "b < 2 ^ 63"
  shows "sint (a :: 64 word) < sint b \<longleftrightarrow> a < b"
proof -
  have pos: "sint w = uint w" if "w < 2 ^ 63" for w :: "64 word"
  proof -
    have "uint w < 2 ^ 63" using that by (simp add: word_less_def)
    moreover have "- (2 ^ 63) \<le> uint w" by (rule order_trans [of _ 0]) simp_all
    ultimately show ?thesis by (simp add: sint_uint signed_take_bit_int_eq_self)
  qed
  show ?thesis using assms by (simp add: pos word_less_def)
qed

lemma lsn_at_bound: "positions_ok start stream \<Longrightarrow> k \<le> length stream \<Longrightarrow> lsn_at stream k < 2 ^ 63"
  using positions_nth [of start stream "k - 1"] by (cases k) (auto simp: lsn_at_def intro: less_trans)

section \<open>One transaction\<close>

lemma handle_all_append:
  "handle_all exec dr (xs @ ys) a tg =
   (case handle_all exec dr xs a tg of
      (a', tg', Err e) \<Rightarrow> (a', tg', Err e)
    | (a', tg', Ok _) \<Rightarrow> handle_all exec dr ys a' tg')"
  by (induction xs arbitrary: a tg) (auto split: prod.splits sum.splits)

text \<open>What a body message does to a worker: it touches neither the target nor the positions.\<close>

definition same_positions :: "applier \<Rightarrow> applier \<Rightarrow> bool" where
  "same_positions a a' \<longleftrightarrow> ap_consumer a' = ap_consumer a \<and> ap_checkpoint a' = ap_checkpoint a \<and> ap_ack a' = ap_ack a"

lemma handle_body_msg:
  assumes "body_msg_ok rels msg" and "ap_relations a \<subseteq>\<^sub>m rels"
  shows "\<exists>a'. handle exec dr msg a tg = (a', tg, bind_res (change_of msg) (\<lambda>_. Ok ())) \<and> same_positions a a'
    \<and> ap_relations a' \<subseteq>\<^sub>m rels \<and> dom (ap_relations a) \<subseteq> dom (ap_relations a')
    \<and> (\<forall>cs. change_of msg = Ok cs \<longrightarrow> ap_pending a' = ap_pending a @ cs)"
proof -
  have push: "\<exists>a'. push_change a c = (a', bind_res (bind_res c (\<lambda>c. Ok [c])) (\<lambda>_. Ok ())) \<and> same_positions a a'
      \<and> ap_relations a' = ap_relations a \<and> (\<forall>cs. bind_res c (\<lambda>c. Ok [c]) = Ok cs \<longrightarrow> ap_pending a' = ap_pending a @ cs)" for c
    by (cases c) (auto simp: push_change_def same_positions_def)
  show ?thesis
  proof (cases msg)
    case (RelationMsg r)
    have "(ap_relations a)(re_oid r \<mapsto> relation_info_of r) \<subseteq>\<^sub>m rels"
      using assms RelationMsg by (auto simp: map_le_def)
    then show ?thesis using RelationMsg by (auto simp: handle_def same_positions_def)
  next
    case (InsertMsg i)
    then show ?thesis using push [of "insert_change i"] assms(2) by (auto simp: handle_def)
  next
    case (UpdateMsg u)
    then show ?thesis using push [of "update_change u"] assms(2) by (auto simp: handle_def)
  next
    case (DeleteMsg d)
    then show ?thesis using push [of "delete_change d"] assms(2) by (auto simp: handle_def)
  qed (use assms in \<open>auto simp: handle_def same_positions_def\<close>)
qed

lemma changes_of_Cons:
  "changes_of (msg # msgs) = bind_res (change_of msg) (\<lambda>c. bind_res (changes_of msgs) (\<lambda>cs. Ok (c @ cs)))"
  by (cases "change_of msg"; cases "collect_res change_of msgs") (simp_all add: changes_of_def)

lemma handle_body:
  assumes "list_all (body_msg_ok rels) body" and "ap_relations a \<subseteq>\<^sub>m rels"
  shows "\<exists>a'. handle_all exec dr body a tg = (a', tg, bind_res (changes_of body) (\<lambda>_. Ok ())) \<and> same_positions a a'
    \<and> ap_relations a' \<subseteq>\<^sub>m rels \<and> dom (ap_relations a) \<subseteq> dom (ap_relations a')
    \<and> (\<forall>cs. changes_of body = Ok cs \<longrightarrow> ap_pending a' = ap_pending a @ cs)"
  using assms
proof (induction body arbitrary: a)
  case (Cons msg body)
  obtain a1 where a1: "handle exec dr msg a tg = (a1, tg, bind_res (change_of msg) (\<lambda>_. Ok ()))" "same_positions a a1"
      "ap_relations a1 \<subseteq>\<^sub>m rels" "dom (ap_relations a) \<subseteq> dom (ap_relations a1)"
      "\<forall>cs. change_of msg = Ok cs \<longrightarrow> ap_pending a1 = ap_pending a @ cs"
    using handle_body_msg [of rels msg a exec dr tg] Cons.prems by auto
  obtain a2 where a2: "handle_all exec dr body a1 tg = (a2, tg, bind_res (changes_of body) (\<lambda>_. Ok ()))" "same_positions a1 a2"
      "ap_relations a2 \<subseteq>\<^sub>m rels" "dom (ap_relations a1) \<subseteq> dom (ap_relations a2)"
      "\<forall>cs. changes_of body = Ok cs \<longrightarrow> ap_pending a2 = ap_pending a1 @ cs"
    using Cons.IH [OF _ a1(3)] Cons.prems by auto
  have sp: "same_positions a a2" using a1(2) a2(2) by (simp add: same_positions_def)
  show ?case
  proof (cases "change_of msg")
    case (Inl e)
    then show ?thesis using a1 by (intro exI [of _ a1]) (simp add: changes_of_Cons)
  next
    case (Inr c)
    then show ?thesis using a1 a2 sp
      by (intro exI [of _ a2]) (cases "changes_of body"; auto simp: changes_of_Cons)
  qed
qed (simp add: changes_of_def same_positions_def)

lemma build_change_mono:
  assumes "r \<subseteq>\<^sub>m rels" and "build_change r c = Ok ss"
  shows "build_change rels c = Ok ss"
proof -
  have known: "relation_of rels oid = Ok rel" if "relation_of r oid = Ok rel" for oid rel
    using assms(1) that by (auto simp: relation_of_def map_le_def dom_def)
  show ?thesis using assms(2) by (cases c) (auto simp: build_change_def bind_res_eq_Inr known)
qed

lemma build_statements_mono:
  assumes "r \<subseteq>\<^sub>m rels" and "build_statements r cs = Ok ss"
  shows "build_statements rels cs = Ok ss"
proof -
  obtain sss where sss: "list_all2 (\<lambda>c s. build_change r c = Ok s) cs sss" "ss = concat sss"
    using assms(2) by (auto simp: build_statements_def bind_res_eq_Inr collect_res_Inr)
  have "list_all2 (\<lambda>c s. build_change rels c = Ok s) cs sss"
    by (rule list.rel_mono_strong [OF sss(1)]) (rule build_change_mono [OF assms(1)])
  then have "collect_res (build_change rels) cs = Ok sss" by (simp add: collect_res_Inr)
  then show ?thesis by (simp add: build_statements_def sss(2))
qed

lemma map_le_dom_eq: "r \<subseteq>\<^sub>m rels \<Longrightarrow> dom rels \<subseteq> dom r \<Longrightarrow> r = rels"
  by (rule map_le_antisym) (force simp: map_le_def)+

text \<open>The commit of a transaction whose changes are buffered: it is skipped when the checkpoint covers
  it; otherwise the target is unchanged, or it took exactly this transaction's effect and the progress row
  moved to it.\<close>

lemma apply_commit_cases:
  assumes "apply_commit exec dr l e a tg = (a', tg', r)"
  obtains (skip) "l \<le> ap_checkpoint a" "tg' = tg" "r = Ok ()" "a' = a\<lparr>ap_ack := max (ap_ack a) e, ap_pending := []\<rparr>"
  | (refused) "\<not> l \<le> ap_checkpoint a" "tg' = tg" "\<not> is_ok r" "a' = a"
  | (applied) ss d p where "\<not> l \<le> ap_checkpoint a" "build_statements (ap_relations a) (ap_pending a) = Ok ss"
      "run_statements exec ss (tg_data tg) = Ok d" "progress_cas (ap_consumer a) l e (tg_progress tg) = (1, p)"
      "tg' = \<lparr>tg_data = d, tg_progress = p\<rparr>"
      "(if is_ok r then a' = a\<lparr>ap_checkpoint := l, ap_ack := max (ap_ack a) e, ap_pending := []\<rparr> else a' = a)"
  using assms
  by (auto simp: apply_commit_def Let_def split: if_splits sum.splits prod.splits commit_outcome.splits)

section \<open>The invariant\<close>

definition prefix_applied ::
    "(string \<Rightarrow> 'd \<Rightarrow> string + nat \<times> 'd) \<Rightarrow> (oid \<rightharpoonup> relation_info) \<Rightarrow> lsn \<Rightarrow> txn list \<Rightarrow> 'd \<Rightarrow> string \<Rightarrow> 'd target \<Rightarrow> nat \<Rightarrow> bool" where
  "prefix_applied exec rels start stream d0 consumer tg k \<longleftrightarrow> k \<le> length stream
     \<and> replay exec rels (take k stream) d0 = Some (tg_data tg)
     \<and> tg_progress tg consumer = (if k = 0 then None else Some (lsn_at stream k, end_at start stream k))"

definition worker_ok :: "(oid \<rightharpoonup> relation_info) \<Rightarrow> lsn \<Rightarrow> txn list \<Rightarrow> string \<Rightarrow> nat \<Rightarrow> applier \<times> nat \<Rightarrow> bool" where
  "worker_ok rels start stream consumer k aj \<longleftrightarrow> (\<exists>m \<le> k. snd aj \<le> m \<and> ap_checkpoint (fst aj) = lsn_at stream m)
     \<and> ap_ack (fst aj) \<le> end_at start stream k \<and> ap_relations (fst aj) \<subseteq>\<^sub>m rels \<and> ap_consumer (fst aj) = consumer"

lemma worker_ok_mono:
  "worker_ok rels start stream consumer k aj \<Longrightarrow> positions_ok start stream \<Longrightarrow> k \<le> k' \<Longrightarrow> k' \<le> length stream \<Longrightarrow>
   worker_ok rels start stream consumer k' aj"
  unfolding worker_ok_def using end_at_mono [of start stream k k'] by (meson order_trans)

lemma replay_append: "replay exec rels (ts @ us) d = Option.bind (replay exec rels ts d) (replay exec rels us)"
  by (induction ts arbitrary: d) (auto split: Option.bind_splits)

lemma replay_snoc: "replay exec rels (ts @ [t]) d = Option.bind (replay exec rels ts d) (effect exec rels t)"
  by (cases "replay exec rels ts d") (auto simp: replay_append split: Option.bind_splits)

lemma effectI:
  "changes_of (tx_body t) = Ok cs \<Longrightarrow> build_statements rels cs = Ok ss \<Longrightarrow> run_statements exec ss d = Ok d' \<Longrightarrow>
   effect exec rels t d = Some d'"
  by (simp add: effect_def ok_of_def)

lemma effectE:
  assumes "effect exec rels t d = Some d'"
  obtains cs ss where "changes_of (tx_body t) = Ok cs" "build_statements rels cs = Ok ss" "run_statements exec ss d = Ok d'"
  using assms by (auto simp: effect_def ok_of_def bind_res_def split: sum.splits)

lemma handle_txn:
  assumes "list_all (body_msg_ok rels) (tx_body t)" and "ap_relations a \<subseteq>\<^sub>m rels"
  obtains (body_error) a1 e where "handle_all exec dr (txn_msgs t) a tg = (a1, tg, Err e)" "changes_of (tx_body t) = Err e"
  | (body) a1 cs where "handle_all exec dr (txn_msgs t) a tg = apply_commit exec dr (tx_lsn t) (tx_end t) a1 tg"
      "changes_of (tx_body t) = Ok cs" "same_positions a a1" "ap_relations a1 \<subseteq>\<^sub>m rels"
      "dom (ap_relations a) \<subseteq> dom (ap_relations a1)" "ap_pending a1 = cs"
proof -
  let ?a = "a\<lparr>ap_pending := []\<rparr>"
  obtain a1 where a1: "handle_all exec dr (tx_body t) ?a tg = (a1, tg, bind_res (changes_of (tx_body t)) (\<lambda>_. Ok ()))"
      "same_positions ?a a1" "ap_relations a1 \<subseteq>\<^sub>m rels" "dom (ap_relations ?a) \<subseteq> dom (ap_relations a1)"
      "\<forall>cs. changes_of (tx_body t) = Ok cs \<longrightarrow> ap_pending a1 = cs"
    using handle_body [OF assms(1), of ?a exec dr tg] assms(2) by auto
  have run: "handle_all exec dr (txn_msgs t) a tg =
      (case bind_res (changes_of (tx_body t)) (\<lambda>_. Ok ()) of
         Err e \<Rightarrow> (a1, tg, Err e) | Ok _ \<Rightarrow> handle_all exec dr [Commit (tx_commit t)] a1 tg)"
    unfolding txn_msgs_def by (simp add: handle_def handle_all_append a1(1) split: sum.splits)
  show ?thesis
  proof (cases "changes_of (tx_body t)")
    case (Inl e)
    then show ?thesis using run by (intro body_error [of a1 e]) simp_all
  next
    case (Inr cs)
    have "handle_all exec dr [Commit (tx_commit t)] a1 tg = apply_commit exec dr (tx_lsn t) (tx_end t) a1 tg"
      by (simp add: handle_def split: prod.splits sum.splits)
    then show ?thesis using run Inr a1 by (intro body [of a1 cs]) (simp_all add: same_positions_def)
  qed
qed

lemma cas_advances:
  assumes ok: "positions_ok start stream" "0 < start" and j: "j < length stream" and k: "k \<le> length stream"
    and prog: "prog consumer = (if k = 0 then None else Some (lsn_at stream k, end_at start stream k))"
    and cas: "progress_cas consumer (tx_lsn (stream ! j)) (tx_end (stream ! j)) prog = (n, p)"
  shows "n = 1 \<longleftrightarrow> k \<le> j" and "n = 1 \<Longrightarrow> p = prog(consumer \<mapsto> (tx_lsn (stream ! j), tx_end (stream ! j)))"
proof -
  have "sint (lsn_at stream k) < sint (tx_lsn (stream ! j)) \<longleftrightarrow> lsn_at stream k < tx_lsn (stream ! j)"
    using lsn_at_bound [OF ok(1) k] lsn_at_bound [OF ok(1), of "Suc j"] j by (intro sint_less_iff) (simp_all add: lsn_at_def)
  then have "sint (lsn_at stream k) < sint (tx_lsn (stream ! j)) \<longleftrightarrow> k \<le> j"
    using lsn_compare [OF ok k j] by auto
  then show "n = 1 \<longleftrightarrow> k \<le> j" and "n = 1 \<Longrightarrow> p = prog(consumer \<mapsto> (tx_lsn (stream ! j), tx_end (stream ! j)))"
    using prog cas by (auto simp: progress_cas_def split: if_splits)
qed

lemma txn_step:
  assumes ok: "stream_ok rels start stream" and pre: "prefix_applied exec rels start stream d0 consumer tg k"
    and wk: "worker_ok rels start stream consumer k (a, j)" and j: "j < length stream"
    and run: "handle_all exec dr (txn_msgs (stream ! j)) a tg = (a', tg', r)"
  obtains k' where "k \<le> k'" "prefix_applied exec rels start stream d0 consumer tg' k'"
    "is_ok r \<Longrightarrow> worker_ok rels start stream consumer k' (a', j + 1)"
proof -
  let ?t = "stream ! j"
  have pos: "positions_ok start stream" "0 < start" and body_ok: "list_all (body_msg_ok rels) (tx_body ?t)"
    using ok j by (auto simp: stream_ok_def list_all_length)
  obtain m where m: "m \<le> k" "j \<le> m" "ap_checkpoint a = lsn_at stream m" and ack: "ap_ack a \<le> end_at start stream k"
      and rel: "ap_relations a \<subseteq>\<^sub>m rels" and con: "ap_consumer a = consumer"
    using wk by (auto simp: worker_ok_def)
  have k: "k \<le> length stream" using pre by (simp add: prefix_applied_def)
  have end_j: "end_at start stream (j + 1) = tx_end ?t" by (simp add: end_at_def)
  from body_ok rel show thesis
  proof (cases rule: handle_txn [where exec = exec and dr = dr and tg = tg])
    case (body_error a1 e)
    then show thesis using run pre by (intro that [of k]) auto
  next
    case (body a1 cs)
    have comp: "tx_lsn ?t \<le> ap_checkpoint a1 \<longleftrightarrow> j < m"
      using lsn_compare [OF pos, of m j] m k j body(3) by (simp add: same_positions_def)
    from run [unfolded body(1)] show thesis
    proof (cases rule: apply_commit_cases)
      case skip
      then have "tx_end ?t \<le> end_at start stream k"
        using end_at_mono [OF pos(1), of "j + 1" k] comp m k end_j by simp
      then have "worker_ok rels start stream consumer k (a', j + 1)"
        using skip comp m ack con body(3,4) by (auto simp: worker_ok_def same_positions_def intro!: exI [of _ m])
      then show thesis using pre skip by (intro that [of k]) auto
    next
      case refused
      then show thesis using pre by (intro that [of k]) auto
    next
      case (applied ss d p)
      have "tg_progress tg consumer = (if k = 0 then None else Some (lsn_at stream k, end_at start stream k))"
        using pre by (simp add: prefix_applied_def)
      note cas = cas_advances [where prog = "tg_progress tg", OF pos j k this]
      have adv: "progress_cas consumer (tx_lsn ?t) (tx_end ?t) (tg_progress tg) = (1, p)"
        using applied(4) con body(3) by (simp add: same_positions_def)
      have "j = k" using cas(1) [OF adv] applied(1) comp m by auto
      have "effect exec rels ?t (tg_data tg) = Some d"
        using body(2,6) applied(2,3) build_statements_mono [OF body(4)] by (intro effectI) auto
      then have "replay exec rels (take (k + 1) stream) d0 = Some d"
        using pre j \<open>j = k\<close> by (simp add: prefix_applied_def take_Suc_conv_app_nth replay_snoc)
      then have pre': "prefix_applied exec rels start stream d0 consumer tg' (k + 1)"
        using cas(2) [OF adv] j \<open>j = k\<close> end_j applied(5) by (simp add: prefix_applied_def lsn_at_def)
      have "end_at start stream k \<le> tx_end ?t"
        using end_at_mono [OF pos(1), of k "k + 1"] j \<open>j = k\<close> end_j by simp
      then have "worker_ok rels start stream consumer (k + 1) (a', j + 1)" if "is_ok r"
        using applied(6) that \<open>j = k\<close> ack con body(3,4) end_j
        by (auto simp: worker_ok_def same_positions_def lsn_at_def intro!: exI [of _ "k + 1"])
      then show thesis using pre' by (intro that [of "k + 1"]) auto
    qed
  qed
qed

definition world_ok ::
    "(string \<Rightarrow> 'd \<Rightarrow> string + nat \<times> 'd) \<Rightarrow> (oid \<rightharpoonup> relation_info) \<Rightarrow> lsn \<Rightarrow> txn list \<Rightarrow> 'd \<Rightarrow> string \<Rightarrow> 'd world \<Rightarrow> nat \<Rightarrow> bool" where
  "world_ok exec rels start stream d0 consumer w k \<longleftrightarrow>
     prefix_applied exec rels start stream d0 consumer (wo_target w) k
     \<and> wo_confirmed w \<le> end_at start stream k
     \<and> (\<forall>p aj. wo_worker w p = Some aj \<longrightarrow> worker_ok rels start stream consumer k aj)"

lemma prefix_le: "prefix_applied exec rels start stream d0 consumer tg k \<Longrightarrow> k \<le> length stream"
  by (simp add: prefix_applied_def)

text \<open>What the server may skip is applied.\<close>

lemma skipped_applied:
  assumes ok: "stream_ok rels start stream" and k: "k \<le> length stream" and c: "c \<le> end_at start stream k"
    and i: "i < length stream" "tx_lsn (stream ! i) < c"
  shows "i < k"
proof (rule ccontr)
  assume "\<not> i < k"
  then have "end_at start stream k \<le> tx_lsn (stream ! i)"
    using end_at_le_lsn [of start stream k i] ok i by (simp add: stream_ok_def)
  then show False using c i(2) by simp
qed

lemma may_start_le:
  assumes "stream_ok rels start stream" and "k \<le> length stream" and "c \<le> end_at start stream k" and "may_start stream c j"
  shows "j \<le> k"
proof (cases j)
  case (Suc i)
  then have "i < length stream" "tx_lsn (stream ! i) < c"
    using assms(4) by (auto simp: may_start_def take_Suc_conv_app_nth)
  then show ?thesis using skipped_applied [OF assms(1-3), of i] Suc by simp
qed simp

lemma started_ok:
  assumes ok: "stream_ok rels start stream" and pre: "prefix_applied exec rels start stream d0 consumer tg k"
    and new: "applier_new env (tg_progress tg) consumer = Ok a"
  shows "ap_checkpoint a = lsn_at stream k" "ap_ack a \<le> end_at start stream k" "ap_relations a = Map.empty" "ap_consumer a = consumer"
proof -
  have "lsn_at stream k < end_at start stream k"
    using lsn_at_less_end [of start stream k] ok prefix_le [OF pre] by (simp add: stream_ok_def)
  then show "ap_checkpoint a = lsn_at stream k" "ap_ack a \<le> end_at start stream k"
      "ap_relations a = Map.empty" "ap_consumer a = consumer"
    using new pre by (auto simp: applier_new_def prefix_applied_def bind_res_eq_Inr lsn_at_def Let_def split: if_splits)
qed

lemma step_ok:
  assumes ok: "stream_ok rels start stream" and inv: "world_ok exec rels start stream d0 consumer w k"
    and "apply_step exec consumer stream w w'"
  shows "\<exists>k' \<ge> k. world_ok exec rels start stream d0 consumer w' k'"
proof -
  have pos: "positions_ok start stream" using ok by (simp add: stream_ok_def)
  have pre: "prefix_applied exec rels start stream d0 consumer (wo_target w) k"
    and conf: "wo_confirmed w \<le> end_at start stream k"
    and wk: "\<And>p aj. wo_worker w p = Some aj \<Longrightarrow> worker_ok rels start stream consumer k aj"
    using inv by (auto simp: world_ok_def)
  note later = worker_ok_mono [OF wk pos]
  from assms(3) show ?thesis
  proof cases
    case (worker_start env a j p)
    have "worker_ok rels start stream consumer k (a, j)"
      using started_ok [OF ok pre worker_start(2)] may_start_le [OF ok prefix_le [OF pre] conf worker_start(3)]
      by (auto simp: worker_ok_def)
    then show ?thesis using worker_start pre conf wk by (intro exI [of _ k]) (auto simp: world_ok_def)
  next
    case (worker_txn p a j dr a' tg')
    from txn_step [OF ok pre wk [OF worker_txn(2)] worker_txn(3,4)]
    obtain k' where k': "k \<le> k'" "prefix_applied exec rels start stream d0 consumer tg' k'"
      "worker_ok rels start stream consumer k' (a', j + 1)" by auto
    have "wo_confirmed w \<le> end_at start stream k'"
      using conf end_at_mono [OF pos k'(1) prefix_le [OF k'(2)]] by simp
    then show ?thesis using worker_txn(1) k' later [OF _ k'(1) prefix_le [OF k'(2)]]
      by (intro exI [of _ k']) (auto simp: world_ok_def)
  next
    case (worker_fail p a j dr a' tg' e)
    from txn_step [OF ok pre wk [OF worker_fail(2)] worker_fail(3,4)]
    obtain k' where k': "k \<le> k'" "prefix_applied exec rels start stream d0 consumer tg' k'" by auto
    have "wo_confirmed w \<le> end_at start stream k'"
      using conf end_at_mono [OF pos k'(1) prefix_le [OF k'(2)]] by simp
    then show ?thesis using worker_fail(1) k' later [OF _ k'(1) prefix_le [OF k'(2)]]
      by (intro exI [of _ k']) (auto simp: world_ok_def)
  next
    case (worker_crash p)
    then show ?thesis using pre conf wk by (intro exI [of _ k]) (auto simp: world_ok_def)
  next
    case (worker_confirm p a j c)
    then have "c \<le> end_at start stream k" using wk [OF worker_confirm(2)] by (auto simp: worker_ok_def)
    then show ?thesis using worker_confirm pre conf wk by (intro exI [of _ k]) (auto simp: world_ok_def)
  qed
qed

lemma reachable_ok:
  assumes "stream_ok rels start stream" and "world_init start consumer tg w0" and "apply_reachable exec consumer stream w0 w"
  shows "\<exists>k. world_ok exec rels start stream (tg_data tg) consumer w k"
  using assms(3)
proof induction
  case reach_init
  then show ?case using assms(2)
    by (intro exI [of _ 0]) (auto simp: world_ok_def world_init_def prefix_applied_def end_at_def)
next
  case (reach_step w w')
  then obtain k where "world_ok exec rels start stream (tg_data tg) consumer w k" by blast
  from step_ok [OF assms(1) this reach_step(2)] show ?case by blast
qed

section \<open>Catching up\<close>

definition working :: driver where
  "working = \<lparr>dr_begin = Ok (), dr_progress = Ok (), dr_commit = CommitOk\<rparr>"

lemma replay_take:
  assumes "replay exec rels stream d0 = Some d" and "k < length stream" and "replay exec rels (take k stream) d0 = Some dk"
  obtains dk' where "effect exec rels (stream ! k) dk = Some dk'"
proof -
  have "stream = take k stream @ stream ! k # drop (Suc k) stream" using assms(2) by (rule id_take_nth_drop)
  then have "replay exec rels (stream ! k # drop (Suc k) stream) dk = Some d"
    using assms(1,3) replay_append [of exec rels "take k stream" "stream ! k # drop (Suc k) stream"] by simp
  then show thesis using that by (auto split: Option.bind_splits)
qed

lemma catch_up_txn:
  assumes ok: "stream_ok rels start stream" and pre: "prefix_applied exec rels start stream d0 consumer tg k"
    and full: "replay exec rels stream d0 = Some d"
    and a: "ap_checkpoint a = lsn_at stream k" "ap_relations a = rels" "ap_consumer a = consumer" and j: "j \<le> k" "j < length stream"
  obtains a' tg' where "handle_all exec working (txn_msgs (stream ! j)) a tg = (a', tg', Ok ())"
    "ap_relations a' = rels" "ap_consumer a' = consumer"
    "prefix_applied exec rels start stream d0 consumer tg' (max k (j + 1))" "ap_checkpoint a' = lsn_at stream (max k (j + 1))"
    "tx_end (stream ! j) \<le> ap_ack a'"
proof -
  let ?t = "stream ! j"
  have pos: "positions_ok start stream" "0 < start" and body_ok: "list_all (body_msg_ok rels) (tx_body ?t)"
    using ok j by (auto simp: stream_ok_def list_all_length)
  note k = prefix_le [OF pre]
  have take_j: "\<exists>dj. replay exec rels (take j stream) d0 = Some dj"
    using full replay_append [of exec rels "take j stream" "drop j stream" d0] by (auto split: Option.bind_splits)
  then obtain dj dj' where dj: "replay exec rels (take j stream) d0 = Some dj" "effect exec rels ?t dj = Some dj'"
    using replay_take [OF full j(2)] by blast
  from dj(2) obtain cs ss where cs: "changes_of (tx_body ?t) = Ok cs" "build_statements rels cs = Ok ss" "run_statements exec ss dj = Ok dj'"
    by (rule effectE)
  have "ap_relations a \<subseteq>\<^sub>m rels" by (simp add: a)
  from body_ok this obtain a1 where a1: "handle_all exec working (txn_msgs ?t) a tg = apply_commit exec working (tx_lsn ?t) (tx_end ?t) a1 tg"
      "same_positions a a1" "ap_relations a1 = rels" "ap_pending a1 = cs"
  proof (cases rule: handle_txn [where exec = exec and dr = working and tg = tg])
    case (body a1 cs')
    then have "ap_relations a1 = rels" using a(2) map_le_dom_eq [of "ap_relations a1" rels] by simp
    then show thesis using body cs(1) by (intro that [of a1]) simp_all
  qed (use cs(1) in simp)
  have comp: "tx_lsn ?t \<le> ap_checkpoint a1 \<longleftrightarrow> j < k"
    using lsn_compare [OF pos, of k j] k j a(1) a1(2) by (simp add: same_positions_def)
  show thesis
  proof (cases "j < k")
    case True
    then have "max k (j + 1) = k" by simp
    then show thesis using True a1 comp pre a k
      by (intro that [of "a1\<lparr>ap_ack := max (ap_ack a1) (tx_end ?t), ap_pending := []\<rparr>" tg])
        (auto simp: apply_commit_def same_positions_def)
  next
    case False
    then have "j = k" using j by simp
    then have data: "tg_data tg = dj" using pre dj(1) by (simp add: prefix_applied_def)
    have prog: "tg_progress tg consumer = (if k = 0 then None else Some (lsn_at stream k, end_at start stream k))"
      using pre by (simp add: prefix_applied_def)
    obtain n p where np: "progress_cas consumer (tx_lsn ?t) (tx_end ?t) (tg_progress tg) = (n, p)" by fastforce
    note cas = cas_advances [where prog = "tg_progress tg", OF pos j(2) k prog np]
    have n: "n = 1" using cas(1) \<open>j = k\<close> by simp
    let ?a = "a1\<lparr>ap_checkpoint := tx_lsn ?t, ap_ack := max (ap_ack a1) (tx_end ?t), ap_pending := []\<rparr>"
    let ?tg = "\<lparr>tg_data = dj', tg_progress = p\<rparr>"
    have run: "handle_all exec working (txn_msgs ?t) a tg = (?a, ?tg, Ok ())"
      using a1 comp False cs data np n a(3) by (simp add: apply_commit_def working_def same_positions_def)
    have "replay exec rels (take (k + 1) stream) d0 = Some dj'"
      using dj j(2) \<open>j = k\<close> by (simp add: take_Suc_conv_app_nth replay_snoc)
    then have "prefix_applied exec rels start stream d0 consumer ?tg (k + 1)"
      using cas(2) [OF n] j(2) \<open>j = k\<close> by (simp add: prefix_applied_def lsn_at_def end_at_def)
    then show thesis using run \<open>j = k\<close> a1(2,3) a(3)
      by (intro that [of ?a ?tg]) (auto simp: same_positions_def lsn_at_def)
  qed
qed

lemma catch_up:
  assumes ok: "stream_ok rels start stream" and full: "replay exec rels stream d0 = Some d"
    and "prefix_applied exec rels start stream d0 consumer tg k"
    and "ap_checkpoint a = lsn_at stream k" "ap_relations a = rels" "ap_consumer a = consumer" and "j \<le> k"
  shows "\<exists>a' tg'. handle_all exec working (concat (map txn_msgs (drop j stream))) a tg = (a', tg', Ok ())
    \<and> prefix_applied exec rels start stream d0 consumer tg' (length stream) \<and> ap_checkpoint a' = lsn_at stream (length stream)"
  using assms(3-)
proof (induction "length stream - j" arbitrary: j k a tg)
  case 0
  then have "j = length stream" "k = length stream" using prefix_le [OF "0.prems"(1)] by simp_all
  then show ?case using 0 by auto
next
  case (Suc n)
  then have j: "j < length stream" by simp
  from catch_up_txn [OF ok Suc.prems(1) full Suc.prems(2-5) j] obtain a1 tg1 where
    a1: "handle_all exec working (txn_msgs (stream ! j)) a tg = (a1, tg1, Ok ())" "ap_relations a1 = rels" "ap_consumer a1 = consumer"
      "prefix_applied exec rels start stream d0 consumer tg1 (max k (j + 1))" "ap_checkpoint a1 = lsn_at stream (max k (j + 1))"
    by metis
  have "drop j stream = stream ! j # drop (j + 1) stream" using j by (simp add: Cons_nth_drop_Suc)
  moreover have "\<exists>a' tg'. handle_all exec working (concat (map txn_msgs (drop (j + 1) stream))) a1 tg1 = (a', tg', Ok ())
    \<and> prefix_applied exec rels start stream d0 consumer tg' (length stream) \<and> ap_checkpoint a' = lsn_at stream (length stream)"
    using Suc.hyps(1) [of "j + 1" tg1 "max k (j + 1)" a1] Suc.hyps(2) a1 by auto
  ultimately show ?case using a1(1) by (auto simp: handle_all_append)
qed

section \<open>Properties\<close>

text \<open>C9: Every source transaction is applied exactly once and in order. Whatever workers start, crash,
  fail, lose or never learn a commit, or run at the same time, the target's data is at every moment the
  result of applying the first \<open>k\<close> source transactions once each to the initial data, the durable progress
  row names the \<open>k\<close>-th, and every transaction the server was allowed to forget is among them.\<close>

theorem applied_exactly_once:
  assumes "stream_ok rels start stream" and "world_init start consumer tg w0"
    and "apply_reachable exec consumer stream w0 w"
  shows "\<exists>k \<le> length stream. replay exec rels (take k stream) (tg_data tg) = Some (tg_data (wo_target w))
    \<and> tg_progress (wo_target w) consumer =
        (if k = 0 then None else Some (tx_lsn (stream ! (k - 1)), tx_end (stream ! (k - 1))))
    \<and> list_all (\<lambda>i. tx_lsn (stream ! i) < wo_confirmed w \<longrightarrow> i < k) [0..<length stream]"
proof -
  obtain k where k: "world_ok exec rels start stream (tg_data tg) consumer w k" using reachable_ok [OF assms] by blast
  then have "i < k" if "i < length stream" "tx_lsn (stream ! i) < wo_confirmed w" for i
    using skipped_applied [OF assms(1) _ _ that] by (auto simp: world_ok_def prefix_applied_def)
  then show ?thesis using k
    by (intro exI [of _ k]) (auto simp: world_ok_def prefix_applied_def list_all_iff lsn_at_def end_at_def)
qed

definition demo_relation_msg :: relation_msg where
  "demo_relation_msg = \<lparr>re_xid = None, re_oid = 7, re_namespace = ''public'', re_name = ''t'', re_replica_identity = 100,
     re_columns = [\<lparr>rc_flags = 1, rc_name = ''id'', rc_type_oid = 23, rc_type_modifier = 0\<rparr>]\<rparr>"

definition demo_txn :: txn where
  "demo_txn = \<lparr>tx_begin = \<lparr>bg_final_lsn = 20, bg_commit_timestamp = 0, bg_xid = 1\<rparr>,
     tx_body = [RelationMsg demo_relation_msg, InsertMsg \<lparr>ins_xid = None, ins_rel_oid = 7, ins_new_tuple = \<lparr>tp_columns = [ColNull]\<rparr>\<rparr>],
     tx_commit = \<lparr>cm_commit_lsn = 20, cm_end_lsn = 30, cm_commit_timestamp = 0\<rparr>\<rparr>"

abbreviation demo_rels :: "oid \<rightharpoonup> relation_info" where
  "demo_rels \<equiv> [7 \<mapsto> relation_info_of demo_relation_msg]"

abbreviation demo_exec :: "string \<Rightarrow> nat \<Rightarrow> string + nat \<times> nat" where
  "demo_exec \<equiv> (\<lambda>sql d. Ok (1, d + 1))"

abbreviation demo_world :: "nat world" where
  "demo_world \<equiv> \<lparr>wo_target = \<lparr>tg_data = 0, tg_progress = Map.empty\<rparr>, wo_confirmed = 10, wo_worker = (\<lambda>_. None)\<rparr>"

abbreviation demo_start :: start_env where
  "demo_start \<equiv> \<lparr>se_set_timeout = Ok (), se_lease = Ok (), se_reset_timeout = Ok (), se_setup = Ok (), se_load = Ok ()\<rparr>"

lemma demo_stream_ok: "stream_ok demo_rels 10 [demo_txn]"
  by (simp add: stream_ok_def demo_txn_def demo_relation_msg_def word_less_nat_alt word_le_nat_alt)

lemma demo_run:
  "handle_all demo_exec dr (txn_msgs demo_txn) \<lparr>ap_relations = Map.empty, ap_consumer = ''c'', ap_checkpoint = 0, ap_ack = 0, ap_pending = []\<rparr>
     \<lparr>tg_data = 0, tg_progress = Map.empty\<rparr> = (a', tg', r)
   \<Longrightarrow> dr_begin dr = Ok () \<Longrightarrow> dr_progress dr = Ok () \<Longrightarrow> dr_commit dr = CommitInDoubt ''timeout''
   \<Longrightarrow> r = Err (Db ''timeout'') \<and> tg_data tg' = 1"
  by (auto simp: demo_txn_def demo_relation_msg_def txn_msgs_def handle_def apply_commit_def push_change_def insert_change_def
      tuple_cells_def cell_of_def build_statements_def build_change_def relation_of_def build_insert_def check_len_def
      relation_info_of_def render_cell_def progress_cas_def)

theorem applied_exactly_once_witness:
  "\<exists>w. apply_reachable demo_exec ''c'' [demo_txn] demo_world w \<and> tg_data (wo_target w) = 1
     \<and> (\<exists>k. replay demo_exec demo_rels (take k [demo_txn]) 0 = Some (tg_data (wo_target w)) \<and> k = 1)"
proof -
  let ?a = "\<lparr>ap_relations = Map.empty, ap_consumer = ''c'', ap_checkpoint = 0, ap_ack = 0, ap_pending = []\<rparr>"
  let ?dr = "\<lparr>dr_begin = Ok (), dr_progress = Ok (), dr_commit = CommitInDoubt ''timeout''\<rparr>"
  let ?w1 = "demo_world\<lparr>wo_worker := (\<lambda>_. None)(0 \<mapsto> (?a, 0))\<rparr>"
  have "apply_step demo_exec ''c'' [demo_txn] demo_world (demo_world\<lparr>wo_worker := (wo_worker demo_world)(0 \<mapsto> (?a, 0))\<rparr>)"
    by (rule worker_start [where env = demo_start]) (simp_all add: applier_new_def may_start_def)
  then have w1: "apply_reachable demo_exec ''c'' [demo_txn] demo_world ?w1"
    using reach_step [OF reach_init] by fastforce
  obtain a' tg' r where run: "handle_all demo_exec ?dr (txn_msgs demo_txn) ?a \<lparr>tg_data = 0, tg_progress = Map.empty\<rparr> = (a', tg', r)"
    using prod_cases3 by blast
  have r: "r = Err (Db ''timeout'')" "tg_data tg' = 1" using demo_run [OF run] by simp_all
  let ?w2 = "?w1\<lparr>wo_target := tg', wo_worker := (wo_worker ?w1)(0 := None)\<rparr>"
  have "apply_step demo_exec ''c'' [demo_txn] ?w1 ?w2"
    by (rule worker_fail [where a = ?a and j = 0 and dr = ?dr and a' = a']) (use run r in simp_all)
  with w1 have w2: "apply_reachable demo_exec ''c'' [demo_txn] demo_world ?w2" by (rule reach_step)
  have init: "world_init 10 ''c'' \<lparr>tg_data = 0, tg_progress = Map.empty\<rparr> demo_world" by (simp add: world_init_def)
  obtain k where k: "k \<le> 1" "replay demo_exec demo_rels (take k [demo_txn]) 0 = Some 1"
    using applied_exactly_once [OF demo_stream_ok init w2] r(2) by auto
  then have "k = 1" by (cases k) auto
  then show ?thesis using w2 k r(2) by (intro exI [of _ ?w2]) auto
qed

text \<open>C13: Nothing is lost: from any reachable state a new worker catches up. Fed the transactions the
  server must resend, with the published relations announced, a working connection and a source history
  that applies, it succeeds and leaves the target as the whole history applied once, whatever earlier
  workers did.\<close>

theorem applier_catches_up:
  assumes "stream_ok rels start stream" and "world_init start consumer tg w0"
    and "apply_reachable exec consumer stream w0 w"
    and "replay exec rels stream (tg_data tg) = Some d"
    and "applier_new env (tg_progress (wo_target w)) consumer = Ok a" and "may_start stream (wo_confirmed w) j"
  shows "\<exists>a' tg'. handle_all exec working (concat (map txn_msgs (drop j stream))) (a\<lparr>ap_relations := rels\<rparr>) (wo_target w) = (a', tg', Ok ())
    \<and> tg_data tg' = d"
proof -
  obtain k where k: "world_ok exec rels start stream (tg_data tg) consumer w k" using reachable_ok [OF assms(1-3)] by blast
  then have pre: "prefix_applied exec rels start stream (tg_data tg) consumer (wo_target w) k" by (simp add: world_ok_def)
  have "j \<le> k" using may_start_le [OF assms(1) prefix_le [OF pre] _ assms(6)] k by (simp add: world_ok_def)
  then obtain a' tg' where "handle_all exec working (concat (map txn_msgs (drop j stream))) (a\<lparr>ap_relations := rels\<rparr>) (wo_target w) = (a', tg', Ok ())"
      "prefix_applied exec rels start stream (tg_data tg) consumer tg' (length stream)"
    using catch_up [OF assms(1,4) pre, of "a\<lparr>ap_relations := rels\<rparr>" j] started_ok [OF assms(1) pre assms(5)] by auto
  then show ?thesis using assms(4) by (auto simp: prefix_applied_def)
qed

theorem applier_catches_up_witness:
  "\<exists>a' tg'. handle_all demo_exec working (txn_msgs demo_txn)
       \<lparr>ap_relations = demo_rels, ap_consumer = ''c'', ap_checkpoint = 0, ap_ack = 0, ap_pending = []\<rparr>
       \<lparr>tg_data = 0, tg_progress = Map.empty\<rparr> = (a', tg', Ok ()) \<and> tg_data tg' = 1"
proof -
  let ?a = "\<lparr>ap_relations = Map.empty, ap_consumer = ''c'', ap_checkpoint = 0, ap_ack = 0, ap_pending = []\<rparr>"
  have init: "world_init 10 ''c'' \<lparr>tg_data = 0, tg_progress = Map.empty\<rparr> demo_world" by (simp add: world_init_def)
  have full: "replay demo_exec demo_rels [demo_txn] (tg_data \<lparr>tg_data = 0, tg_progress = Map.empty\<rparr>) = Some 1"
    by (simp add: effect_def changes_of_def demo_txn_def demo_relation_msg_def insert_change_def tuple_cells_def cell_of_def
        build_statements_def build_change_def relation_of_def build_insert_def check_len_def relation_info_of_def render_cell_def ok_of_def)
  have new: "applier_new demo_start (tg_progress (wo_target demo_world)) ''c'' = Ok ?a" by (simp add: applier_new_def)
  have start: "may_start [demo_txn] (wo_confirmed demo_world) 0" by (simp add: may_start_def)
  from applier_catches_up [OF demo_stream_ok init reach_init full new start] show ?thesis by simp
qed

end
