(* ===== verification/Merge.thy ===== *)
theory Merge
  imports Prelude "HOL-Library.List_Lexorder" "HOL-Library.Product_Lexorder"
begin

text \<open>
  The cross-shard \<open>ORDER BY\<close> merge (\<open>pgshard-router/src/merge.rs\<close>): resolution of sort keys against the
  result schema, decoding of the sort columns of a wire row, and the stable sort of the combined rows. A
  row is the body of its \<open>DataRow\<close> message. Error codes and texts are kept as data. A double is its bit
  pattern; only its text parser (a correctly rounded decimal conversion of the standard library) is a
  parameter, \<open>parse_f64\<close>.
\<close>

section \<open>Definitions\<close>

datatype pg_type = INT2 | INT4 | INT8 | FLOAT4 | FLOAT8 | BOOL | OtherType u32

datatype field_format = FormatText | FormatBinary

record field_info =
  fi_name :: string
  fi_datatype :: pg_type
  fi_format :: field_format

datatype sort_column = ByName string | ByPosition nat

record sort_key_spec =
  sk_column :: sort_column
  sk_descending :: bool
  sk_nulls_first :: bool

datatype sort_kind = KindInt | KindFloat | KindBool

record resolved_key =
  rk_index :: nat
  rk_kind :: sort_kind
  rk_descending :: bool
  rk_nulls_first :: bool

type_synonym f64 = "64 word"

datatype sort_value = VNull | VInt i64 | VFloat f64 | VBool bool

datatype merge_error =
    PositionOutOfRange nat
  | NotInSelectList string
  | AmbiguousColumn string
  | BinaryColumn
  | UnsupportedSortType pg_type
  | NonUtf8Key
  | BadIntKey string
  | BadFloatKey string
  | BadBoolKey string
  | MalformedRow

datatype ordering = Less | Equal | Greater

fun ordering_reverse :: "ordering \<Rightarrow> ordering" where
  "ordering_reverse Less = Greater"
| "ordering_reverse Equal = Equal"
| "ordering_reverse Greater = Less"

definition ord_cmp :: "'a::linorder \<Rightarrow> 'a \<Rightarrow> ordering" where
  "ord_cmp x y = (if x < y then Less else if x = y then Equal else Greater)"

definition sort_kind_of :: "pg_type \<Rightarrow> sort_kind option" where
  "sort_kind_of ty =
     (case ty of
        INT2 \<Rightarrow> Some KindInt | INT4 \<Rightarrow> Some KindInt | INT8 \<Rightarrow> Some KindInt
      | FLOAT4 \<Rightarrow> Some KindFloat | FLOAT8 \<Rightarrow> Some KindFloat
      | BOOL \<Rightarrow> Some KindBool
      | OtherType _ \<Rightarrow> None)"

definition resolve_column :: "field_info list \<Rightarrow> sort_column \<Rightarrow> merge_error + nat" where
  "resolve_column schema column =
     (case column of
        ByPosition p \<Rightarrow>
          if 1 \<le> p \<and> p - 1 < length schema then Ok (p - 1) else Err (PositionOutOfRange p)
      | ByName name \<Rightarrow>
          (case filter (\<lambda>i. fi_name (schema ! i) = name) [0..<length schema] of
             [] \<Rightarrow> Err (NotInSelectList name)
           | [i] \<Rightarrow> Ok i
           | _ \<Rightarrow> Err (AmbiguousColumn name)))"

definition resolve_key :: "field_info list \<Rightarrow> sort_key_spec \<Rightarrow> merge_error + resolved_key" where
  "resolve_key schema key =
     bind_res (resolve_column schema (sk_column key)) (\<lambda>index.
     if fi_format (schema ! index) \<noteq> FormatText then Err BinaryColumn
     else bind_res (ok_or (UnsupportedSortType (fi_datatype (schema ! index))) (sort_kind_of (fi_datatype (schema ! index)))) (\<lambda>kind.
       Ok \<lparr>rk_index = index, rk_kind = kind, rk_descending = sk_descending key, rk_nulls_first = sk_nulls_first key\<rparr>))"

definition resolve_keys :: "field_info list \<Rightarrow> sort_key_spec list \<Rightarrow> merge_error + resolved_key list" where
  "resolve_keys schema keys = collect_res (resolve_key schema) keys"

subsection \<open>Comparison\<close>

definition is_nan :: "f64 \<Rightarrow> bool" where
  "is_nan x \<longleftrightarrow> take_bit 63 x > 0x7FF0000000000000"

text \<open>The numeric order of non-NaN doubles is the order of their signed magnitudes; both zeros are 0.\<close>

definition f64_rank :: "f64 \<Rightarrow> int" where
  "f64_rank x = (if bit x 63 then - uint (take_bit 63 x) else uint (take_bit 63 x))"

definition f64_partial_cmp :: "f64 \<Rightarrow> f64 \<Rightarrow> ordering option" where
  "f64_partial_cmp x y = (if is_nan x \<or> is_nan y then None else Some (ord_cmp (f64_rank x) (f64_rank y)))"

definition cmp_f64 :: "f64 \<Rightarrow> f64 \<Rightarrow> ordering" where
  "cmp_f64 x y =
     (case (is_nan x, is_nan y) of
        (True, True) \<Rightarrow> Equal
      | (True, False) \<Rightarrow> Greater
      | (False, True) \<Rightarrow> Less
      | _ \<Rightarrow> (case f64_partial_cmp x y of Some c \<Rightarrow> c | None \<Rightarrow> Equal))"

definition cmp_value :: "sort_value \<Rightarrow> sort_value \<Rightarrow> bool \<Rightarrow> bool \<Rightarrow> ordering" where
  "cmp_value a b descending nulls_first =
     (if a = VNull \<and> b = VNull then Equal
      else if a = VNull then (if nulls_first then Less else Greater)
      else if b = VNull then (if nulls_first then Greater else Less)
      else let present =
        (case (a, b) of
           (VInt x, VInt y) \<Rightarrow> ord_cmp (sint x) (sint y)
         | (VBool x, VBool y) \<Rightarrow> ord_cmp x y
         | (VFloat x, VFloat y) \<Rightarrow> cmp_f64 x y
         | _ \<Rightarrow> Equal)
      in if descending then ordering_reverse present else present)"

text \<open>The key tuples have one value per key, so walking them together is the indexed loop.\<close>

fun cmp_rows :: "sort_value list \<Rightarrow> sort_value list \<Rightarrow> resolved_key list \<Rightarrow> ordering" where
  "cmp_rows (a # as) (b # bs) (key # keys) =
     (let ord = cmp_value a b (rk_descending key) (rk_nulls_first key) in
      if ord \<noteq> Equal then ord else cmp_rows as bs keys)"
| "cmp_rows _ _ _ = Equal"

subsection \<open>Decoding\<close>

definition decode :: "(string \<Rightarrow> f64 option) \<Rightarrow> bytes option \<Rightarrow> sort_kind \<Rightarrow> merge_error + sort_value" where
  "decode parse_f64 bytes kind =
     (case bytes of
        None \<Rightarrow> Ok VNull
      | Some bs \<Rightarrow>
          bind_res (ok_or NonUtf8Key (from_utf8 bs)) (\<lambda>text.
            case kind of
              KindInt \<Rightarrow> bind_res (ok_or (BadIntKey text) (parse_i64 text)) (\<lambda>v. Ok (VInt v))
            | KindFloat \<Rightarrow> bind_res (ok_or (BadFloatKey text) (parse_f64 text)) (\<lambda>v. Ok (VFloat v))
            | KindBool \<Rightarrow>
                if text = ''t'' then Ok (VBool True)
                else if text = ''f'' then Ok (VBool False)
                else Err (BadBoolKey text)))"

text \<open>The walk over the fields of a row: \<open>n\<close> fields remain before the wanted one.\<close>

fun field_walk :: "bytes \<Rightarrow> nat \<Rightarrow> nat \<Rightarrow> merge_error + bytes option" where
  "field_walk data offset n =
     (if length data < offset + 4 then Err MalformedRow
      else let len = sint (of_nat (be_dec (take 4 (drop offset data))) :: i32); offset = offset + 4 in
        if len = - 1 then (case n of 0 \<Rightarrow> Ok None | Suc m \<Rightarrow> field_walk data offset m)
        else if len < - 1 then Err MalformedRow
        else if length data < offset + nat len then Err MalformedRow
        else (case n of
                0 \<Rightarrow> Ok (Some (take (nat len) (drop offset data)))
              | Suc m \<Rightarrow> field_walk data (offset + nat len) m))"

definition field_bytes :: "bytes \<Rightarrow> nat \<Rightarrow> merge_error + bytes option" where
  "field_bytes row idx = field_walk row 0 idx"

subsection \<open>The merge\<close>

text \<open>\<open>slice::sort_by\<close>, a stable sort.\<close>

fun insert_by :: "('a \<Rightarrow> 'a \<Rightarrow> ordering) \<Rightarrow> 'a \<Rightarrow> 'a list \<Rightarrow> 'a list" where
  "insert_by cmp x [] = [x]"
| "insert_by cmp x (y # ys) = (if cmp x y = Greater then y # insert_by cmp x ys else x # y # ys)"

definition sort_by :: "('a \<Rightarrow> 'a \<Rightarrow> ordering) \<Rightarrow> 'a list \<Rightarrow> 'a list" where
  "sort_by cmp xs = foldr (insert_by cmp) xs []"

definition decode_row :: "(string \<Rightarrow> f64 option) \<Rightarrow> resolved_key list \<Rightarrow> bytes \<Rightarrow> merge_error + sort_value list \<times> bytes" where
  "decode_row parse_f64 resolved row =
     bind_res (collect_res (\<lambda>k. bind_res (field_bytes row (rk_index k)) (\<lambda>bs. decode parse_f64 bs (rk_kind k))) resolved)
       (\<lambda>values. Ok (values, row))"

definition merge_ordered ::
    "(string \<Rightarrow> f64 option) \<Rightarrow> field_info list \<Rightarrow> bytes list \<Rightarrow> sort_key_spec list \<Rightarrow> merge_error + bytes list" where
  "merge_ordered parse_f64 schema rows keys =
     bind_res (resolve_keys schema keys) (\<lambda>resolved.
     bind_res (collect_res (decode_row parse_f64 resolved) rows) (\<lambda>decoded.
       Ok (map snd (sort_by (\<lambda>a b. cmp_rows (fst a) (fst b) resolved) decoded))))"

section \<open>The comparator is a total preorder\<close>

text \<open>The reference: each value has a rank, NULLs rank before or after everything, and rows are
  compared by their ranks in lexicographic order.\<close>

fun value_rank :: "sort_value \<Rightarrow> int" where
  "value_rank VNull = 0"
| "value_rank (VInt v) = sint v"
| "value_rank (VFloat v) = (if is_nan v then 2 ^ 64 else f64_rank v)"
| "value_rank (VBool v) = of_bool v"

definition key_rank :: "resolved_key \<Rightarrow> sort_value \<Rightarrow> int \<times> int" where
  "key_rank k v =
     (if v = VNull then (if rk_nulls_first k then 0 else 2, 0)
      else (1, if rk_descending k then - value_rank v else value_rank v))"

fun value_fits :: "sort_kind \<Rightarrow> sort_value \<Rightarrow> bool" where
  "value_fits _ VNull = True"
| "value_fits KindInt (VInt _) = True"
| "value_fits KindFloat (VFloat _) = True"
| "value_fits KindBool (VBool _) = True"
| "value_fits _ _ = False"

lemma f64_rank_bound: "\<bar>f64_rank x\<bar> < 2 ^ 63"
proof -
  have "uint (take_bit 63 x) < 2 ^ 63" unfolding unsigned_take_bit_eq by (rule take_bit_int_less_exp)
  then show ?thesis by (simp add: f64_rank_def)
qed

lemma cmp_f64_rank: "cmp_f64 x y = ord_cmp (value_rank (VFloat x)) (value_rank (VFloat y))"
  using f64_rank_bound [of x] f64_rank_bound [of y]
  by (auto simp: cmp_f64_def f64_partial_cmp_def ord_cmp_def)

lemma reverse_ord_cmp: "ordering_reverse (ord_cmp x y) = ord_cmp (- x) (- y :: int)"
  by (auto simp: ord_cmp_def)

lemma cmp_value_rank:
  assumes "value_fits kind a" and "value_fits kind b" and "rk_kind k = kind"
  shows "cmp_value a b (rk_descending k) (rk_nulls_first k) = ord_cmp (key_rank k a) (key_rank k b)"
proof -
  have pair: "ord_cmp (i, x) (i, y) = ord_cmp x y" for i x y :: int by (auto simp: ord_cmp_def)
  show ?thesis
  proof (cases "a = VNull \<or> b = VNull")
    case True
    then show ?thesis by (auto simp: cmp_value_def key_rank_def ord_cmp_def)
  next
    case False
    have "(case (a, b) of (VInt x, VInt y) \<Rightarrow> ord_cmp (sint x) (sint y) | (VBool x, VBool y) \<Rightarrow> ord_cmp x y
         | (VFloat x, VFloat y) \<Rightarrow> cmp_f64 x y | _ \<Rightarrow> Equal) = ord_cmp (value_rank a) (value_rank b)"
      using assms False by (cases a; cases b; cases kind) (auto simp: cmp_f64_rank ord_cmp_def simp del: value_rank.simps(3))
    then show ?thesis using False by (simp add: cmp_value_def key_rank_def pair reverse_ord_cmp Let_def)
  qed
qed

definition row_rank :: "resolved_key list \<Rightarrow> sort_value list \<Rightarrow> (int \<times> int) list" where
  "row_rank keys vs = map2 key_rank keys vs"

definition values_fit :: "resolved_key list \<Rightarrow> sort_value list \<Rightarrow> bool" where
  "values_fit keys vs \<longleftrightarrow> list_all2 (\<lambda>k v. value_fits (rk_kind k) v) keys vs"

lemma cmp_rows_rank:
  "values_fit keys a \<Longrightarrow> values_fit keys b \<Longrightarrow> cmp_rows a b keys = ord_cmp (row_rank keys a) (row_rank keys b)"
proof (induction keys arbitrary: a b)
  case (Cons k keys)
  then obtain x xs y ys where ab: "a = x # xs" "b = y # ys" "value_fits (rk_kind k) x" "value_fits (rk_kind k) y"
      "values_fit keys xs" "values_fit keys ys"
    by (auto simp: values_fit_def list_all2_Cons1)
  have "cmp_rows xs ys keys = ord_cmp (row_rank keys xs) (row_rank keys ys)" using Cons.IH ab by simp
  then show ?case using cmp_value_rank [OF ab(3,4) refl] by (auto simp: ab row_rank_def ord_cmp_def Let_def)
qed (simp add: values_fit_def row_rank_def ord_cmp_def)

lemma decode_fits: "decode parse_f64 bs kind = Ok v \<Longrightarrow> value_fits kind v"
  by (cases kind) (auto simp: decode_def bind_res_eq_Inr split: option.splits if_splits)

lemma decode_row_fits: "decode_row parse_f64 resolved row = Ok d \<Longrightarrow> snd d = row \<and> values_fit resolved (fst d)"
proof -
  assume "decode_row parse_f64 resolved row = Ok d"
  then obtain vs where vs: "d = (vs, row)"
      "list_all2 (\<lambda>k v. bind_res (field_bytes row (rk_index k)) (\<lambda>bs. decode parse_f64 bs (rk_kind k)) = Ok v) resolved vs"
    by (auto simp: decode_row_def bind_res_eq_Inr collect_res_Inr)
  have "list_all2 (\<lambda>k v. value_fits (rk_kind k) v) resolved vs"
    by (rule list.rel_mono_strong [OF vs(2)]) (auto simp: bind_res_eq_Inr decode_fits)
  then show ?thesis by (simp add: vs(1) values_fit_def)
qed

section \<open>The sort is the library's stable sort\<close>

lemma insert_by_insort:
  assumes "\<And>y. y \<in> set ys \<Longrightarrow> cmp x y = ord_cmp (f x) (f y)"
  shows "insert_by cmp x ys = insort_key f x ys"
  using assms by (induction ys) (auto simp: ord_cmp_def)

lemma sort_by_sort_key:
  assumes "\<And>x y. x \<in> set xs \<Longrightarrow> y \<in> set xs \<Longrightarrow> cmp x y = ord_cmp (f x) (f y)"
  shows "sort_by cmp xs = sort_key f xs"
  using assms
proof (induction xs)
  case (Cons x xs)
  have "sort_by cmp (x # xs) = insert_by cmp x (sort_key f xs)" using Cons by (simp add: sort_by_def)
  also have "\<dots> = insort_key f x (sort_key f xs)" by (rule insert_by_insort) (simp add: Cons.prems)
  finally show ?case by simp
qed (simp add: sort_by_def)

lemma map_insort_key: "map g (insort_key (f \<circ> g) x xs) = insort_key f (g x) (map g xs)"
  by (induction xs) auto

lemma map_sort_key: "map g (sort_key (f \<circ> g) xs) = sort_key f (map g xs)"
  by (induction xs) (simp_all add: map_insort_key [unfolded o_def] o_def)

definition row_values :: "(string \<Rightarrow> f64 option) \<Rightarrow> resolved_key list \<Rightarrow> bytes \<Rightarrow> sort_value list" where
  "row_values parse_f64 resolved row = (case decode_row parse_f64 resolved row of Ok (vs, _) \<Rightarrow> vs | Err _ \<Rightarrow> [])"

lemma decoded_rows:
  assumes "collect_res (decode_row parse_f64 resolved) rows = Ok decoded"
  shows "map snd decoded = rows"
    and "\<And>d. d \<in> set decoded \<Longrightarrow> values_fit resolved (fst d) \<and> fst d = row_values parse_f64 resolved (snd d)"
proof -
  have all2: "list_all2 (\<lambda>row d. decode_row parse_f64 resolved row = Ok d) rows decoded"
    using assms by (simp add: collect_res_Inr)
  then show "map snd decoded = rows"
    by (induction rows decoded rule: list_all2_induct) (auto dest: decode_row_fits)
  fix d
  assume "d \<in> set decoded"
  then obtain row where "decode_row parse_f64 resolved row = Ok d" using all2 by (auto simp: list_all2_conv_all_nth in_set_conv_nth)
  then show "values_fit resolved (fst d) \<and> fst d = row_values parse_f64 resolved (snd d)"
    using decode_row_fits [of parse_f64 resolved row d] by (cases d) (auto simp: row_values_def)
qed

lemma merge_rows:
  assumes "collect_res (decode_row parse_f64 resolved) rows = Ok decoded"
  shows "map snd (sort_by (\<lambda>a b. cmp_rows (fst a) (fst b) resolved) decoded)
    = sort_key (\<lambda>row. row_rank resolved (row_values parse_f64 resolved row)) rows"
proof -
  let ?f = "\<lambda>row. row_rank resolved (row_values parse_f64 resolved row)"
  have "sort_by (\<lambda>a b. cmp_rows (fst a) (fst b) resolved) decoded = sort_key (?f \<circ> snd) decoded"
    by (rule sort_by_sort_key) (use decoded_rows(2) [OF assms] cmp_rows_rank in \<open>force simp: o_def\<close>)
  then show ?thesis using map_sort_key [of snd ?f decoded] decoded_rows(1) [OF assms] by simp
qed

section \<open>Wire rows\<close>

fun enc_field :: "bytes option \<Rightarrow> bytes" where
  "enc_field None = [255, 255, 255, 255]"
| "enc_field (Some v) = be_enc 4 (length v) @ v"

definition enc_row :: "bytes option list \<Rightarrow> bytes" where
  "enc_row cs = concat (map enc_field cs)"

definition field_fits :: "bytes option \<Rightarrow> bool" where
  "field_fits f \<longleftrightarrow> (case f of None \<Rightarrow> True | Some v \<Rightarrow> length v < 2 ^ 31)"

lemma null_length: "sint (of_nat (be_dec [255, 255, 255, 255]) :: i32) = - 1"
  by (simp add: be_dec_def)

lemma small_length: "n < 2 ^ 31 \<Longrightarrow> sint (of_nat (be_dec (be_enc 4 n)) :: i32) = int n"
  by (simp add: be_dec_be_enc sint_uint unsigned_of_nat take_bit_nat_eq_self signed_take_bit_int_eq_self)

declare field_walk.simps [simp del]

lemma field_walk_step:
  assumes "field_fits f"
  shows "field_walk (pre @ enc_field f @ rest) (length pre) n =
    (case n of 0 \<Rightarrow> Ok f | Suc m \<Rightarrow> field_walk (pre @ enc_field f @ rest) (length (pre @ enc_field f)) m)"
proof (cases f)
  case None
  then show ?thesis by (subst field_walk.simps) (simp add: null_length eval_nat_numeral split: nat.splits)
next
  case (Some v)
  then have len: "sint (of_nat (be_dec (be_enc 4 (length v))) :: i32) = int (length v)"
    using assms small_length by (simp add: field_fits_def)
  have "take 4 (be_enc 4 (length v) @ v @ rest) = be_enc 4 (length v)" by simp
  then show ?thesis using Some len
    by (subst field_walk.simps) (simp add: Let_def add.assoc split: nat.splits)
qed

lemma field_walk_enc:
  assumes "list_all field_fits cs"
  shows "field_walk (pre @ enc_row cs) (length pre) n = (if n < length cs then Ok (cs ! n) else Err MalformedRow)"
  using assms
proof (induction cs arbitrary: pre n)
  case Nil
  then show ?case by (subst field_walk.simps) (simp add: enc_row_def)
next
  case (Cons f cs)
  show ?case
    using field_walk_step [of f pre "enc_row cs" n] Cons.IH [of "pre @ enc_field f"] Cons.prems
    by (cases n) (simp_all add: enc_row_def)
qed

section \<open>Properties\<close>


text \<open>A cell is read for what it is. From a row built by the wire format, the walk returns each
  column's bytes or its NULL, and a column the row does not have is an error, never a NULL.\<close>

theorem field_bytes_exact:
  assumes "list_all field_fits cs"
  shows "field_bytes (enc_row cs) idx = (if idx < length cs then Ok (cs ! idx) else Err MalformedRow)"
  using field_walk_enc [OF assms, of "[]" idx] by (simp add: field_bytes_def)

theorem field_bytes_exact_witness:
  "field_bytes [0, 0, 0, 1, 53, 255, 255, 255, 255] 1 = Ok None"
proof -
  have "be_enc 4 (length [53 :: u8]) = [0, 0, 0, 1]" by code_simp
  then show ?thesis using field_bytes_exact [of "[Some [53], None]" 1] by (simp add: field_fits_def enc_row_def)
qed

end
