(* ===== verification/Sql_Ast.thy ===== *)
theory Sql_Ast
  imports Prelude
begin

text \<open>
  The parts of the PostgreSQL parse tree (crate \<open>pg_query\<close>) that the router reads, and the statement
  classification of \<open>pgshard-sql/src/lib.rs\<close>. A protobuf \<open>Node\<close> is a \<open>node_enum option\<close>; a boxed optional
  node is an option of that. Statement and expression kinds the code matches with their contents have a
  constructor; every other kind is \<open>NOther\<close> with its type name and its sub-nodes. The parser itself,
  \<open>pg_query::parse\<close> and \<open>fingerprint\<close>, is a parameter.
\<close>

section \<open>Definitions\<close>

datatype set_operation = SetopUndefined | SetopNone | SetopUnion | SetopIntersect | SetopExcept

datatype bool_expr_type = BoolUndefined | AndExpr | OrExpr | NotExpr

datatype a_expr_kind = AexprOp | AexprIn | AexprOtherKind nat

datatype txn_kind = TransBegin | TransStart | TransCommit | TransRollback | TransOther nat

datatype conflict_action = OnconflictUndefined | OnconflictNone | OnconflictNothing | OnconflictUpdate

datatype sortby_dir = SortbyUndefined | SortbyDefault | SortbyAsc | SortbyDesc | SortbyUsing

datatype sortby_nulls = NullsUndefined | NullsDefault | NullsFirst | NullsLast

datatype a_val = Ival i32 | Fval string | Sval string | OtherVal

datatype a_const = AConst (ac_isnull: bool) (ac_val: "a_val option")

datatype range_var = RangeVar (rv_schemaname: string) (rv_relname: string)

datatype node_enum =
    NSelect select_stmt
  | NInsert insert_stmt
  | NUpdate update_stmt
  | NDelete delete_stmt
  | NTransaction "txn_kind option"
  | NCte string "node_enum option option"
  | NList "node_enum option list"
  | NConst a_const
  | NParam int
  | NColumnRef "node_enum option list"
  | NString string
  | NBoolExpr bool_expr_type "node_enum option list"
  | NAExpr a_expr
  | NResTarget string "node_enum option option"
  | NRangeVar range_var
  | NJoinExpr "node_enum option option" "node_enum option option" "node_enum option list"
  | NIndexElem string
  | NSortBy sortby_dir sortby_nulls "node_enum option option"
  | NOther string "node_enum option list"
and a_expr =
    AExpr (ae_kind: "a_expr_kind option") (ae_name: "node_enum option list")
      (ae_lexpr: "node_enum option option") (ae_rexpr: "node_enum option option")
and with_clause =
    WithClause (wc_recursive: bool) (wc_ctes: "node_enum option list")
and select_stmt =
    SelectStmt (sel_into: bool) (sel_with: "with_clause option") (sel_op: set_operation)
      (sel_from: "node_enum option list") (sel_where: "node_enum option option")
      (sel_values: "node_enum option list") (sel_larg: "select_stmt option") (sel_rarg: "select_stmt option")
      (sel_targets: "node_enum option list") (sel_sort: "node_enum option list") (sel_locking: "node_enum option list")
      (sel_group: "node_enum option list") (sel_having: "node_enum option option") (sel_distinct: "node_enum option list")
      (sel_group_distinct: bool) (sel_limit_count: "node_enum option option") (sel_limit_offset: "node_enum option option")
      (sel_rest: "node_enum option list")
and infer_clause =
    InferClause (inf_conname: string) (inf_index_elems: "node_enum option list")
and on_conflict =
    OnConflict (oc_action: conflict_action) (oc_infer: "infer_clause option") (oc_rest: "node_enum option list")
and insert_stmt =
    InsertStmt (ist_relation: "range_var option") (ist_cols: "node_enum option list")
      (ist_select: "node_enum option option") (ist_with: "with_clause option")
      (ist_on_conflict: "on_conflict option") (ist_rest: "node_enum option list")
and update_stmt =
    UpdateStmt (ust_relation: "range_var option") (ust_targets: "node_enum option list")
      (ust_where: "node_enum option option") (ust_from: "node_enum option list")
      (ust_with: "with_clause option") (ust_rest: "node_enum option list")
and delete_stmt =
    DeleteStmt (dst_relation: "range_var option") (dst_where: "node_enum option option")
      (dst_using: "node_enum option list") (dst_with: "with_clause option") (dst_rest: "node_enum option list")

type_synonym node = "node_enum option"

definition as_enum :: "node option \<Rightarrow> node_enum option" where
  "as_enum boxed = (case boxed of Some (Some n) \<Rightarrow> Some n | _ \<Rightarrow> None)"

subsection \<open>Classification\<close>

datatype statement_kind =
    KSelect | KInsert | KUpdate | KDelete | KMerge | KTxnBegin | KTxnCommit | KTxnRollback | KTxnOther
  | KSet | KShow | KDdl | KCopy | KPrepareExec | KEmpty | KOther

definition ddl_kinds :: "string list" where
  "ddl_kinds =
     [''CreateStmt'', ''AlterTableStmt'', ''IndexStmt'', ''DropStmt'', ''RenameStmt'', ''TruncateStmt'', ''CreateSchemaStmt'',
      ''CreateSeqStmt'', ''AlterSeqStmt'', ''ViewStmt'', ''CreateTableAsStmt'', ''RefreshMatViewStmt'', ''CreateForeignTableStmt'',
      ''CreateStatsStmt'', ''AlterStatsStmt'', ''AlterDomainStmt'', ''CreateDomainStmt'', ''CreateFunctionStmt'', ''AlterFunctionStmt'',
      ''CreateTrigStmt'', ''CreateEnumStmt'', ''AlterEnumStmt'', ''CompositeTypeStmt'', ''AlterTypeStmt'', ''DefineStmt'',
      ''CreateExtensionStmt'', ''AlterExtensionStmt'', ''AlterExtensionContentsStmt'', ''CreatePolicyStmt'', ''AlterPolicyStmt'',
      ''RuleStmt'', ''CreateCastStmt'', ''CreateTableSpaceStmt'', ''CreateAmStmt'', ''CreateFdwStmt'', ''AlterFdwStmt'',
      ''CreateForeignServerStmt'', ''AlterForeignServerStmt'', ''CreateUserMappingStmt'', ''AlterUserMappingStmt'',
      ''DropUserMappingStmt'', ''ImportForeignSchemaStmt'', ''CreatePublicationStmt'', ''AlterPublicationStmt'',
      ''CreateSubscriptionStmt'', ''AlterSubscriptionStmt'', ''DropSubscriptionStmt'', ''CreateRoleStmt'', ''AlterRoleStmt'',
      ''DropRoleStmt'', ''AlterObjectSchemaStmt'', ''AlterOwnerStmt'', ''SecLabelStmt'', ''VacuumStmt'', ''ClusterStmt'',
      ''ReindexStmt'', ''CommentStmt'', ''GrantStmt'', ''GrantRoleStmt'']"

definition writes :: "node_enum \<Rightarrow> bool" where
  "writes n \<longleftrightarrow> (case n of NInsert _ \<Rightarrow> True | NUpdate _ \<Rightarrow> True | NDelete _ \<Rightarrow> True
     | NOther kind _ \<Rightarrow> kind = ''MergeStmt'' | _ \<Rightarrow> False)"

definition has_writable_cte :: "select_stmt \<Rightarrow> bool" where
  "has_writable_cte s =
     (case sel_with s of
        None \<Rightarrow> False
      | Some wc \<Rightarrow> list_ex (\<lambda>n. case n of
            Some (NCte _ query) \<Rightarrow> (case as_enum query of Some q \<Rightarrow> writes q | None \<Rightarrow> False)
          | _ \<Rightarrow> False) (wc_ctes wc))"

definition classify :: "node \<Rightarrow> statement_kind" where
  "classify n =
     (case n of
        None \<Rightarrow> KEmpty
      | Some (NSelect s) \<Rightarrow>
          if sel_into s then KDdl else if has_writable_cte s then KOther else KSelect
      | Some (NInsert _) \<Rightarrow> KInsert
      | Some (NUpdate _) \<Rightarrow> KUpdate
      | Some (NDelete _) \<Rightarrow> KDelete
      | Some (NTransaction kind) \<Rightarrow>
          (case kind of
             Some TransBegin \<Rightarrow> KTxnBegin | Some TransStart \<Rightarrow> KTxnBegin | Some TransCommit \<Rightarrow> KTxnCommit
           | Some TransRollback \<Rightarrow> KTxnRollback | _ \<Rightarrow> KTxnOther)
      | Some (NOther kind _) \<Rightarrow>
          if kind = ''MergeStmt'' then KMerge
          else if kind = ''VariableSetStmt'' then KSet
          else if kind = ''VariableShowStmt'' then KShow
          else if kind = ''CopyStmt'' then KCopy
          else if kind \<in> {''PrepareStmt'', ''ExecuteStmt'', ''DeallocateStmt''} then KPrepareExec
          else if kind \<in> set ddl_kinds then KDdl
          else KOther
      | Some _ \<Rightarrow> KOther)"

datatype sql_error = ParseError string | FingerprintError string

record parsed =
  pa_fingerprint :: u64
  pa_statements :: "statement_kind list"
  pa_tables :: "string list"
  pa_result :: "node option list"

text \<open>\<open>pg_parse\<close> gives the raw statements and the referenced tables, \<open>pg_fingerprint\<close> the fingerprint.\<close>

definition sql_parse ::
    "(string \<Rightarrow> string + node option list \<times> string list) \<Rightarrow> (string \<Rightarrow> string + u64) \<Rightarrow> string \<Rightarrow> sql_error + parsed" where
  "sql_parse pg_parse pg_fingerprint sql =
     bind_res (map_err ParseError (pg_parse sql)) (\<lambda>(stmts, tables).
     bind_res (map_err FingerprintError (pg_fingerprint sql)) (\<lambda>fingerprint.
       Ok \<lparr>pa_fingerprint = fingerprint, pa_statements = map (\<lambda>raw. classify (as_enum raw)) stmts,
           pa_tables = tables, pa_result = stmts\<rparr>))"

text \<open>A \<open>SELECT\<close> with these clauses only.\<close>

definition bare_select :: "node list \<Rightarrow> node option \<Rightarrow> node list \<Rightarrow> select_stmt" where
  "bare_select from_list w vals =
     SelectStmt False None SetopNone from_list w vals None None [] [] [] [] None [] False None None []"

lemma bare_select_simps [simp]:
  "sel_op (bare_select f w vals) = SetopNone" "sel_from (bare_select f w vals) = f"
  "sel_where (bare_select f w vals) = w" "sel_values (bare_select f w vals) = vals"
  by (simp_all add: bare_select_def)

end
