(* ===== verification/Extract.thy ===== *)
theory Extract
  imports Sql_Ast Vschema
begin

text \<open>
  Reading shard keys and relations from a parse tree (\<open>pgshard-plan/src/extract.rs\<close>). The JSON form of a
  tree (crate \<open>serde_json\<close>) is the parameter \<open>to_value\<close>: the object of a statement's fields, or \<open>None\<close> when
  serialisation fails. An object is the list of its entries in iteration order.
\<close>

section \<open>Definitions\<close>

datatype keyval = KConst scalar_value | KParam u32

definition range_var_table :: "range_var \<Rightarrow> table_name" where
  "range_var_table rv =
     table_name_new (if rv_schemaname rv = [] then ''public'' else rv_schemaname rv) (rv_relname rv)"

definition scalar_from_const :: "a_const \<Rightarrow> scalar_value option" where
  "scalar_from_const c =
     (if ac_isnull c then None
      else (case ac_val c of
          None \<Rightarrow> None
        | Some (Ival i) \<Rightarrow> Some (Int64 (scast i))
        | Some (Fval f) \<Rightarrow> map_option Int64 (parse_i64 f)
        | Some (Sval s) \<Rightarrow> Some (Text s)
        | Some OtherVal \<Rightarrow> None))"

definition key_val :: "node_enum \<Rightarrow> keyval option" where
  "key_val n =
     (case n of
        NConst c \<Rightarrow> map_option KConst (scalar_from_const c)
      | NParam number \<Rightarrow> if number > 0 then Some (KParam (of_int number)) else None
      | _ \<Rightarrow> None)"

definition column_name :: "node list \<Rightarrow> string option" where
  "column_name cols =
     (if cols = [] then None else (case last cols of Some (NString s) \<Rightarrow> Some s | _ \<Rightarrow> None))"

definition is_key_column :: "node_enum \<Rightarrow> string \<Rightarrow> bool" where
  "is_key_column n key_col \<longleftrightarrow> (case n of NColumnRef cols \<Rightarrow> column_name cols = Some key_col | _ \<Rightarrow> False)"

definition is_eq_operator :: "a_expr \<Rightarrow> bool" where
  "is_eq_operator e \<longleftrightarrow> ae_name e = [Some (NString ''='')]"

definition push_value :: "node_enum \<Rightarrow> keyval list" where
  "push_value n = (case key_val n of Some v \<Rightarrow> [v] | None \<Rightarrow> [])"

definition collect_a_expr :: "a_expr \<Rightarrow> string \<Rightarrow> keyval list" where
  "collect_a_expr e key_col =
     (case (as_enum (ae_lexpr e), as_enum (ae_rexpr e)) of
        (Some lhs, Some rhs) \<Rightarrow>
          (case ae_kind e of
             Some AexprOp \<Rightarrow>
               if is_eq_operator e
               then (if is_key_column lhs key_col then push_value rhs
                     else if is_key_column rhs key_col then push_value lhs else [])
               else []
           | Some AexprIn \<Rightarrow>
               if is_eq_operator e \<and> is_key_column lhs key_col
               then (case rhs of
                       NList items \<Rightarrow>
                         (case collect_opt (\<lambda>item. Option.bind item key_val) items of
                            Some vals \<Rightarrow> vals
                          | None \<Rightarrow> [])
                     | _ \<Rightarrow> [])
               else []
           | _ \<Rightarrow> [])
      | _ \<Rightarrow> [])"

lemma arg_size: "Some inner \<in> set args \<Longrightarrow> size inner < size (NBoolExpr op args)"
  using size_list_estimation' [of "Some inner" args "size_option size (Some inner)" "size_option size"] by simp

function (sequential) collect_and :: "node_enum \<Rightarrow> string \<Rightarrow> keyval list" where
  "collect_and (NBoolExpr op args) key_col =
     (if op = AndExpr
      then concat (map (\<lambda>arg. case arg of Some inner \<Rightarrow> collect_and inner key_col | None \<Rightarrow> []) args)
      else [])"
| "collect_and (NAExpr e) key_col = collect_a_expr e key_col"
| "collect_and _ key_col = []"
  by pat_completeness auto
termination
  by (relation "measure (\<lambda>(n, _). size n)") (use arg_size in auto)

definition where_key_values :: "node option \<Rightarrow> string \<Rightarrow> keyval list" where
  "where_key_values where_clause key_col =
     (case as_enum where_clause of Some n \<Rightarrow> collect_and n key_col | None \<Rightarrow> [])"

definition names_column :: "string \<Rightarrow> node \<Rightarrow> bool" where
  "names_column key_col n \<longleftrightarrow> (case n of Some (NResTarget name _) \<Rightarrow> name = key_col | _ \<Rightarrow> False)"

definition row_cell :: "nat \<Rightarrow> node \<Rightarrow> keyval option" where
  "row_cell idx row =
     (case row of
        Some (NList items) \<Rightarrow> Option.bind (Option.bind (nth_opt items idx) id) key_val
      | _ \<Rightarrow> None)"

definition insert_key_values :: "insert_stmt \<Rightarrow> string \<Rightarrow> keyval list option" where
  "insert_key_values ins key_col =
     Option.bind (position (names_column key_col) (ist_cols ins)) (\<lambda>idx.
     case as_enum (ist_select ins) of
       Some (NSelect sel) \<Rightarrow>
         if sel_values sel = [] then None else collect_opt (row_cell idx) (sel_values sel)
     | _ \<Rightarrow> None)"

definition sets_column :: "node list \<Rightarrow> string \<Rightarrow> bool" where
  "sets_column target_list key_col \<longleftrightarrow> list_ex (names_column key_col) target_list"

subsection \<open>FROM clauses\<close>

record from_clause =
  fc_tables :: "table_name list"
  fc_all_plain :: bool

function (sequential) collect_from :: "node \<Rightarrow> from_clause \<Rightarrow> from_clause" where
  "collect_from (Some (NRangeVar rv)) fc = fc\<lparr>fc_tables := fc_tables fc @ [range_var_table rv]\<rparr>"
| "collect_from (Some (NJoinExpr larg rarg _)) fc =
     (let fc = (case larg of Some l \<Rightarrow> collect_from l fc | None \<Rightarrow> fc) in
      (case rarg of Some r \<Rightarrow> collect_from r fc | None \<Rightarrow> fc))"
| "collect_from _ fc = fc\<lparr>fc_all_plain := False\<rparr>"
  by pat_completeness auto
termination
  by (relation "measure (\<lambda>(n, _). size_option size n)") auto

definition analyze_from :: "node list \<Rightarrow> from_clause" where
  "analyze_from from_list = fold collect_from from_list \<lparr>fc_tables = [], fc_all_plain = True\<rparr>"

subsection \<open>Searching the JSON form\<close>

datatype json = JNull | JBool bool | JNumber int | JString string | JArray "json list" | JObject "(string \<times> json) list"

fun has_key :: "string \<Rightarrow> json \<Rightarrow> bool" where
  "has_key k (JObject entries) \<longleftrightarrow> list_ex (\<lambda>(k', _). k' = k) entries \<or> list_ex (\<lambda>(_, v). has_key k v) entries"
| "has_key k (JArray items) \<longleftrightarrow> list_ex (has_key k) items"
| "has_key k _ \<longleftrightarrow> False"

definition contains_node :: "json option \<Rightarrow> string \<Rightarrow> bool" where
  "contains_node tree node_kind = (case tree of Some json \<Rightarrow> has_key node_kind json | None \<Rightarrow> True)"

definition contains_sublink :: "json option \<Rightarrow> bool" where
  "contains_sublink tree = contains_node tree ''SubLink''"

definition contains_cte :: "json option \<Rightarrow> bool" where
  "contains_cte tree = contains_node tree ''CommonTableExpr''"

definition as_object :: "json option \<Rightarrow> (string \<times> json) list option" where
  "as_object v = (case v of Some (JObject entries) \<Rightarrow> Some entries | _ \<Rightarrow> None)"

definition str_field :: "(string \<times> json) list \<Rightarrow> string \<Rightarrow> string" where
  "str_field entries k = (case map_of entries k of Some (JString s) \<Rightarrow> s | _ \<Rightarrow> [])"

definition bool_field :: "(string \<times> json) list \<Rightarrow> string \<Rightarrow> bool" where
  "bool_field entries k = (case map_of entries k of Some (JBool b) \<Rightarrow> b | _ \<Rightarrow> False)"

definition arr_field :: "(string \<times> json) list \<Rightarrow> string \<Rightarrow> json list" where
  "arr_field entries k = (case map_of entries k of Some (JArray items) \<Rightarrow> items | _ \<Rightarrow> [])"

definition cte_name :: "json \<Rightarrow> string option" where
  "cte_name cte =
     Option.bind (as_object (Some cte)) (\<lambda>o1.
     Option.bind (as_object (map_of o1 ''node'')) (\<lambda>o2.
     Option.bind (as_object (map_of o2 ''CommonTableExpr'')) (\<lambda>o3.
       case map_of o3 ''ctename'' of Some (JString s) \<Rightarrow> Some s | _ \<Rightarrow> None)))"

definition cte_names :: "json list \<Rightarrow> string set" where
  "cte_names ctes = set (List.map_filter cte_name ctes)"

lemma map_of_size: "map_of entries k = Some v \<Longrightarrow> size v < size (JObject entries)"
proof (induction entries)
  case (Cons e entries)
  then show ?case by (cases e) (auto split: if_splits)
qed simp

lemma arr_field_size:
  assumes "as_object (map_of (entries :: (string \<times> json) list) k) = Some inner"
  shows "size_list size (arr_field inner k') \<le> size_list (size_prod (\<lambda>_. 0) size) entries"
proof -
  have "map_of entries k = Some (JObject inner)"
    using assms by (auto simp: as_object_def split: option.splits json.splits)
  then have "size (JObject inner) < size (JObject entries)" by (rule map_of_size)
  moreover have "size_list size (arr_field inner k') < size (JObject inner)"
    using map_of_size [of inner k'] by (cases "map_of inner k'") (auto simp: arr_field_def split: json.splits)
  ultimately show ?thesis by simp
qed

lemma filtered_entries_size:
  "size_list size (map snd (filter P entries)) \<le> size_list (size_prod (\<lambda>_. 0) size) entries"
  by (induction entries) (auto simp: size_prod_simp o_def)

text \<open>The walk keeps the CTE names visible at each place.\<close>

function (sequential) walk_json :: "(string \<Rightarrow> string \<Rightarrow> bool) \<Rightarrow> string set \<Rightarrow> json \<Rightarrow> (string \<times> string) option"
  and walk_list :: "(string \<Rightarrow> string \<Rightarrow> bool) \<Rightarrow> string set \<Rightarrow> json list \<Rightarrow> (string \<times> string) option"
  and walk_ctes :: "(string \<Rightarrow> string \<Rightarrow> bool) \<Rightarrow> bool \<Rightarrow> string set \<Rightarrow> string set \<Rightarrow> json list \<Rightarrow> (string \<times> string) option" where
  "walk_json resolve visible (JObject entries) =
     (case as_object (map_of entries ''RangeVar'') of
        Some rv \<Rightarrow>
          let schema = str_field rv ''schemaname''; name = str_field rv ''relname'' in
          if \<not> (schema = [] \<and> name \<in> visible) \<and> \<not> resolve schema name then Some (schema, name) else None
      | None \<Rightarrow>
          (case as_object (map_of entries ''with_clause'') of
             Some wc \<Rightarrow>
               let ctes = arr_field wc ''ctes''; all_names = visible \<union> cte_names ctes in
               (case walk_ctes resolve (bool_field wc ''recursive'') all_names visible ctes of
                  Some hit \<Rightarrow> Some hit
                | None \<Rightarrow> walk_list resolve all_names (map snd (filter (\<lambda>e. fst e \<noteq> ''with_clause'') entries)))
           | None \<Rightarrow> walk_list resolve visible (map snd entries)))"
| "walk_json resolve visible (JArray items) = walk_list resolve visible items"
| "walk_json resolve visible _ = None"
| "walk_list resolve visible [] = None"
| "walk_list resolve visible (v # vs) =
     (case walk_json resolve visible v of Some hit \<Rightarrow> Some hit | None \<Rightarrow> walk_list resolve visible vs)"
| "walk_ctes resolve recursive all_names before [] = None"
| "walk_ctes resolve recursive all_names before (cte # ctes) =
     (case walk_json resolve (if recursive then all_names else before) cte of
        Some hit \<Rightarrow> Some hit
      | None \<Rightarrow> walk_ctes resolve recursive all_names
          (case cte_name cte of Some name \<Rightarrow> insert name before | None \<Rightarrow> before) ctes)"
  by pat_completeness auto
termination
proof (relation "measure (\<lambda>call. case call of Inl (_, _, v) \<Rightarrow> size v
    | Inr (Inl (_, _, vs)) \<Rightarrow> size_list size vs | Inr (Inr (_, _, _, _, vs)) \<Rightarrow> size_list size vs)")
qed (simp_all add: less_Suc_eq_le filtered_entries_size [simplified] filtered_entries_size [of "\<lambda>_. True", simplified]
    arr_field_size)

definition find_unresolved_relation :: "json option \<Rightarrow> (string \<Rightarrow> string \<Rightarrow> bool) \<Rightarrow> (string \<times> string) option" where
  "find_unresolved_relation tree resolve =
     (case tree of
        None \<Rightarrow> Some ([], ''<unserializable statement>'')
      | Some json \<Rightarrow> walk_json resolve {} json)"

end
