(* ===== verification/Planner.thy ===== *)
theory Planner
  imports Extract Catalog "HOL-Library.List_Lexorder" "HOL-Library.Char_ord"
begin

text \<open>
  The planner (\<open>pgshard-plan/src/lib.rs\<close>): where a parsed statement goes. A call that would panic is
  \<open>None\<close>. The digest is the parameter \<open>xxh64\<close>, the JSON form of a statement's fields the parameter
  \<open>to_value\<close>.
\<close>

section \<open>Shard ids are ordered\<close>

instantiation shard_id :: linorder
begin

fun less_eq_shard_id :: "shard_id \<Rightarrow> shard_id \<Rightarrow> bool" where
  "less_eq_shard_id (ShardId a) (ShardId b) \<longleftrightarrow> a \<le> b"

fun less_shard_id :: "shard_id \<Rightarrow> shard_id \<Rightarrow> bool" where
  "less_shard_id (ShardId a) (ShardId b) \<longleftrightarrow> a < b"

instance
proof
  fix x y z :: shard_id
  show "x < y \<longleftrightarrow> x \<le> y \<and> \<not> y \<le> x" by (cases x; cases y) auto
  show "x \<le> x" by (cases x) auto
  show "x \<le> y \<Longrightarrow> y \<le> z \<Longrightarrow> x \<le> z" by (cases x; cases y; cases z) auto
  show "x \<le> y \<Longrightarrow> y \<le> x \<Longrightarrow> x = y" by (cases x; cases y) auto
  show "x \<le> y \<or> y \<le> x" by (cases x; cases y) auto
qed

end

text \<open>The elements of a \<open>BTreeSet\<close> in iteration order.\<close>

definition btree_list :: "'a::linorder list \<Rightarrow> 'a list" where
  "btree_list xs = sort (remdups xs)"

section \<open>Definitions\<close>

definition CROSS_SHARD :: string where "CROSS_SHARD = ''0A000''"
definition UNDEFINED_TABLE :: string where "UNDEFINED_TABLE = ''42P01''"

record parameterized =
  pz_shard_function :: string
  pz_key_type :: "scalar_type option"
  pz_param_indices :: "u32 list"
  pz_write :: bool

datatype reason = Because string | BadFunction string

datatype plan =
    SingleShard shard_id
  | Scatter "shard_id list"
  | Broadcast "shard_id list"
  | Unsharded
  | RouterLocal
  | Parameterized parameterized
  | Reject string reason

definition reject :: "string \<Rightarrow> plan" where
  "reject text = Reject CROSS_SHARD (Because text)"

definition is_catalog_schema :: "table_name \<Rightarrow> bool" where
  "is_catalog_schema t \<longleftrightarrow> tn_schema t = ''pg_catalog'' \<or> tn_schema t = ''information_schema''"

definition reject_unknown :: "table_name \<Rightarrow> plan" where
  "reject_unknown t = Reject UNDEFINED_TABLE (Because
     (''relation '' @ table_name_str t @ '' is not in the sharding configuration; qualify catalog reads with pg_catalog''))"

datatype resolution = Unkeyed | Params "u32 list" | Mixed | Uncoercible | Shards "shard_id list"

definition key_keyspace_id ::
    "(bytes \<Rightarrow> u64 \<Rightarrow> u64) \<Rightarrow> shard_fn \<Rightarrow> scalar_type option \<Rightarrow> scalar_value \<Rightarrow> keyspace_id option" where
  "key_keyspace_id xxh64 func key_type v =
     (case key_type of
        Some t \<Rightarrow> map_option (keyspace_id xxh64 func) (coerce t v)
      | None \<Rightarrow> Some (keyspace_id xxh64 func v))"

fun route_consts ::
    "(bytes \<Rightarrow> u64 \<Rightarrow> u64) \<Rightarrow> shard_fn \<Rightarrow> scalar_type option \<Rightarrow> shard_catalog \<Rightarrow> keyval list \<Rightarrow> shard_id list \<Rightarrow> resolution option" where
  "route_consts xxh64 func key_type shards [] hit = Some (Shards (btree_list hit))"
| "route_consts xxh64 func key_type shards (KConst sv # vs) hit =
     (case key_keyspace_id xxh64 func key_type sv of
        None \<Rightarrow> Some Uncoercible
      | Some key \<Rightarrow> Option.bind (route shards key) (\<lambda>s. route_consts xxh64 func key_type shards vs (hit @ [s])))"
| "route_consts xxh64 func key_type shards (KParam _ # vs) hit = route_consts xxh64 func key_type shards vs hit"

definition param_indices :: "keyval list \<Rightarrow> u32 list" where
  "param_indices vals = List.map_filter (\<lambda>v. case v of KParam n \<Rightarrow> Some n | KConst _ \<Rightarrow> None) vals"

definition has_const :: "keyval list \<Rightarrow> bool" where
  "has_const vals \<longleftrightarrow> list_ex (\<lambda>v. case v of KConst _ \<Rightarrow> True | KParam _ \<Rightarrow> False) vals"

definition route_values ::
    "(bytes \<Rightarrow> u64 \<Rightarrow> u64) \<Rightarrow> keyval list \<Rightarrow> scalar_type option \<Rightarrow> string \<Rightarrow> shard_catalog \<Rightarrow> resolution option" where
  "route_values xxh64 vals key_type fname shards =
     (if vals = [] then Some Unkeyed
      else if param_indices vals \<noteq> [] \<and> has_const vals then Some Mixed
      else if param_indices vals \<noteq> [] then Some (Params (param_indices vals))
      else (case shard_function fname of
              Err _ \<Rightarrow> None
            | Ok func \<Rightarrow> route_consts xxh64 func key_type shards vals []))"

definition read_from_shards :: "shard_id list \<Rightarrow> plan" where
  "read_from_shards hit = (case hit of [s] \<Rightarrow> SingleShard s | _ \<Rightarrow> Scatter hit)"

definition write_to_shards :: "shard_id list \<Rightarrow> table_name \<Rightarrow> plan" where
  "write_to_shards hit table =
     (case hit of
        [s] \<Rightarrow> SingleShard s
      | _ \<Rightarrow> reject (''write to sharded table '' @ table_name_str table @ '' spans '' @ nat_str (length hit) @
                 '' shards; cross-shard writes are not supported''))"

datatype placement = PSharded string "scalar_type option" string | PGlobal | PUnknown

definition placement_of :: "vschema \<Rightarrow> table_name \<Rightarrow> placement" where
  "placement_of vs table =
     (case vschema_get vs table of
        Some (Sharded key key_type fname _) \<Rightarrow> PSharded key key_type fname
      | Some Global \<Rightarrow> PGlobal
      | None \<Rightarrow> PUnknown)"

definition is_sharded :: "vschema \<Rightarrow> table_name \<Rightarrow> bool" where
  "is_sharded vs table \<longleftrightarrow> (case placement_of vs table of PSharded _ _ _ \<Rightarrow> True | _ \<Rightarrow> False)"

subsection \<open>SELECT\<close>

definition or_public :: "string \<Rightarrow> string" where
  "or_public schema = (if schema = [] then ''public'' else schema)"

definition resolves :: "vschema \<Rightarrow> string \<Rightarrow> string \<Rightarrow> bool" where
  "resolves vs schema name =
     (let t = table_name_new (or_public schema) name in is_catalog_schema t \<or> placement_of vs t \<noteq> PUnknown)"

definition unknown_relation :: "json option \<Rightarrow> vschema \<Rightarrow> table_name option" where
  "unknown_relation tree vs =
     map_option (\<lambda>(schema, name). table_name_new (or_public schema) name) (find_unresolved_relation tree (resolves vs))"

lemma arm_size:
  "sel_larg s = Some arm \<Longrightarrow> size arm < size s"
  "sel_rarg s = Some arm \<Longrightarrow> size arm < size s"
  by (cases s; simp)+

function set_op_from :: "select_stmt \<Rightarrow> from_clause" where
  "set_op_from s =
     (if sel_op s = SetopNone then analyze_from (sel_from s)
      else let l = (case sel_larg s of Some arm \<Rightarrow> set_op_from arm | None \<Rightarrow> \<lparr>fc_tables = [], fc_all_plain = True\<rparr>);
               r = (case sel_rarg s of Some arm \<Rightarrow> set_op_from arm | None \<Rightarrow> \<lparr>fc_tables = [], fc_all_plain = True\<rparr>)
           in \<lparr>fc_tables = fc_tables l @ fc_tables r, fc_all_plain = (fc_all_plain l \<and> fc_all_plain r)\<rparr>)"
  by pat_completeness auto
termination
  by (relation "measure size") (auto intro: arm_size)

declare set_op_from.simps [simp del]

definition plan_set_op :: "json option \<Rightarrow> select_stmt \<Rightarrow> vschema \<Rightarrow> plan" where
  "plan_set_op tree s vs =
     (if contains_sublink tree then reject ''a set operation with a subquery is not supported in M1''
      else if contains_cte tree then reject ''a set operation with a CTE (WITH) is not supported in M1''
      else let from = set_op_from s in
        if \<not> fc_all_plain from
        then reject ''a set operation with a subquery or function in a FROM is not supported in M1''
        else if list_ex (is_sharded vs) (fc_tables from)
        then reject ''a set operation (UNION/INTERSECT/EXCEPT) over a sharded table is not supported in M1''
        else if fc_tables from = [] then RouterLocal else Unsharded)"

definition sharded_tables :: "vschema \<Rightarrow> table_name list \<Rightarrow> (string \<times> scalar_type option \<times> string) list" where
  "sharded_tables vs tables =
     List.map_filter (\<lambda>t. case placement_of vs t of PSharded key ty fname \<Rightarrow> Some (key, ty, fname) | _ \<Rightarrow> None) tables"

definition plan_select ::
    "(bytes \<Rightarrow> u64 \<Rightarrow> u64) \<Rightarrow> (node_enum \<Rightarrow> json option) \<Rightarrow> select_stmt \<Rightarrow> vschema \<Rightarrow> shard_catalog \<Rightarrow> plan option" where
  "plan_select xxh64 to_value s vs shards =
     (let tree = to_value (NSelect s) in
      case unknown_relation tree vs of
        Some unknown \<Rightarrow> Some (reject_unknown unknown)
      | None \<Rightarrow>
        if sel_op s \<noteq> SetopNone then Some (plan_set_op tree s vs)
        else
          let from = analyze_from (sel_from s) in
          (case sharded_tables vs (fc_tables from) of
             [] \<Rightarrow>
               Some (if fc_tables from = [] \<and> fc_all_plain from \<and> \<not> contains_sublink tree \<and> \<not> contains_cte tree
                     then RouterLocal else Unsharded)
           | [(key, key_type, fname)] \<Rightarrow>
               if length (fc_tables from) > 1 \<or> \<not> fc_all_plain from
               then Some (reject ''SELECT joining a sharded table with another relation is not supported in M1'')
               else if sel_with s \<noteq> None
               then Some (reject ''SELECT with a CTE (WITH) on a sharded table is not supported in M1'')
               else if contains_sublink tree
               then Some (reject ''SELECT with a subquery on a sharded table is not supported in M1'')
               else map_option (\<lambda>r. case r of
                   Unkeyed \<Rightarrow> Scatter (catalog_all shards)
                 | Mixed \<Rightarrow> Scatter (catalog_all shards)
                 | Uncoercible \<Rightarrow> Scatter (catalog_all shards)
                 | Params indices \<Rightarrow> Parameterized
                     \<lparr>pz_shard_function = fname, pz_key_type = key_type, pz_param_indices = indices, pz_write = False\<rparr>
                 | Shards hit \<Rightarrow> read_from_shards hit)
                 (route_values xxh64 (where_key_values (sel_where s) key) key_type fname shards)
           | _ \<Rightarrow> Some (reject ''SELECT joining multiple sharded tables is not supported in M1'')))"

subsection \<open>Writes\<close>

definition arbiter_includes_key :: "on_conflict \<Rightarrow> string \<Rightarrow> bool" where
  "arbiter_includes_key oc key =
     (case oc_infer oc of
        None \<Rightarrow> False
      | Some target \<Rightarrow> inf_conname target = []
          \<and> list_ex (\<lambda>e. case e of Some (NIndexElem name) \<Rightarrow> name = key | _ \<Rightarrow> False) (inf_index_elems target))"

definition conflict_refusal :: "insert_stmt \<Rightarrow> table_name \<Rightarrow> string \<Rightarrow> plan option" where
  "conflict_refusal s table key =
     (case ist_on_conflict s of
        None \<Rightarrow> None
      | Some oc \<Rightarrow>
          if oc_action oc = OnconflictUpdate
          then Some (reject (''INSERT into sharded table '' @ table_name_str table @
                 '' with ON CONFLICT DO UPDATE is not supported in M1''))
          else if \<not> arbiter_includes_key oc key
          then Some (reject (''INSERT into sharded table '' @ table_name_str table @
                 '' with ON CONFLICT requires a conflict target listing the shard key column '' @ key))
          else None)"

definition plan_insert ::
    "(bytes \<Rightarrow> u64 \<Rightarrow> u64) \<Rightarrow> (node_enum \<Rightarrow> json option) \<Rightarrow> insert_stmt \<Rightarrow> vschema \<Rightarrow> shard_catalog \<Rightarrow> plan option" where
  "plan_insert xxh64 to_value s vs shards =
     (case ist_relation s of
        None \<Rightarrow> Some (reject ''INSERT without a target relation'')
      | Some rv \<Rightarrow>
          let table = range_var_table rv in
          if ist_with s \<noteq> None
          then Some (reject (''INSERT into '' @ table_name_str table @ '' with a CTE (WITH) is not supported in M1''))
          else if contains_sublink (to_value (NInsert s))
          then Some (reject (''INSERT into '' @ table_name_str table @ '' with a subquery is not supported in M1''))
          else (case placement_of vs table of
              PGlobal \<Rightarrow> Some Unsharded
            | PUnknown \<Rightarrow> Some (reject (''table '' @ table_name_str table @ '' is not in the sharding schema''))
            | PSharded key key_type fname \<Rightarrow>
                (case conflict_refusal s table key of
                   Some p \<Rightarrow> Some p
                 | None \<Rightarrow>
                   (case insert_key_values s key of
                      None \<Rightarrow> Some (reject (''INSERT into sharded table '' @ table_name_str table @ '' must list column '' @ key @
                               '' with a literal or bind-parameter value''))
                    | Some vals \<Rightarrow>
                        map_option (\<lambda>r. case r of
                            Unkeyed \<Rightarrow> reject (''INSERT into sharded table '' @ table_name_str table @ '' does not set shard key '' @ key)
                          | Mixed \<Rightarrow> reject (''INSERT into sharded table '' @ table_name_str table @
                              '' mixes literal and parameter shard keys across rows'')
                          | Uncoercible \<Rightarrow> reject (''INSERT into sharded table '' @ table_name_str table @ '' has a shard key '' @ key @
                              '' value that is not valid for the column type'')
                          | Params indices \<Rightarrow> Parameterized
                              \<lparr>pz_shard_function = fname, pz_key_type = key_type, pz_param_indices = indices, pz_write = True\<rparr>
                          | Shards hit \<Rightarrow> write_to_shards hit table)
                          (route_values xxh64 vals key_type fname shards)))))"

definition plan_keyed_write ::
    "(bytes \<Rightarrow> u64 \<Rightarrow> u64) \<Rightarrow> keyval list \<Rightarrow> scalar_type option \<Rightarrow> string \<Rightarrow> shard_catalog \<Rightarrow> table_name \<Rightarrow> string \<Rightarrow> string \<Rightarrow> plan option" where
  "plan_keyed_write xxh64 vals key_type fname shards table key verb =
     map_option (\<lambda>r. case r of
         Unkeyed \<Rightarrow> reject (verb @ '' of sharded table '' @ table_name_str table @ '' must constrain shard key '' @ key)
       | Mixed \<Rightarrow> reject (verb @ '' of sharded table '' @ table_name_str table @ '' mixes literal and parameter shard keys'')
       | Uncoercible \<Rightarrow> reject (verb @ '' of sharded table '' @ table_name_str table @ '' has a shard key '' @ key @
           '' value that is not valid for the column type'')
       | Params indices \<Rightarrow> Parameterized
           \<lparr>pz_shard_function = fname, pz_key_type = key_type, pz_param_indices = indices, pz_write = True\<rparr>
       | Shards hit \<Rightarrow> write_to_shards hit table)
       (route_values xxh64 vals key_type fname shards)"

definition plan_update ::
    "(bytes \<Rightarrow> u64 \<Rightarrow> u64) \<Rightarrow> (node_enum \<Rightarrow> json option) \<Rightarrow> update_stmt \<Rightarrow> vschema \<Rightarrow> shard_catalog \<Rightarrow> plan option" where
  "plan_update xxh64 to_value s vs shards =
     (case ust_relation s of
        None \<Rightarrow> Some (reject ''UPDATE without a target relation'')
      | Some rv \<Rightarrow>
          let table = range_var_table rv in
          (case placement_of vs table of
             PGlobal \<Rightarrow> Some Unsharded
           | PUnknown \<Rightarrow> Some (reject (''table '' @ table_name_str table @ '' is not in the sharding schema''))
           | PSharded key key_type fname \<Rightarrow>
               if sets_column (ust_targets s) key
               then Some (reject (''shard key '' @ key @ '' of '' @ table_name_str table @ '' is immutable''))
               else if ust_from s \<noteq> []
               then Some (reject (''UPDATE '' @ table_name_str table @ '' ... FROM another relation is not supported in M1''))
               else if ust_with s \<noteq> None
               then Some (reject (''UPDATE '' @ table_name_str table @ '' with a CTE (WITH) is not supported in M1''))
               else if contains_sublink (to_value (NUpdate s))
               then Some (reject (''UPDATE '' @ table_name_str table @ '' with a subquery is not supported in M1''))
               else plan_keyed_write xxh64 (where_key_values (ust_where s) key) key_type fname shards table key ''UPDATE''))"

definition plan_delete ::
    "(bytes \<Rightarrow> u64 \<Rightarrow> u64) \<Rightarrow> (node_enum \<Rightarrow> json option) \<Rightarrow> delete_stmt \<Rightarrow> vschema \<Rightarrow> shard_catalog \<Rightarrow> plan option" where
  "plan_delete xxh64 to_value s vs shards =
     (case dst_relation s of
        None \<Rightarrow> Some (reject ''DELETE without a target relation'')
      | Some rv \<Rightarrow>
          let table = range_var_table rv in
          (case placement_of vs table of
             PGlobal \<Rightarrow> Some Unsharded
           | PUnknown \<Rightarrow> Some (reject (''table '' @ table_name_str table @ '' is not in the sharding schema''))
           | PSharded key key_type fname \<Rightarrow>
               if dst_using s \<noteq> []
               then Some (reject (''DELETE FROM '' @ table_name_str table @ '' ... USING another relation is not supported in M1''))
               else if dst_with s \<noteq> None
               then Some (reject (''DELETE FROM '' @ table_name_str table @ '' with a CTE (WITH) is not supported in M1''))
               else if contains_sublink (to_value (NDelete s))
               then Some (reject (''DELETE FROM '' @ table_name_str table @ '' with a subquery is not supported in M1''))
               else plan_keyed_write xxh64 (where_key_values (dst_where s) key) key_type fname shards table key ''DELETE''))"

subsection \<open>Statements\<close>

definition plan_stmt ::
    "(bytes \<Rightarrow> u64 \<Rightarrow> u64) \<Rightarrow> (node_enum \<Rightarrow> json option) \<Rightarrow> statement_kind \<Rightarrow> node_enum \<Rightarrow> vschema \<Rightarrow> shard_catalog \<Rightarrow> plan option" where
  "plan_stmt xxh64 to_value kind n vs shards =
     (case (kind, n) of
        (KSelect, NSelect s) \<Rightarrow> plan_select xxh64 to_value s vs shards
      | (KInsert, NInsert s) \<Rightarrow> plan_insert xxh64 to_value s vs shards
      | (KUpdate, NUpdate s) \<Rightarrow> plan_update xxh64 to_value s vs shards
      | (KDelete, NDelete s) \<Rightarrow> plan_delete xxh64 to_value s vs shards
      | _ \<Rightarrow>
          if kind = KDdl then Some (Broadcast (catalog_all shards))
          else if kind = KMerge then Some (reject ''MERGE is not supported in M1'')
          else if kind = KCopy then Some (reject ''COPY to a sharded table is not supported in M1'')
          else if kind = KOther
          then Some (reject ''data-modifying CTEs and this statement form are not supported in M1'')
          else Some RouterLocal)"

definition plan_all ::
    "(bytes \<Rightarrow> u64 \<Rightarrow> u64) \<Rightarrow> (node_enum \<Rightarrow> json option) \<Rightarrow> parsed \<Rightarrow> vschema \<Rightarrow> shard_catalog \<Rightarrow> plan list option" where
  "plan_all xxh64 to_value pa vs shards =
     collect_opt (\<lambda>(i, raw).
       let kind = (case nth_opt (pa_statements pa) i of Some k \<Rightarrow> k | None \<Rightarrow> KOther) in
       (case as_enum raw of
          Some n \<Rightarrow> plan_stmt xxh64 to_value kind n vs shards
        | None \<Rightarrow> Some RouterLocal)) (enumerate 0 (pa_result pa))"

subsection \<open>Bind\<close>

fun bound_shards ::
    "(bytes \<Rightarrow> u64 \<Rightarrow> u64) \<Rightarrow> shard_fn \<Rightarrow> scalar_type option \<Rightarrow> scalar_value list \<Rightarrow> shard_catalog \<Rightarrow> u32 list \<Rightarrow> shard_id list
     \<Rightarrow> (plan + shard_id list) option" where
  "bound_shards xxh64 func key_type vals shards [] hit = Some (Ok (btree_list hit))"
| "bound_shards xxh64 func key_type vals shards (idx # indices) hit =
     (case (if idx = 0 then None else nth_opt vals (unat idx - 1)) of
        None \<Rightarrow> Some (Err (reject (''bind parameter $'' @ nat_str (unat idx) @ '' for the shard key is missing'')))
      | Some v \<Rightarrow>
          (case key_keyspace_id xxh64 func key_type v of
             None \<Rightarrow> Some (Err (reject (''bind parameter $'' @ nat_str (unat idx) @ '' is not a valid value for the shard key type'')))
           | Some key \<Rightarrow>
               Option.bind (route shards key) (\<lambda>s. bound_shards xxh64 func key_type vals shards indices (hit @ [s]))))"

definition resolve_bound ::
    "(bytes \<Rightarrow> u64 \<Rightarrow> u64) \<Rightarrow> parameterized \<Rightarrow> scalar_value list \<Rightarrow> shard_catalog \<Rightarrow> plan option" where
  "resolve_bound xxh64 param vals shards =
     (case shard_function (pz_shard_function param) of
        Err _ \<Rightarrow> Some (Reject CROSS_SHARD (BadFunction (pz_shard_function param)))
      | Ok func \<Rightarrow>
          map_option (\<lambda>r. case r of
              Err p \<Rightarrow> p
            | Ok hit \<Rightarrow>
                (case hit of
                   [] \<Rightarrow> reject ''parameterized plan named no shard-key parameters''
                 | [s] \<Rightarrow> SingleShard s
                 | _ \<Rightarrow> if pz_write param
                     then reject (''write resolves to '' @ nat_str (length hit) @ '' shards; cross-shard writes are not supported'')
                     else Scatter hit))
            (bound_shards xxh64 func (pz_key_type param) vals shards (pz_param_indices param) []))"

end
