(* ===== verification/Extract_Sound.thy ===== *)
theory Extract_Sound
  imports Extract
begin

text \<open>
  What the extractors promise, against a semantics of \<open>WHERE\<close> clauses: SQL's three-valued logic over the
  column values of a row, the bound parameters, and the server's equality of a column with an operand.
  Every expression the extractor does not read (functions, other operators, subqueries) may have any
  truth value.
\<close>

section \<open>The semantics of a condition\<close>

datatype tri = TT | FF | UU

definition tri_and :: "tri list \<Rightarrow> tri" where
  "tri_and ts = (if FF \<in> set ts then FF else if UU \<in> set ts then UU else TT)"

definition tri_or :: "tri list \<Rightarrow> tri" where
  "tri_or ts = (if TT \<in> set ts then TT else if UU \<in> set ts then UU else FF)"

fun tri_not :: "tri \<Rightarrow> tri" where
  "tri_not TT = FF"
| "tri_not FF = TT"
| "tri_not UU = UU"

record row_sem =
  rs_col :: "string \<Rightarrow> scalar_value option"
  rs_param :: "u32 \<Rightarrow> scalar_value option"
  rs_same :: "string \<Rightarrow> scalar_value \<Rightarrow> scalar_value \<Rightarrow> bool"
  rs_equal :: "node_enum \<Rightarrow> node_enum \<Rightarrow> tri"
  rs_other :: "node_enum \<Rightarrow> tri"

definition operand_value :: "row_sem \<Rightarrow> keyval \<Rightarrow> scalar_value option" where
  "operand_value sem kv = (case kv of KConst v \<Rightarrow> Some v | KParam n \<Rightarrow> rs_param sem n)"

definition column_of :: "node_enum \<Rightarrow> string option" where
  "column_of n = (case n of NColumnRef cols \<Rightarrow> column_name cols | _ \<Rightarrow> None)"

definition compare_col :: "row_sem \<Rightarrow> string \<Rightarrow> keyval \<Rightarrow> tri" where
  "compare_col sem c kv =
     (case (rs_col sem c, operand_value sem kv) of
        (Some v, Some x) \<Rightarrow> if rs_same sem c v x then TT else FF
      | _ \<Rightarrow> UU)"

definition equals :: "row_sem \<Rightarrow> node_enum \<Rightarrow> node_enum \<Rightarrow> tri" where
  "equals sem l r =
     (case (column_of l, key_val r) of
        (Some c, Some kv) \<Rightarrow> compare_col sem c kv
      | _ \<Rightarrow> (case (column_of r, key_val l) of
           (Some c, Some kv) \<Rightarrow> compare_col sem c kv
         | _ \<Rightarrow> rs_equal sem l r))"

definition truth_a_expr :: "row_sem \<Rightarrow> a_expr \<Rightarrow> tri" where
  "truth_a_expr sem e =
     (case (as_enum (ae_lexpr e), as_enum (ae_rexpr e)) of
        (Some l, Some r) \<Rightarrow>
          if \<not> is_eq_operator e then rs_other sem (NAExpr e)
          else if ae_kind e = Some AexprOp then equals sem l r
          else (case (ae_kind e, r) of
                  (Some AexprIn, NList items) \<Rightarrow> tri_or (map (\<lambda>i. case i of Some n \<Rightarrow> equals sem l n | None \<Rightarrow> UU) items)
                | _ \<Rightarrow> rs_other sem (NAExpr e))
      | _ \<Rightarrow> rs_other sem (NAExpr e))"

function (sequential) truth :: "row_sem \<Rightarrow> node_enum \<Rightarrow> tri" where
  "truth sem (NBoolExpr op args) =
     (let ts = map (\<lambda>a. case a of Some n \<Rightarrow> truth sem n | None \<Rightarrow> UU) args in
      case op of
        AndExpr \<Rightarrow> tri_and ts
      | OrExpr \<Rightarrow> tri_or ts
      | NotExpr \<Rightarrow> (case ts of [t] \<Rightarrow> tri_not t | _ \<Rightarrow> UU)
      | BoolUndefined \<Rightarrow> UU)"
| "truth sem (NAExpr e) = truth_a_expr sem e"
| "truth sem n = rs_other sem n"
  by pat_completeness auto
termination
  by (relation "measure (\<lambda>(_, n). size n)") (use arg_size in auto)

text \<open>The row satisfies one of the values: its column is equal to it.\<close>

definition pinned :: "row_sem \<Rightarrow> string \<Rightarrow> keyval list \<Rightarrow> bool" where
  "pinned sem c vals \<longleftrightarrow>
     (\<exists>kv \<in> set vals. \<exists>v x. rs_col sem c = Some v \<and> operand_value sem kv = Some x \<and> rs_same sem c v x)"

lemma compare_col_TT: "compare_col sem c kv = TT \<Longrightarrow> pinned sem c [kv]"
  by (auto simp: compare_col_def pinned_def split: option.splits if_splits)

lemma pinned_mono: "pinned sem c vs \<Longrightarrow> set vs \<subseteq> set ws \<Longrightarrow> pinned sem c ws"
  by (auto simp: pinned_def)

lemma key_val_no_column: "key_val n = Some kv \<Longrightarrow> column_of n = None"
  by (cases n) (auto simp: key_val_def column_of_def)

lemma is_key_column_iff: "is_key_column n c \<longleftrightarrow> column_of n = Some c"
  by (cases n) (auto simp: is_key_column_def column_of_def)

lemma equals_pinned:
  assumes "equals sem l r = TT" and "is_key_column l c" and "key_val r = Some kv"
  shows "pinned sem c [kv]"
  using assms by (auto simp: equals_def is_key_column_iff intro: compare_col_TT)

lemma equals_pinned_flip:
  assumes "equals sem l r = TT" and "is_key_column r c" and "key_val l = Some kv"
  shows "pinned sem c [kv]"
  using assms key_val_no_column [OF assms(3)] by (auto simp: equals_def is_key_column_iff intro: compare_col_TT)

lemma in_list_pinned:
  assumes "tri_or (map (\<lambda>i. case i of Some n \<Rightarrow> equals sem l n | None \<Rightarrow> UU) items) = TT"
    and "is_key_column l c" and "collect_opt (\<lambda>item. Option.bind item key_val) items = Some vals"
  shows "pinned sem c vals"
proof -
  obtain n where n: "Some n \<in> set items" "equals sem l n = TT"
    using assms(1) by (auto simp: tri_or_def split: if_splits option.splits)
  then obtain i where i: "i < length items" "items ! i = Some n" by (auto simp: in_set_conv_nth)
  then have "key_val n = Some (vals ! i)" "i < length vals"
    using assms(3) by (auto simp: collect_opt_Some list_all2_conv_all_nth)
  then show ?thesis using equals_pinned [OF n(2) assms(2)] by (auto intro: pinned_mono)
qed

lemma collect_a_expr_sound:
  assumes "truth_a_expr sem e = TT" and "collect_a_expr e c \<noteq> []"
  shows "pinned sem c (collect_a_expr e c)"
proof -
  obtain l r where lr: "as_enum (ae_lexpr e) = Some l" "as_enum (ae_rexpr e) = Some r" and eq: "is_eq_operator e"
    using assms(2) by (auto simp: collect_a_expr_def split: option.splits a_expr_kind.splits if_splits)
  consider (op) "ae_kind e = Some AexprOp" | (isin) "ae_kind e = Some AexprIn"
    using assms(2) by (auto simp: collect_a_expr_def split: option.splits a_expr_kind.splits)
  then show ?thesis
  proof cases
    case op
    then show ?thesis using assms lr eq
      by (auto simp: collect_a_expr_def truth_a_expr_def push_value_def split: option.splits if_splits
          intro: equals_pinned equals_pinned_flip)
  next
    case isin
    then show ?thesis using assms lr eq
      by (auto simp: collect_a_expr_def truth_a_expr_def split: option.splits if_splits node_enum.splits
          intro: in_list_pinned)
  qed
qed

lemma collect_and_sound:
  "truth sem n = TT \<Longrightarrow> collect_and n c \<noteq> [] \<Longrightarrow> pinned sem c (collect_and n c)"
proof (induction n c rule: collect_and.induct)
  case (1 op args c)
  then have op: "op = AndExpr" by (auto split: if_splits)
  obtain arg where arg: "arg \<in> set args" "(case arg of Some inner \<Rightarrow> collect_and inner c | None \<Rightarrow> []) \<noteq> []"
    using 1(3) op by (auto split: option.splits)
  then obtain inner where inner: "arg = Some inner" "collect_and inner c \<noteq> []" by (auto split: option.splits)
  have "truth sem inner = TT"
  proof -
    let ?t = "\<lambda>a. case a of Some n \<Rightarrow> truth sem n | None \<Rightarrow> UU"
    have "FF \<notin> ?t ` set args" "UU \<notin> ?t ` set args"
      using 1(2) op by (auto simp: tri_and_def split: if_splits)
    then have "?t arg \<noteq> FF" "?t arg \<noteq> UU" using arg(1) by (metis imageI)+
    then show ?thesis using inner(1) by (cases "truth sem inner") auto
  qed
  then have "pinned sem c (collect_and inner c)" using 1(1) [OF op arg(1) inner(1)] inner(2) by blast
  then show ?case
    by (rule pinned_mono) (use arg(1) inner(1) op in force)
qed (auto intro: collect_a_expr_sound)

lemma where_key_values_sound:
  assumes "where_key_values w c \<noteq> []" and "\<And>n. as_enum w = Some n \<Longrightarrow> truth sem n = TT"
  shows "pinned sem c (where_key_values w c)"
  using assms collect_and_sound by (auto simp: where_key_values_def split: option.splits)

section \<open>Unresolved relations\<close>

text \<open>All relation references of a tree, and all CTE names it defines.\<close>

function (sequential) json_relations :: "json \<Rightarrow> (string \<times> string) set" where
  "json_relations (JObject entries) =
     (case as_object (map_of entries ''RangeVar'') of
        Some rv \<Rightarrow> {(str_field rv ''schemaname'', str_field rv ''relname'')}
      | None \<Rightarrow> (\<Union>e \<in> set entries. json_relations (snd e)))"
| "json_relations (JArray items) = (\<Union>v \<in> set items. json_relations v)"
| "json_relations _ = {}"
  by pat_completeness auto
termination
  by (relation "measure size") (auto simp: less_Suc_eq_le size_list_estimation' size_prod_simp)

function (sequential) json_ctes :: "json \<Rightarrow> string set" where
  "json_ctes (JObject entries) =
     (case as_object (map_of entries ''with_clause'') of Some wc \<Rightarrow> cte_names (arr_field wc ''ctes'') | None \<Rightarrow> {})
     \<union> (\<Union>e \<in> set entries. json_ctes (snd e))"
| "json_ctes (JArray items) = (\<Union>v \<in> set items. json_ctes v)"
| "json_ctes _ = {}"
  by pat_completeness auto
termination
  by (relation "measure size") (auto simp: less_Suc_eq_le size_list_estimation' size_prod_simp)

text \<open>The shape of a serialised tree: keys are unique, and a \<open>WITH\<close> clause refers to relations only in its
  list of CTEs.\<close>

definition with_shape :: "json \<Rightarrow> bool" where
  "with_shape v \<longleftrightarrow> (case v of
     JObject wc \<Rightarrow> map_of wc ''RangeVar'' = None \<and> distinct (map fst wc)
       \<and> (\<forall>e \<in> set wc. fst e = ''ctes'' \<and> (\<exists>items. snd e = JArray items) \<or> json_relations (snd e) = {})
   | _ \<Rightarrow> True)"

function (sequential) tree_shape :: "json \<Rightarrow> bool" where
  "tree_shape (JObject entries) \<longleftrightarrow> distinct (map fst entries)
     \<and> (case map_of entries ''with_clause'' of Some v \<Rightarrow> with_shape v | None \<Rightarrow> True)
     \<and> (\<forall>e \<in> set entries. tree_shape (snd e))"
| "tree_shape (JArray items) \<longleftrightarrow> (\<forall>v \<in> set items. tree_shape v)"
| "tree_shape _ \<longleftrightarrow> True"
  by pat_completeness auto
termination
  by (relation "measure size") (auto simp: less_Suc_eq_le size_list_estimation' size_prod_simp)

lemma as_object_Some: "as_object v = Some o1 \<longleftrightarrow> v = Some (JObject o1)"
  by (auto simp: as_object_def split: option.splits json.splits)

lemma with_clause_parts:
  assumes shape: "tree_shape (JObject entries)" and wc: "as_object (map_of entries ''with_clause'') = Some wc"
  shows "json_relations (JObject wc) = (\<Union>v \<in> set (arr_field wc ''ctes''). json_relations v)"
    and "\<forall>v \<in> set (arr_field wc ''ctes''). tree_shape v"
    and "(''with_clause'', JObject wc) \<in> set entries"
    and "json_ctes (JObject wc) \<supseteq> (\<Union>v \<in> set (arr_field wc ''ctes''). json_ctes v)"
proof -
  have get: "map_of entries ''with_clause'' = Some (JObject wc)" using wc by (simp add: as_object_Some)
  then show mem: "(''with_clause'', JObject wc) \<in> set entries" by (rule map_of_SomeD)
  have ws: "with_shape (JObject wc)" using shape get by simp
  have sub: "tree_shape (JObject wc)" using shape mem by fastforce
  have arr: "(''ctes'', JArray items) \<in> set wc \<longleftrightarrow> arr_field wc ''ctes'' = items \<and> map_of wc ''ctes'' = Some (JArray items)" for items
    using ws by (auto simp: with_shape_def arr_field_def)
  show "json_relations (JObject wc) = (\<Union>v \<in> set (arr_field wc ''ctes''). json_relations v)"
  proof (cases "\<exists>items. map_of wc ''ctes'' = Some (JArray items)")
    case True
    then obtain items where it: "map_of wc ''ctes'' = Some (JArray items)" "arr_field wc ''ctes'' = items"
      by (auto simp: arr_field_def)
    then have "(''ctes'', JArray items) \<in> set wc" by (auto dest: map_of_SomeD)
    moreover have "json_relations (snd e) \<subseteq> json_relations (JArray items)" if "e \<in> set wc" for e
    proof -
      have "fst e = ''ctes'' \<and> (\<exists>items. snd e = JArray items) \<or> json_relations (snd e) = {}"
        using ws that by (auto simp: with_shape_def)
      then show ?thesis using arr it that by (metis empty_subsetI json.inject(4) option.inject prod.collapse subset_refl)
    qed
    ultimately have "(\<Union>e \<in> set wc. json_relations (snd e)) = json_relations (JArray items)" by fastforce
    then show ?thesis using ws it by (simp add: with_shape_def as_object_def)
  next
    case False
    then have "\<forall>e \<in> set wc. json_relations (snd e) = {}"
      using ws arr by (force simp: with_shape_def)
    moreover have "arr_field wc ''ctes'' = []"
      using False by (auto simp: arr_field_def split: option.splits json.splits)
    ultimately show ?thesis using ws by (simp add: with_shape_def as_object_def)
  qed
  have member: "\<exists>items. (''ctes'', JArray items) \<in> set wc \<and> set (arr_field wc ''ctes'') \<subseteq> set items \<or> arr_field wc ''ctes'' = []"
    by (auto simp: arr_field_def dest: map_of_SomeD split: option.splits json.splits)
  show "\<forall>v \<in> set (arr_field wc ''ctes''). tree_shape v" using member sub by fastforce
  show "json_ctes (JObject wc) \<supseteq> (\<Union>v \<in> set (arr_field wc ''ctes''). json_ctes v)" using member by fastforce
qed

definition known :: "(string \<Rightarrow> string \<Rightarrow> bool) \<Rightarrow> string set \<Rightarrow> (string \<times> string) set \<Rightarrow> bool" where
  "known resolve names rels \<longleftrightarrow> (\<forall>(s, n) \<in> rels. resolve s n \<or> s = [] \<and> n \<in> names)"

lemma known_mono: "known resolve names rels \<Longrightarrow> names \<subseteq> names' \<Longrightarrow> rels' \<subseteq> rels \<Longrightarrow> known resolve names' rels'"
  by (fastforce simp: known_def)

lemma known_Un: "known resolve names (A \<union> B) \<longleftrightarrow> known resolve names A \<and> known resolve names B"
  by (auto simp: known_def)

lemma known_UN: "known resolve names (\<Union>x \<in> A. f x) \<longleftrightarrow> (\<forall>x \<in> A. known resolve names (f x))"
  by (auto simp: known_def)

lemma cte_names_Cons: "cte_names (c # cs) = (case cte_name c of Some n \<Rightarrow> insert n (cte_names cs) | None \<Rightarrow> cte_names cs)"
  by (auto simp: cte_names_def map_filter_simps split: option.splits)

lemma known_grow:
  assumes "\<forall>v \<in> set vs. known resolve (names \<union> json_ctes v) (json_relations v)" and "(\<Union>v \<in> set vs. json_ctes v) \<subseteq> C"
  shows "\<forall>v \<in> set vs. known resolve (names \<union> C) (json_relations v)"
proof
  fix v
  assume v: "v \<in> set vs"
  show "known resolve (names \<union> C) (json_relations v)"
    by (rule known_mono [OF bspec [OF assms(1) v]]) (use assms(2) v in auto)
qed

lemma known_entry:
  assumes "known resolve (names \<union> json_ctes (snd e)) (json_relations (snd e))" and "e \<in> set entries"
  shows "known resolve (names \<union> json_ctes (JObject entries)) (json_relations (snd e))"
  by (rule known_mono [OF assms(1)]) (use assms(2) in auto)

lemma known_object:
  assumes "as_object (map_of entries ''RangeVar'') = None"
    and "\<And>e. e \<in> set entries \<Longrightarrow> known resolve names (json_relations (snd e))"
  shows "known resolve names (json_relations (JObject entries))"
  using assms by (simp add: known_UN)

lemma known_with_object:
  assumes shape: "tree_shape (JObject entries)" and nrv: "as_object (map_of entries ''RangeVar'') = None"
    and wc: "as_object (map_of entries ''with_clause'') = Some wc"
    and rest: "\<forall>v \<in> set (map snd (filter (\<lambda>e. fst e \<noteq> ''with_clause'') entries)).
        known resolve ((visible \<union> cte_names (arr_field wc ''ctes'')) \<union> json_ctes v) (json_relations v)"
    and ctes: "\<forall>v \<in> set (arr_field wc ''ctes'').
        known resolve ((visible \<union> cte_names (arr_field wc ''ctes'')) \<union> json_ctes v) (json_relations v)"
  shows "known resolve (visible \<union> json_ctes (JObject entries)) (json_relations (JObject entries))"
proof (rule known_object [OF nrv])
  fix e
  assume e: "e \<in> set entries"
  let ?all = "visible \<union> cte_names (arr_field wc ''ctes'')"
  note parts = with_clause_parts [OF shape wc]
  have sub: "?all \<union> json_ctes (snd e) \<subseteq> visible \<union> json_ctes (JObject entries)" using e wc by auto
  have "known resolve (?all \<union> json_ctes (snd e)) (json_relations (snd e))"
  proof (cases "fst e = ''with_clause''")
    case True
    then obtain v where v: "e = (''with_clause'', v)" by (metis prod.collapse)
    then have "v = JObject wc"
      using eq_key_imp_eq_value [of entries "''with_clause''" v "JObject wc"] e parts(3) shape by simp
    then show ?thesis
      using known_grow [OF ctes parts(4)] parts(1) v by (simp add: known_UN del: json_ctes.simps json_relations.simps)
  qed (use rest e in force)
  then show "known resolve (visible \<union> json_ctes (JObject entries)) (json_relations (snd e))"
    by (rule known_mono [OF _ sub]) simp
qed

lemma walk_None:
  "walk_json resolve visible v = None \<Longrightarrow> tree_shape v \<Longrightarrow> known resolve (visible \<union> json_ctes v) (json_relations v)"
  "walk_list resolve visible vs = None \<Longrightarrow> \<forall>v \<in> set vs. tree_shape v \<Longrightarrow>
     \<forall>v \<in> set vs. known resolve (visible \<union> json_ctes v) (json_relations v)"
  "walk_ctes resolve recursive all_names before ctes = None \<Longrightarrow> \<forall>v \<in> set ctes. tree_shape v \<Longrightarrow> before \<union> cte_names ctes \<subseteq> all_names \<Longrightarrow>
     \<forall>v \<in> set ctes. known resolve (all_names \<union> json_ctes v) (json_relations v)"
proof (induction resolve visible v and resolve visible vs and resolve recursive all_names before ctes
    rule: walk_json_walk_list_walk_ctes.induct)
  case (1 resolve visible entries)
  show ?case
  proof (cases "as_object (map_of entries ''RangeVar'')")
    case (Some rv)
    then show ?thesis using 1(4) by (auto simp: known_def Let_def split: if_splits)
  next
    case nrv: None
    show ?thesis
    proof (cases "as_object (map_of entries ''with_clause'')")
      case None
      have shapes: "\<forall>v \<in> set (map snd entries). tree_shape v" using 1(5) by auto
      have "walk_list resolve visible (map snd entries) = None" using 1(4) nrv None by simp
      from 1(1) [OF nrv None this shapes]
      have "known resolve (visible \<union> json_ctes (snd e)) (json_relations (snd e))" if "e \<in> set entries" for e using that by auto
      then show ?thesis by (intro known_object [OF nrv] known_entry)
    next
      case (Some wc)
      let ?all = "visible \<union> cte_names (arr_field wc ''ctes'')"
      have runs: "walk_ctes resolve (bool_field wc ''recursive'') ?all visible (arr_field wc ''ctes'') = None"
          "walk_list resolve ?all (map snd (filter (\<lambda>e. fst e \<noteq> ''with_clause'') entries)) = None"
        using 1(4) nrv Some by (auto simp: Let_def split: option.splits)
      show ?thesis
      proof (rule known_with_object [OF 1(5) nrv Some])
        show "\<forall>v \<in> set (map snd (filter (\<lambda>e. fst e \<noteq> ''with_clause'') entries)). known resolve (?all \<union> json_ctes v) (json_relations v)"
          by (rule 1(3) [OF nrv Some refl refl runs]) (use 1(5) in auto)
        show "\<forall>v \<in> set (arr_field wc ''ctes''). known resolve (?all \<union> json_ctes v) (json_relations v)"
          by (rule 1(2) [OF nrv Some refl refl runs(1) with_clause_parts(2) [OF 1(5) Some]]) simp
      qed
    qed
  qed
next
  case (2 resolve visible items)
  then have "\<forall>v \<in> set items. known resolve (visible \<union> json_ctes v) (json_relations v)" by simp
  from known_grow [OF this, of "json_ctes (JArray items)"] show ?case by (simp add: known_UN)
next
  case (5 resolve visible v vs)
  then show ?case by (auto split: option.splits)
next
  case (7 resolve recursive all_names before cte ctes)
  have runs: "walk_json resolve (if recursive then all_names else before) cte = None"
    and tail: "walk_ctes resolve recursive all_names (case cte_name cte of Some name \<Rightarrow> insert name before | None \<Rightarrow> before) ctes = None"
    using 7(3) by (auto split: option.splits)
  have "known resolve ((if recursive then all_names else before) \<union> json_ctes cte) (json_relations cte)"
    using 7(1) [OF runs] 7(4) by simp
  then have "known resolve (all_names \<union> json_ctes cte) (json_relations cte)"
    by (rule known_mono) (use 7(5) in auto)
  moreover have "\<forall>v \<in> set ctes. known resolve (all_names \<union> json_ctes v) (json_relations v)"
    by (rule 7(2) [OF runs tail]) (use 7(4,5) in \<open>auto simp: cte_names_Cons split: option.splits\<close>)
  ultimately show ?case by simp
qed (auto simp: known_def)

lemma walk_Some:
  "walk_json resolve visible v = Some hit \<Longrightarrow> tree_shape v \<Longrightarrow> hit \<in> json_relations v \<and> \<not> resolve (fst hit) (snd hit)"
  "walk_list resolve visible vs = Some hit \<Longrightarrow> \<forall>v \<in> set vs. tree_shape v \<Longrightarrow>
     (\<exists>v \<in> set vs. hit \<in> json_relations v) \<and> \<not> resolve (fst hit) (snd hit)"
  "walk_ctes resolve recursive all_names before ctes = Some hit \<Longrightarrow> \<forall>v \<in> set ctes. tree_shape v \<Longrightarrow>
     (\<exists>v \<in> set ctes. hit \<in> json_relations v) \<and> \<not> resolve (fst hit) (snd hit)"
proof (induction resolve visible v and resolve visible vs and resolve recursive all_names before ctes
    rule: walk_json_walk_list_walk_ctes.induct)
  case (1 resolve visible entries)
  show ?case
  proof (cases "as_object (map_of entries ''RangeVar'')")
    case (Some rv)
    then show ?thesis using 1(4) by (auto simp: Let_def split: if_splits)
  next
    case nrv: None
    show ?thesis
    proof (cases "as_object (map_of entries ''with_clause'')")
      case None
      have shapes: "\<forall>v \<in> set (map snd entries). tree_shape v" using 1(5) by auto
      have "walk_list resolve visible (map snd entries) = Some hit" using 1(4) nrv None by simp
      from 1(1) [OF nrv None this shapes] show ?thesis using nrv by auto
    next
      case (Some wc)
      let ?ctes = "arr_field wc ''ctes''"
      let ?all = "visible \<union> cte_names ?ctes"
      let ?rest = "map snd (filter (\<lambda>e. fst e \<noteq> ''with_clause'') entries)"
      note parts = with_clause_parts [OF 1(5) Some]
      show ?thesis
      proof (cases "walk_ctes resolve (bool_field wc ''recursive'') ?all visible ?ctes")
        case run: None
        have "\<forall>v \<in> set ?rest. tree_shape v" using 1(5) by auto
        moreover have "walk_list resolve ?all ?rest = Some hit" using 1(4) nrv Some run by (simp add: Let_def)
        ultimately have "(\<exists>v \<in> set ?rest. hit \<in> json_relations v) \<and> \<not> resolve (fst hit) (snd hit)"
          using 1(3) [OF nrv Some refl refl run] by blast
        then show ?thesis using nrv by force
      next
        case run: (Some h)
        then have "walk_ctes resolve (bool_field wc ''recursive'') ?all visible ?ctes = Some hit"
          using 1(4) nrv Some by (simp add: Let_def)
        then have "hit \<in> json_relations (JObject wc)" "\<not> resolve (fst hit) (snd hit)"
          unfolding parts(1) using 1(2) [OF nrv Some refl refl _ parts(2)] by auto
        then show ?thesis using nrv parts(3) by force
      qed
    qed
  qed
next
  case (5 resolve visible v vs)
  then show ?case by (auto split: option.splits)
next
  case (7 resolve recursive all_names before cte ctes)
  then show ?case by (cases "walk_json resolve (if recursive then all_names else before) cte") auto
qed auto

section \<open>Properties\<close>

text \<open>C23: The extracted values bound every matching row. If the \<open>WHERE\<close> condition is true for a row, under
  SQL's three-valued logic and whatever truth values the parts the extractor cannot read have, and the
  extractor returned any value for a column, then the row's column is equal to one of them.\<close>

theorem extraction_sound:
  assumes "as_enum w = Some cond" and "truth sem cond = TT" and "where_key_values w c \<noteq> []"
  shows "\<exists>kv \<in> set (where_key_values w c). \<exists>v x. rs_col sem c = Some v \<and> operand_value sem kv = Some x \<and> rs_same sem c v x"
  using where_key_values_sound [OF assms(3)] assms(1,2) by (simp add: pinned_def)

definition demo_eq :: "string \<Rightarrow> node_enum \<Rightarrow> node_enum" where
  "demo_eq c n = NAExpr (AExpr (Some AexprOp) [Some (NString ''='')] (Some (Some (NColumnRef [Some (NString c)]))) (Some (Some n)))"

theorem extraction_sound_witness:
  "\<exists>kv \<in> set (where_key_values (Some (Some (NBoolExpr AndExpr [Some (demo_eq ''note'' (NString ''x'')), Some (demo_eq ''id'' (NParam 1))]))) ''id'').
     kv = KParam 1"
proof -
  let ?cond = "NBoolExpr AndExpr [Some (demo_eq ''note'' (NString ''x'')), Some (demo_eq ''id'' (NParam 1))]"
  let ?sem = "\<lparr>rs_col = (\<lambda>_. Some (Int64 7)), rs_param = (\<lambda>_. Some (Text ''7'')), rs_same = (\<lambda>_ _ _. True),
    rs_equal = (\<lambda>_ _. TT), rs_other = (\<lambda>_. UU)\<rparr>"
  have vals: "where_key_values (Some (Some ?cond)) ''id'' = [KParam 1]"
    by (simp add: where_key_values_def as_enum_def demo_eq_def collect_a_expr_def is_eq_operator_def is_key_column_def
        column_name_def push_value_def key_val_def)
  have "truth ?sem ?cond = TT"
    by (simp add: demo_eq_def truth_a_expr_def as_enum_def is_eq_operator_def equals_def column_of_def column_name_def
        key_val_def compare_col_def operand_value_def tri_and_def Let_def)
  from extraction_sound [of "Some (Some ?cond)" ?cond ?sem "''id''"] this show ?thesis
    by (simp add: vals as_enum_def)
qed

text \<open>C24: No unknown relation hides in a statement. On the JSON form of a parse tree, a search that finds
  nothing means that every relation reference anywhere in it resolves or is an unqualified name of a CTE
  the statement defines; and what the search reports is a reference of the statement that does not
  resolve.\<close>

theorem unresolved_relation_exact:
  assumes "tree_shape j"
  shows "case find_unresolved_relation (Some j) resolve of
      None \<Rightarrow> \<forall>(s, n) \<in> json_relations j. resolve s n \<or> s = [] \<and> n \<in> json_ctes j
    | Some (s, n) \<Rightarrow> (s, n) \<in> json_relations j \<and> \<not> resolve s n"
  using walk_None(1) [of resolve "{}" j] walk_Some(1) [of resolve "{}" j] assms
  by (auto simp: find_unresolved_relation_def known_def split: option.splits)

theorem unresolved_relation_exact_witness:
  "find_unresolved_relation (Some (JArray [JObject [(''RangeVar'', JObject [(''relname'', JString ''t'')])]])) (\<lambda>s n. n = ''u'')
     = Some ([], ''t'') \<and> ([], ''t'') \<in> json_relations (JArray [JObject [(''RangeVar'', JObject [(''relname'', JString ''t'')])]])"
proof -
  let ?j = "JArray [JObject [(''RangeVar'', JObject [(''relname'', JString ''t'')])]]"
  have found: "find_unresolved_relation (Some ?j) (\<lambda>s n. n = ''u'') = Some ([], ''t'')"
    by (simp add: find_unresolved_relation_def as_object_def str_field_def)
  have "tree_shape ?j" by simp
  from unresolved_relation_exact [OF this, of "\<lambda>s n. n = ''u''"] found show ?thesis by simp
qed

end
