(* ===== verification/Planner_Sound.thy ===== *)
theory Planner_Sound
  imports Planner Extract_Sound
begin

text \<open>
  The planner never under-routes: the shard that holds a matching row is among the shards the final plan
  runs on, and a write runs on that shard alone.
\<close>

section \<open>What a plan runs on\<close>

fun executes_on :: "plan \<Rightarrow> shard_id set" where
  "executes_on (SingleShard s) = {s}"
| "executes_on (Scatter ss) = set ss"
| "executes_on (Broadcast ss) = set ss"
| "executes_on _ = {}"

fun is_reject :: "plan \<Rightarrow> bool" where
  "is_reject (Reject _ _) \<longleftrightarrow> True"
| "is_reject _ \<longleftrightarrow> False"

text \<open>A parameterized plan is completed at Bind.\<close>

definition final_plan :: "(bytes \<Rightarrow> u64 \<Rightarrow> u64) \<Rightarrow> scalar_value list \<Rightarrow> shard_catalog \<Rightarrow> plan \<Rightarrow> plan option" where
  "final_plan xxh64 vals shards p =
     (case p of Parameterized q \<Rightarrow> resolve_bound xxh64 q vals shards | _ \<Rightarrow> Some p)"

text \<open>The value a column of the declared type stores for an operand, and the shard that holds its row.\<close>

definition canonical :: "scalar_type option \<Rightarrow> scalar_value \<Rightarrow> scalar_value option" where
  "canonical key_type x = (case key_type of Some t \<Rightarrow> coerce t x | None \<Rightarrow> Some x)"

definition home :: "(bytes \<Rightarrow> u64 \<Rightarrow> u64) \<Rightarrow> shard_catalog \<Rightarrow> string \<Rightarrow> scalar_value \<Rightarrow> shard_id option" where
  "home xxh64 shards fname v =
     (case shard_function fname of Ok f \<Rightarrow> route shards (keyspace_id xxh64 f v) | Err _ \<Rightarrow> None)"

definition bound_param :: "scalar_value list \<Rightarrow> u32 \<Rightarrow> scalar_value option" where
  "bound_param vals n = (if n = 0 then None else nth_opt vals (unat n - 1))"

definition bound_value :: "scalar_value list \<Rightarrow> keyval \<Rightarrow> scalar_value option" where
  "bound_value vals kv = (case kv of KConst v \<Rightarrow> Some v | KParam n \<Rightarrow> bound_param vals n)"

section \<open>Routing values\<close>

lemma set_btree_list [simp]: "set (btree_list xs) = set xs"
  by (simp add: btree_list_def)

lemma distinct_btree_list [simp]: "distinct (btree_list xs)"
  by (simp add: btree_list_def)

lemma btree_list_Nil [simp]: "btree_list xs = [] \<longleftrightarrow> xs = []"
  by (metis set_btree_list set_empty)

lemma key_keyspace_id_canonical:
  "key_keyspace_id xxh64 f kt x = map_option (keyspace_id xxh64 f) (canonical kt x)"
  by (auto simp: key_keyspace_id_def canonical_def split: option.splits)

lemma home_route:
  "shard_function fname = Ok f \<Longrightarrow> home xxh64 shards fname v = route shards (keyspace_id xxh64 f v)"
  by (simp add: home_def)

lemma home_function:
  assumes "home xxh64 shards fname v = Some s"
  obtains f where "shard_function fname = Ok f" and "route shards (keyspace_id xxh64 f v) = Some s"
  using assms by (auto simp: home_def split: sum.splits)

text \<open>The shards of a list of values, in the order of the values.\<close>

definition value_shard :: "(bytes \<Rightarrow> u64 \<Rightarrow> u64) \<Rightarrow> shard_fn \<Rightarrow> scalar_type option \<Rightarrow> shard_catalog \<Rightarrow> scalar_value \<Rightarrow> shard_id option" where
  "value_shard xxh64 f kt shards x = Option.bind (key_keyspace_id xxh64 f kt x) (route shards)"

lemma route_consts_total:
  "catalog_ok shards \<Longrightarrow> route_consts xxh64 f kt shards vs hit \<noteq> None"
proof (induction xxh64 f kt shards vs hit rule: route_consts.induct)
  case (2 xxh64 f kt shards sv vs hit)
  then show ?case using cat.find_total [OF 2(2)]
    by (cases "key_keyspace_id xxh64 f kt sv") (auto, metis bind.bind_lunit)
qed simp_all

lemma route_consts_Shards:
  "route_consts xxh64 f kt shards (map KConst xs) hit = Some (Shards ss) \<Longrightarrow>
     \<exists>hs. collect_opt (value_shard xxh64 f kt shards) xs = Some hs \<and> ss = btree_list (hit @ hs)"
proof (induction xs arbitrary: hit)
  case (Cons x xs)
  then obtain key s where "key_keyspace_id xxh64 f kt x = Some key" "route shards key = Some s"
      and "route_consts xxh64 f kt shards (map KConst xs) (hit @ [s]) = Some (Shards ss)"
    by (auto split: option.splits simp: bind_eq_Some_conv)
  with Cons.IH [of "hit @ [s]"] show ?case by (auto simp: value_shard_def)
qed simp

lemma route_consts_cases:
  "route_consts xxh64 f kt shards vs hit = Some r \<Longrightarrow> r = Uncoercible \<or> (\<exists>ss. r = Shards ss)"
  by (induction xxh64 f kt shards vs hit rule: route_consts.induct)
    (auto split: option.splits simp: bind_eq_Some_conv)

lemma bound_shards_total:
  "catalog_ok shards \<Longrightarrow> bound_shards xxh64 f kt vals shards indices hit \<noteq> None"
proof (induction xxh64 f kt vals shards indices hit rule: bound_shards.induct)
  case (2 xxh64 f kt vals shards idx indices hit)
  show ?case
  proof (cases "if idx = 0 then None else nth_opt vals (unat idx - 1)")
    case (Some v)
    then show ?thesis using 2(1) [OF Some _ _ 2(2)] cat.find_total [OF 2(2)]
      by (cases "key_keyspace_id xxh64 f kt v") (auto, metis bind.bind_lunit)
  qed simp
qed simp

lemma bound_shards_Ok:
  "bound_shards xxh64 f kt vals shards indices hit = Some (Ok ss) \<longleftrightarrow>
     (\<exists>hs. collect_opt (\<lambda>n. Option.bind (bound_param vals n) (value_shard xxh64 f kt shards)) indices = Some hs
        \<and> ss = btree_list (hit @ hs))"
proof (induction indices arbitrary: hit)
  case (Cons n indices)
  show ?case
  proof (cases "bound_param vals n")
    case None
    then show ?thesis by (simp add: bound_param_def)
  next
    case (Some v)
    then show ?thesis using Cons.IH
      by (cases "key_keyspace_id xxh64 f kt v"; cases "route shards (the (key_keyspace_id xxh64 f kt v))")
        (auto simp: bound_param_def value_shard_def split: option.splits)
  qed
qed auto

lemma bound_shards_Err:
  "bound_shards xxh64 f kt vals shards indices hit = Some (Err p) \<Longrightarrow> is_reject p"
  by (induction xxh64 f kt vals shards indices hit rule: bound_shards.induct)
    (auto split: option.splits if_splits simp: bind_eq_Some_conv reject_def)

lemma route_values_total:
  assumes "catalog_ok shards" and "is_ok (shard_function fname)"
  shows "route_values xxh64 vals kt fname shards \<noteq> None"
  using assms route_consts_total [OF assms(1)]
  by (auto simp: route_values_def split: sum.splits)

lemma no_params: "param_indices vals = [] \<Longrightarrow> \<exists>xs. vals = map KConst xs"
proof (induction vals)
  case (Cons v vals)
  then show ?case by (cases v) (auto simp: param_indices_def map_filter_simps intro: exI [of _ "_ # _"])
qed simp

lemma no_consts: "\<not> has_const vals \<Longrightarrow> vals = map KParam (param_indices vals)"
proof (induction vals)
  case (Cons v vals)
  then show ?case by (cases v) (auto simp: param_indices_def has_const_def map_filter_simps)
qed (simp add: param_indices_def map_filter_simps)

lemma collect_opt_member:
  "collect_opt g xs = Some ys \<Longrightarrow> x \<in> set xs \<Longrightarrow> \<exists>y \<in> set ys. g x = Some y"
  by (auto simp: collect_opt_Some list_all2_conv_all_nth in_set_conv_nth) 

text \<open>What each resolution says of the shard of a value among the operands.\<close>

definition resolution_covers ::
    "(bytes \<Rightarrow> u64 \<Rightarrow> u64) \<Rightarrow> scalar_value list \<Rightarrow> shard_catalog \<Rightarrow> string \<Rightarrow> scalar_type option \<Rightarrow> resolution \<Rightarrow> shard_id \<Rightarrow> bool" where
  "resolution_covers xxh64 vals shards fname kt r s =
     (case r of
        Shards hit \<Rightarrow> s \<in> set hit
      | Params indices \<Rightarrow> \<exists>n \<in> set indices. \<exists>x v. bound_param vals n = Some x \<and> canonical kt x = Some v
          \<and> home xxh64 shards fname v = Some s
      | _ \<Rightarrow> True)"

lemma route_values_covers:
  assumes "route_values xxh64 kvs kt fname shards = Some r" and "kv \<in> set kvs"
    and "bound_value vals kv = Some x" and "canonical kt x = Some v" and "home xxh64 shards fname v = Some s"
  shows "resolution_covers xxh64 vals shards fname kt r s"
proof -
  obtain f where f: "shard_function fname = Ok f" "route shards (keyspace_id xxh64 f v) = Some s"
    using assms(5) by (rule home_function)
  consider (params) "param_indices kvs \<noteq> []" "\<not> has_const kvs" | (mixed) "r = Mixed" | (literals) "param_indices kvs = []"
      "route_consts xxh64 f kt shards kvs [] = Some r"
    using assms(1,2) f(1) by (auto simp: route_values_def split: if_splits)
  then show ?thesis
  proof cases
    case params
    then have "r = Params (param_indices kvs)" using assms(1,2) by (auto simp: route_values_def split: if_splits)
    moreover obtain n where "kv = KParam n" "n \<in> set (param_indices kvs)"
      using no_consts [OF params(2)] assms(2) by (metis (no_types, lifting) imageE list.set_map)
    ultimately show ?thesis using assms by (auto simp: resolution_covers_def bound_value_def)
  next
    case literals
    obtain xs where xs: "kvs = map KConst xs" using no_params [OF literals(1)] by blast
    then have x: "x \<in> set xs" using assms(2,3) by (auto simp: bound_value_def)
    have "value_shard xxh64 f kt shards x = Some s"
      by (simp add: value_shard_def key_keyspace_id_canonical assms(4) f(2))
    then have "s \<in> set ss" if "r = Shards ss" for ss
      using route_consts_Shards literals(2) collect_opt_member [OF _ x] unfolding xs that by fastforce
    then show ?thesis using route_consts_cases [OF literals(2)] by (auto simp: resolution_covers_def)
  qed (simp add: resolution_covers_def)
qed

lemma resolve_bound_total: "catalog_ok shards \<Longrightarrow> resolve_bound xxh64 q vals shards \<noteq> None"
  using bound_shards_total [of shards] by (auto simp: resolve_bound_def split: sum.splits)

lemma resolve_bound_cases:
  assumes "resolve_bound xxh64 q vals shards = Some p" and "\<not> is_reject p"
  obtains f hs where "shard_function (pz_shard_function q) = Ok f"
    and "collect_opt (\<lambda>n. Option.bind (bound_param vals n) (value_shard xxh64 f (pz_key_type q) shards)) (pz_param_indices q) = Some hs"
    and "executes_on p = set hs" and "pz_write q \<Longrightarrow> \<exists>s. p = SingleShard s"
proof -
  obtain f where f: "shard_function (pz_shard_function q) = Ok f"
    using assms by (auto simp: resolve_bound_def split: sum.splits)
  obtain ss where ss: "bound_shards xxh64 f (pz_key_type q) vals shards (pz_param_indices q) [] = Some (Ok ss)"
    using assms f
    by (cases "bound_shards xxh64 f (pz_key_type q) vals shards (pz_param_indices q) []")
      (auto simp: resolve_bound_def dest: bound_shards_Err split: sum.splits)
  then have p: "executes_on p = set ss" "pz_write q \<Longrightarrow> \<exists>s. p = SingleShard s"
    using assms f by (auto simp: resolve_bound_def reject_def split: list.splits if_splits)
  then show thesis using that [OF f] ss by (auto simp: bound_shards_Ok)
qed

lemma resolve_bound_covers:
  assumes ok: "catalog_ok shards"
    and covers: "resolution_covers xxh64 vals shards fname kt (Params indices) s"
    and q: "q = \<lparr>pz_shard_function = fname, pz_key_type = kt, pz_param_indices = indices, pz_write = w\<rparr>"
  shows "\<exists>p. resolve_bound xxh64 q vals shards = Some p \<and> (is_reject p \<or> s \<in> executes_on p \<and> (w \<longrightarrow> p = SingleShard s))"
proof -
  obtain p where p: "resolve_bound xxh64 q vals shards = Some p" using resolve_bound_total [OF ok] by blast
  obtain n x v where n: "n \<in> set indices" "bound_param vals n = Some x" "canonical kt x = Some v" "home xxh64 shards fname v = Some s"
    using covers by (auto simp: resolution_covers_def)
  have "s \<in> executes_on p \<and> (w \<longrightarrow> p = SingleShard s)" if nr: "\<not> is_reject p"
  proof (rule resolve_bound_cases [OF p nr])
    fix f hs
    assume f: "shard_function (pz_shard_function q) = Ok f"
      and hs: "collect_opt (\<lambda>n. Option.bind (bound_param vals n) (value_shard xxh64 f (pz_key_type q) shards)) (pz_param_indices q) = Some hs"
      and p: "executes_on p = set hs" "pz_write q \<Longrightarrow> \<exists>s. p = SingleShard s"
    have "value_shard xxh64 f kt shards x = Some s"
      using f n(3,4) by (simp add: value_shard_def key_keyspace_id_canonical q home_def)
    then have "s \<in> set hs" using collect_opt_member [OF hs, of n] n(1,2) by (auto simp: q)
    moreover have "p = SingleShard s" if w
      using p(1) [symmetric] p(2) calculation that by (cases p) (auto simp: q)
    ultimately show "s \<in> executes_on p \<and> (w \<longrightarrow> p = SingleShard s)" using p by simp
  qed
  then show ?thesis using p by blast
qed

section \<open>Reads and writes\<close>

text \<open>The row matches: its key is \<open>v\<close>, the condition is true of it, and the server's equality on the key
  column is equality of canonical values, with the parameters bound to \<open>vals\<close>.\<close>

definition matching_row ::
    "row_sem \<Rightarrow> scalar_value list \<Rightarrow> string \<Rightarrow> scalar_type option \<Rightarrow> node option \<Rightarrow> scalar_value \<Rightarrow> bool" where
  "matching_row sem vals key kt w v \<longleftrightarrow>
     rs_col sem key = Some v \<and> rs_param sem = bound_param vals
     \<and> (\<forall>x. rs_same sem key v x \<longrightarrow> canonical kt x = Some v)
     \<and> (\<forall>cond. as_enum w = Some cond \<longrightarrow> truth sem cond = TT)"

lemma operand_bound: "rs_param sem = bound_param vals \<Longrightarrow> operand_value sem kv = bound_value vals kv"
  by (auto simp: operand_value_def bound_value_def split: keyval.splits)

lemma where_covers:
  assumes "route_values xxh64 (where_key_values w key) kt fname shards = Some r"
    and row: "matching_row sem vals key kt w v" and home: "home xxh64 shards fname v = Some s"
  shows "resolution_covers xxh64 vals shards fname kt r s"
proof (cases "where_key_values w key = []")
  case True
  then show ?thesis using assms(1) by (auto simp: route_values_def resolution_covers_def)
next
  case False
  then have "pinned sem key (where_key_values w key)"
    by (rule where_key_values_sound) (use row in \<open>simp add: matching_row_def\<close>)
  then obtain kv x where "kv \<in> set (where_key_values w key)" "bound_value vals kv = Some x" "canonical kt x = Some v"
    using row by (auto simp: pinned_def matching_row_def operand_bound)
  then show ?thesis using route_values_covers [OF assms(1) _ _ _ home] by blast
qed

lemma sharded_function_ok:
  "vschema_ok vs \<Longrightarrow> vschema_get vs t = Some (Sharded key kt fname seqs) \<Longrightarrow> is_ok (shard_function fname)"
  by (fastforce simp: vschema_ok_def vschema_get_def)

lemma placement_sharded:
  "placement_of vs t = PSharded key kt fname \<longleftrightarrow> (\<exists>seqs. vschema_get vs t = Some (Sharded key kt fname seqs))"
  by (auto simp: placement_of_def split: option.splits table_def.splits)

lemma sharded_tables_single: "placement_of vs t = PSharded key kt fname \<Longrightarrow> sharded_tables vs [t] = [(key, kt, fname)]"
  by (simp add: sharded_tables_def map_filter_simps)

lemma sharded_tables_entry:
  "(key, kt, fname) \<in> set (sharded_tables vs ts) \<Longrightarrow> \<exists>t \<in> set ts. placement_of vs t = PSharded key kt fname"
  by (auto simp: sharded_tables_def List.map_filter_def split: placement.splits)

lemma sharded_tables_member:
  "t \<in> set ts \<Longrightarrow> placement_of vs t = PSharded key kt fname \<Longrightarrow> (key, kt, fname) \<in> set (sharded_tables vs ts)"
  by (force simp: sharded_tables_def List.map_filter_def split: placement.splits)

definition read_plan :: "string \<Rightarrow> scalar_type option \<Rightarrow> shard_catalog \<Rightarrow> resolution \<Rightarrow> plan" where
  "read_plan fname kt shards r =
     (case r of
        Shards hit \<Rightarrow> read_from_shards hit
      | Params indices \<Rightarrow> Parameterized
          \<lparr>pz_shard_function = fname, pz_key_type = kt, pz_param_indices = indices, pz_write = False\<rparr>
      | _ \<Rightarrow> Scatter (catalog_all shards))"

lemma read_plan_covers:
  assumes "catalog_ok shards" and "resolution_covers xxh64 vals shards fname kt r s" and "home xxh64 shards fname v = Some s"
  shows "\<exists>q. final_plan xxh64 vals shards (read_plan fname kt shards r) = Some q \<and> (is_reject q \<or> s \<in> executes_on q)"
proof -
  have "s \<in> set (catalog_all shards)"
    using assms(3) by (rule home_function) (auto intro: cat.find_member [OF assms(1)])
  then show ?thesis
  proof (cases r)
    case (Params indices)
    then show ?thesis
      using resolve_bound_covers [OF assms(1) assms(2) [unfolded Params] refl, of False]
      by (auto simp: read_plan_def final_plan_def)
  qed (use assms(2) in \<open>auto simp: read_plan_def final_plan_def resolution_covers_def read_from_shards_def split: list.splits\<close>)
qed

definition write_plan :: "(resolution \<Rightarrow> string) \<Rightarrow> table_name \<Rightarrow> string \<Rightarrow> scalar_type option \<Rightarrow> resolution \<Rightarrow> plan" where
  "write_plan refusal table fname kt r =
     (case r of
        Shards hit \<Rightarrow> write_to_shards hit table
      | Params indices \<Rightarrow> Parameterized
          \<lparr>pz_shard_function = fname, pz_key_type = kt, pz_param_indices = indices, pz_write = True\<rparr>
      | _ \<Rightarrow> reject (refusal r))"

lemma is_reject_reject [simp]: "is_reject (reject text)"
  by (simp add: reject_def)

lemma final_plan_simps [simp]:
  "final_plan xxh64 vals shards (SingleShard s) = Some (SingleShard s)"
  "final_plan xxh64 vals shards (reject text) = Some (reject text)"
  "final_plan xxh64 vals shards Unsharded = Some Unsharded"
  by (simp_all add: final_plan_def reject_def)

lemma write_plan_covers:
  assumes "catalog_ok shards" and "resolution_covers xxh64 vals shards fname kt r s"
  shows "\<exists>q. final_plan xxh64 vals shards (write_plan refusal table fname kt r) = Some q \<and> (is_reject q \<or> q = SingleShard s)"
proof (cases r)
  case (Params indices)
  then show ?thesis
    using resolve_bound_covers [OF assms(1) assms(2) [unfolded Params] refl, of True]
    by (auto simp: write_plan_def final_plan_def)
next
  case (Shards hit)
  then show ?thesis using assms(2)
    by (cases hit rule: remdups_adj.cases) (auto simp: write_plan_def resolution_covers_def write_to_shards_def)
qed (simp_all add: write_plan_def)

lemma write_plan_single:
  assumes "final_plan xxh64 vals shards (write_plan refusal table fname kt r) = Some q" and "\<not> is_reject q"
  shows "\<exists>s. q = SingleShard s"
proof (cases r)
  case (Params indices)
  then show ?thesis
    using resolve_bound_cases [OF _ assms(2)] assms(1) by (fastforce simp: write_plan_def final_plan_def)
next
  case (Shards hit)
  then show ?thesis using assms
    by (cases hit rule: remdups_adj.cases) (auto simp: write_plan_def write_to_shards_def)
qed (use assms in \<open>auto simp: write_plan_def\<close>)

lemma plan_keyed_write_shape:
  "\<exists>refusal. plan_keyed_write xxh64 kvs kt fname shards table key verb
     = map_option (write_plan refusal table fname kt) (route_values xxh64 kvs kt fname shards)"
  unfolding plan_keyed_write_def write_plan_def
  by (rule exI [of _ "\<lambda>r. case r of
      Unkeyed \<Rightarrow> verb @ '' of sharded table '' @ table_name_str table @ '' must constrain shard key '' @ key
    | Mixed \<Rightarrow> verb @ '' of sharded table '' @ table_name_str table @ '' mixes literal and parameter shard keys''
    | _ \<Rightarrow> verb @ '' of sharded table '' @ table_name_str table @ '' has a shard key '' @ key @
           '' value that is not valid for the column type''"])
    (auto intro!: map_option_cong split: resolution.splits)

section \<open>Statements\<close>

lemma plan_select_cases:
  assumes "plan_select xxh64 to_value s vs shards = Some p" and "\<not> is_reject p" and "sel_op s = SetopNone"
    and "t \<in> set (fc_tables (analyze_from (sel_from s)))" and "placement_of vs t = PSharded key kt fname"
  shows "\<exists>r. route_values xxh64 (where_key_values (sel_where s) key) kt fname shards = Some r \<and> p = read_plan fname kt shards r"
proof -
  let ?ts = "fc_tables (analyze_from (sel_from s))"
  have "(key, kt, fname) \<in> set (sharded_tables vs ?ts)" using assms(4,5) by (rule sharded_tables_member)
  then consider (one) "sharded_tables vs ?ts = [(key, kt, fname)]" | (many) a b l where "sharded_tables vs ?ts = a # b # l"
    by (cases "sharded_tables vs ?ts" rule: remdups_adj.cases) auto
  then show ?thesis
  proof cases
    case one
    then show ?thesis using assms(1-3)
      by (auto simp: plan_select_def Let_def reject_unknown_def read_plan_def split: option.splits if_splits resolution.splits)
  next
    case many
    then show ?thesis using assms(1-3)
      by (auto simp: plan_select_def Let_def reject_unknown_def split: option.splits if_splits)
  qed
qed

lemma plan_select_total:
  assumes "catalog_ok shards" and "vschema_ok vs"
  shows "plan_select xxh64 to_value s vs shards \<noteq> None"
proof -
  let ?ts = "fc_tables (analyze_from (sel_from s))"
  have "route_values xxh64 (where_key_values (sel_where s) key) kt fname shards \<noteq> None"
    if "sharded_tables vs ?ts = [(key, kt, fname)]" for key kt fname
    using sharded_tables_entry [of key kt fname vs ?ts] that sharded_function_ok [OF assms(2)]
    by (intro route_values_total [OF assms(1)]) (auto simp: placement_sharded)
  then show ?thesis
    by (auto simp: plan_select_def Let_def split: option.splits list.splits)
qed

text \<open>The table and condition of an \<open>UPDATE\<close> or \<open>DELETE\<close>, and the table of any write.\<close>

fun keyed_write :: "node_enum \<Rightarrow> (range_var \<times> node option) option" where
  "keyed_write (NUpdate u) = map_option (\<lambda>rv. (rv, ust_where u)) (ust_relation u)"
| "keyed_write (NDelete d) = map_option (\<lambda>rv. (rv, dst_where d)) (dst_relation d)"
| "keyed_write _ = None"

fun write_relation :: "node_enum \<Rightarrow> range_var option" where
  "write_relation (NUpdate u) = ust_relation u"
| "write_relation (NDelete d) = dst_relation d"
| "write_relation (NInsert i) = ist_relation i"
| "write_relation _ = None"

lemma plan_stmt_write:
  "plan_stmt xxh64 to_value (classify (Some (NInsert i))) (NInsert i) vs shards = plan_insert xxh64 to_value i vs shards"
  "plan_stmt xxh64 to_value (classify (Some (NUpdate u))) (NUpdate u) vs shards = plan_update xxh64 to_value u vs shards"
  "plan_stmt xxh64 to_value (classify (Some (NDelete d))) (NDelete d) vs shards = plan_delete xxh64 to_value d vs shards"
  by (simp_all add: plan_stmt_def classify_def)

lemma keyed_write_plan:
  assumes "keyed_write n = Some (rv, w)" and "placement_of vs (range_var_table rv) = PSharded key kt fname"
  shows "(\<exists>text. plan_stmt xxh64 to_value (classify (Some n)) n vs shards = Some (reject text))
    \<or> (\<exists>verb. plan_stmt xxh64 to_value (classify (Some n)) n vs shards
          = plan_keyed_write xxh64 (where_key_values w key) kt fname shards (range_var_table rv) key verb)"
  using assms by (cases n) (auto simp: plan_stmt_write plan_update_def plan_delete_def Let_def)

lemma insert_plan:
  assumes "ist_relation i = Some rv" and "placement_of vs (range_var_table rv) = PSharded key kt fname"
  shows "(\<exists>text. plan_insert xxh64 to_value i vs shards = Some (reject text))
    \<or> (\<exists>kvs refusal. insert_key_values i key = Some kvs \<and> plan_insert xxh64 to_value i vs shards
          = map_option (write_plan refusal (range_var_table rv) fname kt) (route_values xxh64 kvs kt fname shards))"
proof (cases "\<exists>text. plan_insert xxh64 to_value i vs shards = Some (reject text)")
  case False
  let ?t = "table_name_str (range_var_table rv)"
  let ?refusal = "\<lambda>r. case r of
      Unkeyed \<Rightarrow> ''INSERT into sharded table '' @ ?t @ '' does not set shard key '' @ key
    | Mixed \<Rightarrow> ''INSERT into sharded table '' @ ?t @ '' mixes literal and parameter shard keys across rows''
    | _ \<Rightarrow> ''INSERT into sharded table '' @ ?t @ '' has a shard key '' @ key @ '' value that is not valid for the column type''"
  from False assms obtain kvs where kvs: "insert_key_values i key = Some kvs"
    by (auto simp: plan_insert_def conflict_refusal_def Let_def split: option.splits if_splits)
  moreover have "plan_insert xxh64 to_value i vs shards
      = map_option (write_plan ?refusal (range_var_table rv) fname kt) (route_values xxh64 kvs kt fname shards)"
    using False assms kvs
    by (auto simp: plan_insert_def conflict_refusal_def write_plan_def Let_def
        intro!: map_option_cong split: option.splits if_splits resolution.splits)
  ultimately show ?thesis by blast
qed simp

lemma write_shape:
  assumes "write_relation n = Some rv" and "placement_of vs (range_var_table rv) = PSharded key kt fname"
  shows "(\<exists>text. plan_stmt xxh64 to_value (classify (Some n)) n vs shards = Some (reject text))
    \<or> (\<exists>kvs refusal. plan_stmt xxh64 to_value (classify (Some n)) n vs shards
          = map_option (write_plan refusal (range_var_table rv) fname kt) (route_values xxh64 kvs kt fname shards))"
proof -
  consider (ins) i where "n = NInsert i" "ist_relation i = Some rv" | (keyed) w where "keyed_write n = Some (rv, w)"
    using assms(1) by (cases n) auto
  then show ?thesis
  proof cases
    case ins
    then show ?thesis using insert_plan [OF ins(2) assms(2)] by (simp add: plan_stmt_write) blast
  next
    case keyed
    then show ?thesis using keyed_write_plan [OF keyed assms(2)] plan_keyed_write_shape by metis
  qed
qed

lemma write_other:
  assumes "write_relation n = Some rv" and "\<not> is_sharded vs (range_var_table rv)"
  shows "(\<exists>text. plan_stmt xxh64 to_value (classify (Some n)) n vs shards = Some (reject text))
    \<or> vschema_get vs (range_var_table rv) = Some Global \<and> plan_stmt xxh64 to_value (classify (Some n)) n vs shards = Some Unsharded"
  using assms
  by (cases n)
    (auto simp: plan_stmt_write plan_update_def plan_delete_def plan_insert_def placement_of_def is_sharded_def Let_def
      split: option.splits table_def.splits)

lemma write_total:
  assumes "catalog_ok shards" and "vschema_ok vs" and "writes n" and "\<not> (\<exists>kind rest. n = NOther kind rest)"
  shows "plan_stmt xxh64 to_value (classify (Some n)) n vs shards \<noteq> None"
proof (cases "write_relation n")
  case None
  then show ?thesis using assms(3,4)
    by (cases n) (auto simp: writes_def plan_stmt_write plan_insert_def plan_update_def plan_delete_def)
next
  case (Some rv)
  show ?thesis
  proof (cases "placement_of vs (range_var_table rv)")
    case (PSharded key kt fname)
    then have "is_ok (shard_function fname)" using sharded_function_ok [OF assms(2)] by (auto simp: placement_sharded)
    then show ?thesis using write_shape [OF Some PSharded] route_values_total [OF assms(1)] by fastforce
  qed (use write_other [OF Some, of vs xxh64 to_value shards] in \<open>auto simp: is_sharded_def\<close>)
qed

lemma plan_stmt_total:
  assumes "catalog_ok shards" and "vschema_ok vs"
  shows "\<exists>p. plan_stmt xxh64 to_value kind n vs shards = Some p"
proof -
  have "plan_insert xxh64 to_value i vs shards \<noteq> None" for i
    using write_total [OF assms, of "NInsert i"] by (simp add: plan_stmt_write writes_def)
  moreover have "plan_update xxh64 to_value u vs shards \<noteq> None" for u
    using write_total [OF assms, of "NUpdate u"] by (simp add: plan_stmt_write writes_def)
  moreover have "plan_delete xxh64 to_value d vs shards \<noteq> None" for d
    using write_total [OF assms, of "NDelete d"] by (simp add: plan_stmt_write writes_def)
  ultimately show ?thesis using plan_select_total [OF assms]
    by (cases kind; cases n) (simp_all add: plan_stmt_def)
qed

lemma final_plan_total: "catalog_ok shards \<Longrightarrow> \<exists>q. final_plan xxh64 vals shards p = Some q"
  using resolve_bound_total by (cases p) (auto simp: final_plan_def)

lemma collect_opt_total: "\<forall>x \<in> set xs. g x \<noteq> None \<Longrightarrow> \<exists>ys. collect_opt g xs = Some ys \<and> length ys = length xs"
  by (induction xs) auto

lemma collect_opt_bound:
  "map (bound_param vals) indices = map Some xs \<Longrightarrow>
     collect_opt (\<lambda>n. Option.bind (bound_param vals n) g) indices = collect_opt g xs"
proof (induction indices arbitrary: xs)
  case (Cons n indices)
  then obtain y ys where "xs = y # ys" "bound_param vals n = Some y" "map (bound_param vals) indices = map Some ys"
    by (auto simp: Cons_eq_map_conv)
  then show ?case using Cons.IH [of ys] by (cases "g y") simp_all
qed simp

lemma route_literals:
  assumes "route_values xxh64 (map KConst xs) kt fname shards = Some (Shards hit)"
  obtains f hs where "shard_function fname = Ok f" and "xs \<noteq> []"
    and "collect_opt (value_shard xxh64 f kt shards) xs = Some hs" and "hit = btree_list hs"
proof -
  have "param_indices (map KConst xs) = []" by (induction xs) (simp_all add: param_indices_def map_filter_simps)
  then obtain f where f: "shard_function fname = Ok f" "xs \<noteq> []"
      "route_consts xxh64 f kt shards (map KConst xs) [] = Some (Shards hit)"
    using assms by (auto simp: route_values_def split: sum.splits if_splits)
  from route_consts_Shards [OF f(3)] show thesis using that [OF f(1,2)] by auto
qed

lemma length_collect_opt: "collect_opt g xs = Some ys \<Longrightarrow> length ys = length xs"
  by (auto simp: collect_opt_Some dest: list_all2_lengthD)

definition demo_shards :: shard_catalog where
  "demo_shards = \<lparr>sc_shards = [(\<lparr>kr_start = 0, kr_end = Some 5\<rparr>, ShardId ''a''), (\<lparr>kr_start = 5, kr_end = None\<rparr>, ShardId ''b'')]\<rparr>"

definition demo_schema :: vschema where
  "demo_schema = \<lparr>vs_tables = [table_name_new ''public'' ''orders'' \<mapsto> Sharded ''region'' (Some TyText) ''xxhash64_v1'' []]\<rparr>"

definition demo_digest :: "bytes \<Rightarrow> u64 \<Rightarrow> u64" where
  "demo_digest data seed = of_nat (length data) + seed"

definition demo_tree :: "node_enum \<Rightarrow> json option" where
  "demo_tree n = Some (JObject [])"

definition demo_where :: "node option" where
  "demo_where = Some (Some (demo_eq ''region'' (NParam 1)))"

definition demo_row :: row_sem where
  "demo_row = \<lparr>rs_col = (\<lambda>_. Some (Text ''eu'')), rs_param = bound_param [Text ''eu''], rs_same = (\<lambda>_ v x. v = x \<and> canonical (Some TyText) x = Some x),
     rs_equal = (\<lambda>_ _. UU), rs_other = (\<lambda>_. UU)\<rparr>"

lemma demo_shards_new: "catalog_new (sc_shards demo_shards) = Ok demo_shards" "\<forall>p \<in> set (sc_shards demo_shards). wf_range (fst p)"
  by (simp_all add: demo_shards_def catalog_new_def validate_partition_def wf_range_def)

lemma demo_shards_ok: "catalog_ok demo_shards"
  using catalog_new_ok [OF demo_shards_new(2,1)] by simp

lemma demo_schema_ok: "vschema_ok demo_schema"
  by (simp add: vschema_ok_def demo_schema_def table_name_new_def shard_function_def)

lemma demo_orders: "vschema_get demo_schema (range_var_table (RangeVar [] ''orders'')) = Some (Sharded ''region'' (Some TyText) ''xxhash64_v1'' [])"
  by (simp add: vschema_get_def demo_schema_def range_var_table_def)

lemma demo_match: "matching_row demo_row [Text ''eu''] ''region'' (Some TyText) demo_where (Text ''eu'')"
  by (simp add: matching_row_def demo_row_def demo_where_def demo_eq_def as_enum_def truth_a_expr_def is_eq_operator_def equals_def
      column_of_def column_name_def key_val_def compare_col_def operand_value_def bound_param_def canonical_def)

lemma demo_home: "home demo_digest demo_shards ''xxhash64_v1'' (Text ''eu'') = Some (ShardId ''a'')"
  by (simp add: home_def shard_function_def demo_digest_def demo_shards_def route_def contains_def end_exclusive_def as_bytes_def)

lemma plan_all_total:
  assumes "catalog_ok shards" and "vschema_ok vs"
  shows "\<exists>ps. plan_all xxh64 to_value pa vs shards = Some ps \<and> length ps = length (pa_result pa)"
proof -
  have "\<exists>ps. plan_all xxh64 to_value pa vs shards = Some ps \<and> length ps = length (enumerate 0 (pa_result pa))"
    unfolding plan_all_def by (rule collect_opt_total) (use plan_stmt_total [OF assms] in \<open>auto simp: Let_def split: option.splits\<close>)
  then show ?thesis by simp
qed

lemma select_final:
  assumes "catalog_ok shards" and "vschema_ok vs" and "sel_op sel = SetopNone"
    and "t \<in> set (fc_tables (analyze_from (sel_from sel)))" and "vschema_get vs t = Some (Sharded key kt fname seqs)"
    and "matching_row sem vals key kt (sel_where sel) v" and "home xxh64 shards fname v = Some s"
  shows "\<exists>p q. plan_stmt xxh64 to_value KSelect (NSelect sel) vs shards = Some p
    \<and> final_plan xxh64 vals shards p = Some q \<and> (is_reject q \<or> s \<in> executes_on q)"
proof -
  obtain p where p: "plan_select xxh64 to_value sel vs shards = Some p" using plan_select_total [OF assms(1,2)] by blast
  have "\<exists>q. final_plan xxh64 vals shards p = Some q \<and> (is_reject q \<or> s \<in> executes_on q)"
  proof (cases "is_reject p")
    case True
    then show ?thesis by (cases p) (auto simp: final_plan_def)
  next
    case False
    obtain r where "route_values xxh64 (where_key_values (sel_where sel) key) kt fname shards = Some r"
        and p: "p = read_plan fname kt shards r"
      using plan_select_cases [OF p False assms(3,4)] assms(5) placement_sharded by blast
    from where_covers [OF this(1) assms(6,7)] show ?thesis unfolding p by (rule read_plan_covers [OF assms(1) _ assms(7)])
  qed
  then show ?thesis using p by (auto simp: plan_stmt_def)
qed

lemma keyed_write_final:
  assumes "catalog_ok shards" and "vschema_ok vs" and "keyed_write n = Some (rv, w)"
    and "vschema_get vs (range_var_table rv) = Some (Sharded key kt fname seqs)"
    and "matching_row sem vals key kt w v" and "home xxh64 shards fname v = Some s"
  shows "\<exists>p q. plan_stmt xxh64 to_value (classify (Some n)) n vs shards = Some p
    \<and> final_plan xxh64 vals shards p = Some q \<and> (is_reject q \<or> q = SingleShard s)"
proof -
  have place: "placement_of vs (range_var_table rv) = PSharded key kt fname" using assms(4) placement_sharded by blast
  obtain r where r: "route_values xxh64 (where_key_values w key) kt fname shards = Some r"
    using route_values_total [OF assms(1) sharded_function_ok [OF assms(2,4)]] by blast
  note covers = where_covers [OF r assms(5,6)]
  from keyed_write_plan [OF assms(3) place, of xxh64 to_value shards] show ?thesis
  proof (elim disjE exE)
    fix verb
    assume *: "plan_stmt xxh64 to_value (classify (Some n)) n vs shards
      = plan_keyed_write xxh64 (where_key_values w key) kt fname shards (range_var_table rv) key verb"
    obtain refusal where "plan_stmt xxh64 to_value (classify (Some n)) n vs shards
        = Some (write_plan refusal (range_var_table rv) fname kt r)"
      using plan_keyed_write_shape unfolding * by (metis r option.map(2))
    then show ?thesis using write_plan_covers [OF assms(1) covers] by blast
  qed simp
qed

lemma insert_final:
  assumes "catalog_ok shards" and "vschema_ok vs" and "ist_relation ins = Some rv"
    and "vschema_get vs (range_var_table rv) = Some (Sharded key kt fname seqs)"
    and "position (names_column key) (ist_cols ins) = Some idx"
    and "as_enum (ist_select ins) = Some (NSelect sel)" and "Some (NList items) \<in> set (sel_values sel)"
    and "nth_opt items idx = Some (Some cell)" and "\<forall>kv. key_val cell = Some kv \<longrightarrow> bound_value vals kv = Some x"
    and "canonical kt x = Some v" and "home xxh64 shards fname v = Some s"
  shows "\<exists>p q. plan_stmt xxh64 to_value KInsert (NInsert ins) vs shards = Some p
    \<and> final_plan xxh64 vals shards p = Some q \<and> (is_reject q \<or> q = SingleShard s)"
proof -
  have place: "placement_of vs (range_var_table rv) = PSharded key kt fname" using assms(4) placement_sharded by blast
  from insert_plan [OF assms(3) place, of xxh64 to_value shards] show ?thesis
  proof (elim disjE exE conjE)
    fix kvs refusal
    assume kvs: "insert_key_values ins key = Some kvs" and plan: "plan_insert xxh64 to_value ins vs shards
      = map_option (write_plan refusal (range_var_table rv) fname kt) (route_values xxh64 kvs kt fname shards)"
    obtain r where r: "route_values xxh64 kvs kt fname shards = Some r"
      using route_values_total [OF assms(1) sharded_function_ok [OF assms(2,4)]] by blast
    have "collect_opt (row_cell idx) (sel_values sel) = Some kvs"
      using kvs assms(5,6) by (auto simp: insert_key_values_def split: if_splits)
    then obtain kv where kv: "kv \<in> set kvs" "row_cell idx (Some (NList items)) = Some kv"
      using collect_opt_member assms(7) by metis
    then have "key_val cell = Some kv" using assms(8) by (simp add: row_cell_def)
    with kv(1) have "resolution_covers xxh64 vals shards fname kt r s"
      using route_values_covers [OF r _ _ assms(10,11)] assms(9) by blast
    from write_plan_covers [OF assms(1) this] show ?thesis using plan r by (auto simp: plan_stmt_def)
  qed (simp add: plan_stmt_def)
qed

definition routable_select :: "(node_enum \<Rightarrow> json option) \<Rightarrow> select_stmt \<Rightarrow> vschema \<Rightarrow> bool" where
  "routable_select to_value sel vs \<longleftrightarrow> unknown_relation (to_value (NSelect sel)) vs = None \<and> sel_op sel = SetopNone
     \<and> length (fc_tables (analyze_from (sel_from sel))) = 1 \<and> fc_all_plain (analyze_from (sel_from sel)) \<and> sel_with sel = None
     \<and> \<not> contains_sublink (to_value (NSelect sel))"

lemma read_plan_served: "\<not> is_reject (read_plan fname kt shards r)"
  by (cases r) (simp_all add: read_plan_def read_from_shards_def split: list.splits)

text \<open>A plain read of one known table is not refused.\<close>

lemma routable_select_served:
  assumes "routable_select to_value sel vs" and "plan_select xxh64 to_value sel vs shards = Some p"
  shows "\<not> is_reject p"
proof -
  obtain t where t: "fc_tables (analyze_from (sel_from sel)) = [t]" using assms(1)
    by (cases "fc_tables (analyze_from (sel_from sel))") (auto simp: routable_select_def)
  show ?thesis
  proof (cases "placement_of vs t")
    case (PSharded key kt fname)
    then have "sharded_tables vs [t] = [(key, kt, fname)]" by (rule sharded_tables_single)
    then have "\<exists>r. p = read_plan fname kt shards r" using assms t
      by (auto simp: plan_select_def routable_select_def Let_def read_plan_def split: resolution.splits if_splits)
    then show ?thesis using read_plan_served by blast
  qed (use assms t in \<open>auto simp: plan_select_def routable_select_def sharded_tables_def map_filter_simps Let_def split: if_splits\<close>)
qed

text \<open>The rows a write affects: those its condition matches, or those it inserts.\<close>

definition inserts_row :: "scalar_value list \<Rightarrow> insert_stmt \<Rightarrow> string \<Rightarrow> scalar_type option \<Rightarrow> scalar_value \<Rightarrow> bool" where
  "inserts_row vals ins key kt v \<longleftrightarrow>
     (\<exists>idx sel items cell x. position (names_column key) (ist_cols ins) = Some idx
        \<and> as_enum (ist_select ins) = Some (NSelect sel) \<and> Some (NList items) \<in> set (sel_values sel)
        \<and> nth_opt items idx = Some (Some cell) \<and> (\<forall>kv. key_val cell = Some kv \<longrightarrow> bound_value vals kv = Some x)
        \<and> canonical kt x = Some v)"

fun affects :: "row_sem \<Rightarrow> scalar_value list \<Rightarrow> node_enum \<Rightarrow> string \<Rightarrow> scalar_type option \<Rightarrow> scalar_value \<Rightarrow> bool" where
  "affects sem vals (NUpdate u) key kt v \<longleftrightarrow> matching_row sem vals key kt (ust_where u) v"
| "affects sem vals (NDelete d) key kt v \<longleftrightarrow> matching_row sem vals key kt (dst_where d) v"
| "affects sem vals (NInsert i) key kt v \<longleftrightarrow> inserts_row vals i key kt v"
| "affects _ _ _ _ _ _ \<longleftrightarrow> False"

lemma write_final:
  assumes "catalog_ok shards" and "vschema_ok vs" and "write_relation n = Some rv"
    and "vschema_get vs (range_var_table rv) = Some (Sharded key kt fname seqs)"
    and "affects sem vals n key kt v" and "home xxh64 shards fname v = Some s"
  shows "\<exists>p q. plan_stmt xxh64 to_value (classify (Some n)) n vs shards = Some p
    \<and> final_plan xxh64 vals shards p = Some q \<and> (is_reject q \<or> q = SingleShard s)"
proof -
  consider (keyed) w where "keyed_write n = Some (rv, w)" "matching_row sem vals key kt w v"
    | (ins) i where "n = NInsert i" "ist_relation i = Some rv" "inserts_row vals i key kt v"
    using assms(3,5) by (cases n) auto
  then show ?thesis
  proof cases
    case keyed
    from keyed_write_final [OF assms(1,2) keyed(1) assms(4) keyed(2) assms(6)] show ?thesis .
  next
    case ins
    from ins(3) obtain idx sel items cell x where "position (names_column key) (ist_cols i) = Some idx"
        "as_enum (ist_select i) = Some (NSelect sel)" "Some (NList items) \<in> set (sel_values sel)"
        "nth_opt items idx = Some (Some cell)" "\<forall>kv. key_val cell = Some kv \<longrightarrow> bound_value vals kv = Some x" "canonical kt x = Some v"
      unfolding inserts_row_def by blast
    from insert_final [OF assms(1,2) ins(2) assms(4) this assms(6)] show ?thesis using ins(1) by (simp add: classify_def)
  qed
qed

text \<open>A keyed write with one readable key and nothing that could reach other rows is served.\<close>

definition plain_write :: "(node_enum \<Rightarrow> json option) \<Rightarrow> node_enum \<Rightarrow> string \<Rightarrow> bool" where
  "plain_write to_value n key \<longleftrightarrow>
     (case n of
        NUpdate u \<Rightarrow> \<not> sets_column (ust_targets u) key \<and> ust_from u = [] \<and> ust_with u = None
      | NDelete d \<Rightarrow> dst_using d = [] \<and> dst_with d = None
      | _ \<Rightarrow> False) \<and> \<not> contains_sublink (to_value n)"

lemma plain_write_served:
  assumes "catalog_ok shards" and "vschema_ok vs" and "keyed_write n = Some (rv, w)" and "plain_write to_value n key"
    and "vschema_get vs (range_var_table rv) = Some (Sharded key kt fname seqs)"
    and "where_key_values w key = [KConst x]" and "canonical kt x \<noteq> None"
  shows "\<exists>s. plan_stmt xxh64 to_value (classify (Some n)) n vs shards = Some (SingleShard s)"
proof -
  have place: "placement_of vs (range_var_table rv) = PSharded key kt fname" using assms(5) placement_sharded by blast
  obtain f where f: "shard_function fname = Ok f" using sharded_function_ok [OF assms(2,5)] by (auto simp: is_ok_def split: sum.splits)
  obtain v where v: "canonical kt x = Some v" using assms(7) by blast
  obtain s where s: "route shards (keyspace_id xxh64 f v) = Some s" using cat.find_total [OF assms(1)] by blast
  have "route_values xxh64 [KConst x] kt fname shards = Some (Shards [s])"
    by (simp add: route_values_def param_indices_def map_filter_simps f key_keyspace_id_canonical v s btree_list_def)
  then have "plan_keyed_write xxh64 [KConst x] kt fname shards (range_var_table rv) key verb = Some (SingleShard s)" for verb
    by (simp add: plan_keyed_write_def write_to_shards_def)
  then show ?thesis using assms(3,4,6) place
    by (cases n) (auto simp: plan_stmt_write plan_update_def plan_delete_def plain_write_def)
qed

section \<open>Properties\<close>

text \<open>C10: Reads are never under-routed. A \<open>SELECT\<close> that names a sharded table in its FROM gets a plan, and
  once the parameters are bound the shard that holds any row matching its condition is among the shards
  the plan runs on, unless the statement is refused; it is never sent to the system database or answered
  locally. A plain read of one known table is not refused by the planner.\<close>

theorem select_reaches_row:
  assumes "catalog_ok shards" and "vschema_ok vs" and "sel_op sel = SetopNone"
    and "t \<in> set (fc_tables (analyze_from (sel_from sel)))" and "vschema_get vs t = Some (Sharded key kt fname seqs)"
    and "matching_row sem vals key kt (sel_where sel) v" and "home xxh64 shards fname v = Some s"
  shows "\<exists>p q. plan_stmt xxh64 to_value KSelect (NSelect sel) vs shards = Some p
    \<and> final_plan xxh64 vals shards p = Some q \<and> (is_reject q \<or> s \<in> executes_on q)
    \<and> (routable_select to_value sel vs \<longrightarrow> \<not> is_reject p)"
  using select_final [OF assms, of to_value] routable_select_served [of to_value sel vs xxh64 shards]
  by (auto simp: plan_stmt_def)

theorem select_reaches_row_witness:
  "\<exists>p q. plan_stmt demo_digest demo_tree KSelect
        (NSelect (bare_select [Some (NRangeVar (RangeVar [] ''orders''))] demo_where [])) demo_schema demo_shards = Some p
     \<and> final_plan demo_digest [Text ''eu''] demo_shards p = Some q \<and> (is_reject q \<or> ShardId ''a'' \<in> executes_on q)"
  using select_reaches_row [OF demo_shards_ok demo_schema_ok _ _ demo_orders _ demo_home, of "bare_select [Some (NRangeVar (RangeVar [] ''orders''))] demo_where []"
      demo_row "[Text ''eu'']" demo_tree] demo_match by (auto simp: analyze_from_def)



text \<open>C12: No write spans shards. Whatever an \<open>INSERT\<close>, \<open>UPDATE\<close> or \<open>DELETE\<close> is bound to, it is refused, or its
  table is sharded and it runs on exactly one shard, or its table is global and it runs on the system
  database.\<close>

theorem writes_single_shard:
  assumes "write_relation n = Some rv" and "plan_stmt xxh64 to_value (classify (Some n)) n vs shards = Some p"
    and "final_plan xxh64 vals shards p = Some q"
  shows "is_reject q \<or> is_sharded vs (range_var_table rv) \<and> (\<exists>s. q = SingleShard s)
    \<or> vschema_get vs (range_var_table rv) = Some Global \<and> q = Unsharded"
proof (cases "placement_of vs (range_var_table rv)")
  case (PSharded key kt fname)
  then have "is_sharded vs (range_var_table rv)" by (simp add: is_sharded_def)
  then show ?thesis using write_shape [OF assms(1) PSharded, of xxh64 to_value shards] assms(2,3) write_plan_single by fastforce
next
  case PGlobal
  then show ?thesis using write_other [OF assms(1), of vs xxh64 to_value shards] assms(2,3) by (auto simp: is_sharded_def)
next
  case PUnknown
  then show ?thesis using write_other [OF assms(1), of vs xxh64 to_value shards] assms(2,3) by (auto simp: is_sharded_def)
qed

theorem writes_single_shard_witness:
  "\<exists>p q. plan_stmt demo_digest demo_tree (classify (Some (NDelete (DeleteStmt (Some (RangeVar [] ''orders'')) demo_where [] None []))))
        (NDelete (DeleteStmt (Some (RangeVar [] ''orders'')) demo_where [] None [])) demo_schema demo_shards = Some p
     \<and> final_plan demo_digest [Text ''eu''] demo_shards p = Some q \<and> (is_reject q \<or> (\<exists>s. q = SingleShard s))"
proof -
  let ?n = "NDelete (DeleteStmt (Some (RangeVar [] ''orders'')) demo_where [] None [])"
  obtain p where p: "plan_stmt demo_digest demo_tree (classify (Some ?n)) ?n demo_schema demo_shards = Some p"
    using plan_stmt_total [OF demo_shards_ok demo_schema_ok] by blast
  obtain q where q: "final_plan demo_digest [Text ''eu''] demo_shards p = Some q"
    using final_plan_total [OF demo_shards_ok] by blast
  have "write_relation ?n = Some (RangeVar [] ''orders'')" by simp
  from writes_single_shard [OF this p q] p q demo_orders show ?thesis by auto
qed

text \<open>C21: The planner never panics. With a catalog and a schema accepted by their constructors, every statement
  of a parsed query gets one plan, and completing it with any bound values, few or many, gives a plan.\<close>

theorem planner_total:
  assumes "catalog_new rs = Ok shards" and "\<forall>p \<in> set rs. wf_range (fst p)" and "vschema_load vschema_default ts = Ok vs"
  shows "\<exists>ps. plan_all xxh64 to_value pa vs shards = Some ps \<and> length ps = length (pa_result pa)
    \<and> (\<forall>p \<in> set ps. \<exists>q. final_plan xxh64 vals shards p = Some q)"
proof -
  have ok: "catalog_ok shards" using catalog_new_ok assms(1,2) by blast
  have vs: "vschema_ok vs" by (rule vschema_load_ok [OF vschema_default_ok assms(3)])
  from plan_all_total [OF ok vs] show ?thesis using final_plan_total [OF ok] by blast
qed

theorem planner_total_witness:
  "\<exists>ps. plan_all demo_digest demo_tree \<lparr>pa_fingerprint = 0, pa_statements = [KDelete], pa_tables = [''orders''],
        pa_result = [Some (Some (NDelete (DeleteStmt (Some (RangeVar [] ''orders'')) demo_where [] None [])))]\<rparr> vschema_default demo_shards = Some ps
     \<and> length ps = 1"
  using planner_total [OF demo_shards_new, of "[]" vschema_default demo_digest demo_tree
      "\<lparr>pa_fingerprint = 0, pa_statements = [KDelete], pa_tables = [''orders''],
        pa_result = [Some (Some (NDelete (DeleteStmt (Some (RangeVar [] ''orders'')) demo_where [] None [])))]\<rparr>" "[]"]
  by auto

text \<open>C22: A bound value routes as the same literal. If the literals of a statement resolve to shards, then
  a parameterized plan whose parameters are bound to those values resolves to the plan the literals get: for a
  read the same plan, for a write the same single shard or a refusal.\<close>

theorem bound_matches_literal:
  assumes "route_values xxh64 (map KConst xs) kt fname shards = Some (Shards hit)"
    and "map (bound_param vals) indices = map Some xs"
  shows "resolve_bound xxh64 \<lparr>pz_shard_function = fname, pz_key_type = kt, pz_param_indices = indices, pz_write = False\<rparr> vals shards
      = Some (read_from_shards hit)
    \<and> (\<exists>q. resolve_bound xxh64 \<lparr>pz_shard_function = fname, pz_key_type = kt, pz_param_indices = indices, pz_write = True\<rparr> vals shards = Some q
        \<and> executes_on q = executes_on (write_to_shards hit table) \<and> is_reject q = is_reject (write_to_shards hit table))"
proof -
  obtain f hs where f: "shard_function fname = Ok f" "xs \<noteq> []" and hs: "collect_opt (value_shard xxh64 f kt shards) xs = Some hs"
      and hit: "hit = btree_list hs"
    by (rule route_literals [OF assms(1)])
  have "bound_shards xxh64 f kt vals shards indices [] = Some (Ok hit)"
    by (simp add: bound_shards_Ok collect_opt_bound [OF assms(2)] hs hit)
  moreover have "hit \<noteq> []" using length_collect_opt [OF hs] f(2) by (auto simp: hit)
  ultimately show ?thesis
    by (cases hit rule: remdups_adj.cases) (auto simp: resolve_bound_def f(1) read_from_shards_def write_to_shards_def reject_def)
qed

theorem bound_matches_literal_witness:
  "resolve_bound demo_digest \<lparr>pz_shard_function = ''xxhash64_v1'', pz_key_type = Some TyText, pz_param_indices = [2], pz_write = False\<rparr>
     [Text ''x'', Text ''eu''] demo_shards = Some (SingleShard (ShardId ''a''))"
proof -
  have "route_values demo_digest (map KConst [Text ''eu'']) (Some TyText) ''xxhash64_v1'' demo_shards = Some (Shards [ShardId ''a''])"
    by (simp add: route_values_def param_indices_def has_const_def map_filter_simps shard_function_def key_keyspace_id_def
        demo_digest_def demo_shards_def route_def contains_def end_exclusive_def as_bytes_def btree_list_def)
  moreover have "map (bound_param [Text ''x'', Text ''eu'']) [2] = map Some [Text ''eu'']"
    by (simp add: bound_param_def nth_opt_def)
  ultimately show ?thesis
    using bound_matches_literal [of demo_digest "[Text ''eu'']" "Some TyText" "''xxhash64_v1''" demo_shards "[ShardId ''a'']"
        "[Text ''x'', Text ''eu'']" "[2]"] by (simp add: read_from_shards_def)
qed

end
