(* ===== verification/Router.thy ===== *)
theory Router
  imports Planner_Sound Topology
begin

text \<open>
  The routing snapshot (\<open>pgshard-router/src/lib.rs\<close>): building a router from a topology, resolving plans to
  connection targets, and the watch loop that swaps routers and renews the write lease. A \<open>BTreeMap\<close> is its
  list of entries in key order; a \<open>Duration\<close> is a number of nanoseconds. The digest, the JSON form and the
  parser are parameters as for the planner.
\<close>

section \<open>Definitions\<close>

type_synonym endpoint = topo_instance

datatype build_error =
    MissingShardKey table_name
  | MissingShardKeyType table_name
  | DuplicateShard string
  | UnsupportedGates nat
  | BuildVSchema vschema_error
  | BuildPartition partition_error

record target =
  tg_endpoint :: endpoint
  tg_database :: string

datatype unavailable = NoPrimary shard_id | NotInTopology shard_id | NoSystemEndpoint

datatype route_to =
    RShard target
  | RScatter "target list"
  | RBroadcast "target list"
  | RSystem endpoint
  | RLocal
  | RNeedsBind parameterized
  | RUnavailable unavailable
  | RReject string reason

record router =
  ro_epoch :: u64
  ro_vschema :: vschema
  ro_catalog :: shard_catalog
  ro_primaries :: "(shard_id \<times> endpoint option) list"
  ro_system :: "endpoint option"
  ro_write_lease :: nat

fun map_shard_key_type :: "shard_key_type \<Rightarrow> scalar_type" where
  "map_shard_key_type KeyInt = TyInt"
| "map_shard_key_type KeyText = TyText"
| "map_shard_key_type KeyUuid = TyUuid"
| "map_shard_key_type KeyBytea = TyBytea"

definition build_table :: "topology \<Rightarrow> table_entry \<Rightarrow> build_error + table_name \<times> table_def" where
  "build_table topo t =
     (let name = table_name_new (te_schema t) (te_name t) in
      case te_table_type t of
        TableGlobal \<Rightarrow> Ok (name, Global)
      | TableSharded \<Rightarrow>
          bind_res (ok_or (MissingShardKey name) (te_shard_key_column t)) (\<lambda>col.
          bind_res (ok_or (MissingShardKeyType name) (map_option map_shard_key_type (te_shard_key_type t))) (\<lambda>ty.
            Ok (name, Sharded col (Some ty) (t_hash_function topo)
              (map (\<lambda>s. \<lparr>sb_column = sq_column s, sb_sequence = sq_sequence s\<rparr>) (te_sequences t))))))"

fun build_tables :: "topology \<Rightarrow> table_entry list \<Rightarrow> vschema \<Rightarrow> build_error + vschema" where
  "build_tables topo [] vs = Ok vs"
| "build_tables topo (t # ts) vs =
     bind_res (build_table topo t) (\<lambda>(name, def).
     bind_res (map_err BuildVSchema (vschema_insert vs name def)) (\<lambda>vs'. build_tables topo ts vs'))"

definition build_vschema :: "topology \<Rightarrow> build_error + vschema" where
  "build_vschema topo = build_tables topo (t_tables topo) vschema_default"

fun collect_serving ::
    "shard_entry list \<Rightarrow> (key_range \<times> shard_id) list \<Rightarrow> (shard_id \<times> endpoint option) list
     \<Rightarrow> build_error + (key_range \<times> shard_id) list \<times> (shard_id \<times> endpoint option) list" where
  "collect_serving [] serving primaries = Ok (serving, primaries)"
| "collect_serving (shard # shards) serving primaries =
     (if se_state shard \<noteq> Serving then collect_serving shards serving primaries
      else let i = ShardId (se_name shard) in
        if map_of primaries i \<noteq> None then Err (DuplicateShard (se_name shard))
        else collect_serving shards (serving @ [(se_key_range shard, i)]) (insort_key fst (i, se_primary shard) primaries))"

definition router_build :: "topology \<Rightarrow> build_error + router" where
  "router_build topo =
     (if t_gates topo \<noteq> [] then Err (UnsupportedGates (length (t_gates topo)))
      else bind_res (build_vschema topo) (\<lambda>vs.
           bind_res (collect_serving (t_shards topo) [] []) (\<lambda>(serving, primaries).
           bind_res (map_err BuildPartition (catalog_new (sort_key (\<lambda>(kr, _). kr_start kr) serving))) (\<lambda>catalog.
             Ok \<lparr>ro_epoch = t_epoch topo, ro_vschema = vs, ro_catalog = catalog, ro_primaries = primaries,
                 ro_system = t_sequence_endpoint topo, ro_write_lease = unat (t_write_lease_seconds topo) * 10 ^ 9\<rparr>))))"

fun shard_name :: "shard_id \<Rightarrow> string" where
  "shard_name (ShardId name) = name"

definition any_shard_target :: "router \<Rightarrow> target option" where
  "any_shard_target r =
     (case List.map_filter (\<lambda>(i, primary). map_option (\<lambda>ep. \<lparr>tg_endpoint = ep, tg_database = shard_name i\<rparr>) primary) (ro_primaries r) of
        [] \<Rightarrow> None
      | t # _ \<Rightarrow> Some t)"

definition router_target :: "router \<Rightarrow> shard_id \<Rightarrow> route_to + target" where
  "router_target r i =
     (case map_of (ro_primaries r) i of
        Some (Some ep) \<Rightarrow> Ok \<lparr>tg_endpoint = ep, tg_database = shard_name i\<rparr>
      | Some None \<Rightarrow> Err (RUnavailable (NoPrimary i))
      | None \<Rightarrow> Err (RUnavailable (NotInTopology i)))"

definition resolve_many :: "router \<Rightarrow> shard_id list \<Rightarrow> (target list \<Rightarrow> route_to) \<Rightarrow> route_to" where
  "resolve_many r ids wrap = (case collect_res (router_target r) ids of Ok targets \<Rightarrow> wrap targets | Err unavail \<Rightarrow> unavail)"

definition router_resolve :: "router \<Rightarrow> plan \<Rightarrow> route_to" where
  "router_resolve r p =
     (case p of
        SingleShard i \<Rightarrow> (case router_target r i of Ok t \<Rightarrow> RShard t | Err unavail \<Rightarrow> unavail)
      | Scatter ids \<Rightarrow> resolve_many r ids RScatter
      | Broadcast ids \<Rightarrow> resolve_many r ids RBroadcast
      | Unsharded \<Rightarrow> (case ro_system r of Some ep \<Rightarrow> RSystem ep | None \<Rightarrow> RUnavailable NoSystemEndpoint)
      | RouterLocal \<Rightarrow> RLocal
      | Parameterized q \<Rightarrow> RNeedsBind q
      | Reject code why \<Rightarrow> RReject code why)"

definition route_parsed ::
    "(bytes \<Rightarrow> u64 \<Rightarrow> u64) \<Rightarrow> (node_enum \<Rightarrow> json option) \<Rightarrow> router \<Rightarrow> parsed \<Rightarrow> route_to list option" where
  "route_parsed xxh64 to_value r pa =
     map_option (map (router_resolve r)) (plan_all xxh64 to_value pa (ro_vschema r) (ro_catalog r))"

definition router_route ::
    "(string \<Rightarrow> string + node option list \<times> string list) \<Rightarrow> (string \<Rightarrow> string + u64) \<Rightarrow> (bytes \<Rightarrow> u64 \<Rightarrow> u64)
     \<Rightarrow> (node_enum \<Rightarrow> json option) \<Rightarrow> router \<Rightarrow> string \<Rightarrow> sql_error + route_to list option" where
  "router_route pg_parse pg_fingerprint xxh64 to_value r sql =
     bind_res (sql_parse pg_parse pg_fingerprint sql) (\<lambda>pa. Ok (route_parsed xxh64 to_value r pa))"

subsection \<open>The watch loop\<close>

text \<open>
  The two channels hold their latest value and whether the loop has seen it. \<open>publish\<close> and \<open>announce\<close> are
  the watcher's; \<open>on_update\<close> and \<open>on_validated\<close> are the two branches of the loop's \<open>select!\<close>, each enabled by an
  unseen value.
\<close>

record watch_state =
  ws_router :: router
  ws_freshness :: freshness
  ws_update :: topology
  ws_update_unseen :: bool
  ws_validated :: source_validation
  ws_validated_unseen :: bool

definition confirm :: "source_validation \<Rightarrow> router \<Rightarrow> freshness \<Rightarrow> freshness" where
  "confirm st r f = (if sv_epoch st = ro_epoch r then install st f else f)"

definition on_validated :: "watch_state \<Rightarrow> watch_state" where
  "on_validated s =
     s\<lparr>ws_validated_unseen := False, ws_freshness := confirm (ws_validated s) (ws_router s) (ws_freshness s)\<rparr>"

definition on_update :: "watch_state \<Rightarrow> watch_state" where
  "on_update s =
     (case router_build (ws_update s) of
        Ok r \<Rightarrow> s\<lparr>ws_update_unseen := False, ws_router := r, ws_freshness := confirm (ws_validated s) r (ws_freshness s)\<rparr>
      | Err _ \<Rightarrow> s\<lparr>ws_update_unseen := False\<rparr>)"

definition publish :: "topology \<Rightarrow> watch_state \<Rightarrow> watch_state" where
  "publish t s = s\<lparr>ws_update := t, ws_update_unseen := True\<rparr>"

definition announce :: "source_validation \<Rightarrow> watch_state \<Rightarrow> watch_state" where
  "announce st s = s\<lparr>ws_validated := st, ws_validated_unseen := True\<rparr>"

definition watch_start :: "topology \<Rightarrow> source_validation \<Rightarrow> build_error + watch_state" where
  "watch_start topo st =
     bind_res (router_build topo) (\<lambda>r.
       Ok \<lparr>ws_router = r, ws_freshness = (if sv_epoch st = ro_epoch r then seeded st else unconfirmed),
           ws_update = topo, ws_update_unseen = False, ws_validated = st, ws_validated_unseen = False\<rparr>)"

datatype watch_event = Published topology | Announced source_validation | SawUpdate | SawValidated

inductive watch_run :: "topology \<Rightarrow> source_validation \<Rightarrow> watch_event list \<Rightarrow> watch_state \<Rightarrow> bool" where
  start: "watch_start topo st = Ok s \<Longrightarrow> watch_run topo st [] s"
| published: "watch_run topo st es s \<Longrightarrow> watch_run topo st (es @ [Published t]) (publish t s)"
| announced: "watch_run topo st es s \<Longrightarrow> watch_run topo st (es @ [Announced v]) (announce v s)"
| saw_update: "watch_run topo st es s \<Longrightarrow> ws_update_unseen s \<Longrightarrow> watch_run topo st (es @ [SawUpdate]) (on_update s)"
| saw_validated: "watch_run topo st es s \<Longrightarrow> ws_validated_unseen s \<Longrightarrow> watch_run topo st (es @ [SawValidated]) (on_validated s)"

section \<open>What a built router knows\<close>

lemma map_of_insort: "map_of m k = None \<Longrightarrow> map_of (insort_key fst (k, v) m) = (map_of m)(k \<mapsto> v)"
proof (induction m)
  case (Cons e m)
  then show ?case by (cases e) (auto simp: fun_upd_twist split: if_splits)
qed simp

definition serving_shards :: "topology \<Rightarrow> shard_entry list" where
  "serving_shards t = filter (\<lambda>s. se_state s = Serving) (t_shards t)"

definition serving_id :: "shard_entry \<Rightarrow> shard_id" where
  "serving_id s = ShardId (se_name s)"

lemma collect_serving_Ok:
  "collect_serving shards serving primaries = Ok (serving', primaries') \<Longrightarrow>
     serving' = serving @ map (\<lambda>s. (se_key_range s, serving_id s)) (filter (\<lambda>s. se_state s = Serving) shards)
     \<and> distinct (map serving_id (filter (\<lambda>s. se_state s = Serving) shards))
     \<and> (\<forall>s \<in> set shards. se_state s = Serving \<longrightarrow> map_of primaries (serving_id s) = None)
     \<and> map_of primaries' = map_of primaries ++ map_of (map (\<lambda>s. (serving_id s, se_primary s)) (filter (\<lambda>s. se_state s = Serving) shards))"
proof (induction shards serving primaries arbitrary: serving' primaries' rule: collect_serving.induct)
  case (2 shard shards serving primaries)
  show ?case
  proof (cases "se_state shard = Serving")
    case True
    let ?i = "ShardId (se_name shard)"
    have fresh: "map_of primaries ?i = None"
      and rec: "collect_serving shards (serving @ [(se_key_range shard, ?i)]) (insort_key fst (?i, se_primary shard) primaries) = Ok (serving', primaries')"
      using 2(3) True by (auto simp: Let_def split: if_splits)
    let ?ss = "filter (\<lambda>s. se_state s = Serving) shards"
    have IH: "serving' = (serving @ [(se_key_range shard, ?i)]) @ map (\<lambda>s. (se_key_range s, serving_id s)) ?ss"
        "distinct (map serving_id ?ss)"
        "\<forall>s \<in> set shards. se_state s = Serving \<longrightarrow> ((map_of primaries)(?i \<mapsto> se_primary shard)) (serving_id s) = None"
        "map_of primaries' = (map_of primaries)(?i \<mapsto> se_primary shard) ++ map_of (map (\<lambda>s. (serving_id s, se_primary s)) ?ss)"
      using 2(2) [OF _ refl _ rec] True fresh unfolding map_of_insort [OF fresh] by blast+
    have notin: "serving_id s \<noteq> ?i" "map_of primaries (serving_id s) = None" if "s \<in> set shards" "se_state s = Serving" for s
      using IH(3) that by (auto split: if_splits)
    have "?i \<notin> dom (map_of (map (\<lambda>s. (serving_id s, se_primary s)) ?ss))"
    proof
      assume "?i \<in> dom (map_of (map (\<lambda>s. (serving_id s, se_primary s)) ?ss))"
      then obtain s where "s \<in> set shards" "se_state s = Serving" "?i = serving_id s" by (auto simp: dom_map_of_conv_image_fst)
      then show False using notin(1) by metis
    qed
    note absent = this
    have i: "?i = serving_id shard" by (simp add: serving_id_def)
    show ?thesis
    proof (intro conjI)
      show "serving' = serving @ map (\<lambda>s. (se_key_range s, serving_id s)) (filter (\<lambda>s. se_state s = Serving) (shard # shards))"
        using IH(1) True by (simp add: i)
      show "distinct (map serving_id (filter (\<lambda>s. se_state s = Serving) (shard # shards)))"
        using IH(2) notin(1) [symmetric] True unfolding i by auto
      show "\<forall>s \<in> set (shard # shards). se_state s = Serving \<longrightarrow> map_of primaries (serving_id s) = None"
        using notin(2) fresh unfolding i by auto
      show "map_of primaries' = map_of primaries ++ map_of (map (\<lambda>s. (serving_id s, se_primary s)) (filter (\<lambda>s. se_state s = Serving) (shard # shards)))"
        using True unfolding IH(4) i by (simp add: map_add_upd_left [OF absent [unfolded i]] map_add_upd del: fun_upd_apply)
    qed
  next
    case False
    then show ?thesis using 2 by auto
  qed
qed simp

lemma build_tables_ok: "build_tables topo ts vs = Ok vs' \<Longrightarrow> vschema_ok vs \<Longrightarrow> vschema_ok vs'"
proof (induction ts arbitrary: vs)
  case (Cons t ts)
  then show ?case by (auto simp: bind_res_eq_Inr dest: vschema_insert_ok)
qed simp

lemma router_build_Ok:
  assumes "router_build t = Ok r" and "ranges_wf t"
  shows "catalog_ok (ro_catalog r)" and "vschema_ok (ro_vschema r)" and "ro_epoch r = t_epoch t"
    and "sc_shards (ro_catalog r) = sort_key (\<lambda>(kr, _). kr_start kr) (map (\<lambda>s. (se_key_range s, serving_id s)) (serving_shards t))"
    and "map_of (ro_primaries r) = map_of (map (\<lambda>s. (serving_id s, se_primary s)) (serving_shards t))"
    and "distinct (map serving_id (serving_shards t))" and "t_gates t = []"
    and "ro_write_lease r = unat (t_write_lease_seconds t) * 10 ^ 9"
proof -
  obtain vs serving primaries catalog where parts: "t_gates t = []" "build_vschema t = Ok vs"
      "collect_serving (t_shards t) [] [] = Ok (serving, primaries)"
      "catalog_new (sort_key (\<lambda>(kr, _). kr_start kr) serving) = Ok catalog"
      and r: "r = \<lparr>ro_epoch = t_epoch t, ro_vschema = vs, ro_catalog = catalog, ro_primaries = primaries,
                 ro_system = t_sequence_endpoint t, ro_write_lease = unat (t_write_lease_seconds t) * 10 ^ 9\<rparr>"
    using assms(1) by (auto simp: router_build_def bind_res_eq_Inr split: if_splits)
  note serving = collect_serving_Ok [OF parts(3)]
  have wf: "\<forall>p \<in> set (sort_key (\<lambda>(kr, _). kr_start kr) serving). wf_range (fst p)"
    using serving assms(2) by (auto simp: ranges_wf_def)
  note cat = catalog_new_ok [OF wf parts(4)]
  show "catalog_ok (ro_catalog r)" using cat(1) by (simp add: r)
  show "vschema_ok (ro_vschema r)" using parts(2) build_tables_ok vschema_default_ok by (auto simp: build_vschema_def r)
  show "sc_shards (ro_catalog r) = sort_key (\<lambda>(kr, _). kr_start kr) (map (\<lambda>s. (se_key_range s, serving_id s)) (serving_shards t))"
    using cat(2) serving by (simp add: r serving_shards_def)
  show "map_of (ro_primaries r) = map_of (map (\<lambda>s. (serving_id s, se_primary s)) (serving_shards t))"
    and "distinct (map serving_id (serving_shards t))"
    using serving by (simp_all add: r serving_shards_def)
qed (use assms(1) in \<open>auto simp: router_build_def bind_res_eq_Inr split: if_splits\<close>)

lemma router_target_serving:
  assumes "router_build t = Ok r" and "ranges_wf t" and "s \<in> set (serving_shards t)"
  shows "router_target r (serving_id s) = (case se_primary s of
      Some ep \<Rightarrow> Ok \<lparr>tg_endpoint = ep, tg_database = se_name s\<rparr> | None \<Rightarrow> Err (RUnavailable (NoPrimary (serving_id s))))"
proof -
  have "map_of (ro_primaries r) (serving_id s) = Some (se_primary s)"
    unfolding router_build_Ok(5) [OF assms(1,2)]
    by (rule map_of_is_SomeI) (use router_build_Ok(6) [OF assms(1,2)] assms(3) in \<open>auto simp: comp_def\<close>)
  then show ?thesis by (auto simp: router_target_def serving_id_def split: option.splits)
qed

lemma router_owner:
  assumes "router_build t = Ok r" and "ranges_wf t"
  shows "\<exists>s. serving_owners t key = [s] \<and> route (ro_catalog r) key = Some (serving_id s)"
proof -
  note ok = router_build_Ok [OF assms]
  let ?cs = "sc_shards (ro_catalog r)"
  obtain k where k: "owner (ro_catalog r) key k" "route (ro_catalog r) key = Some (snd (?cs ! k))"
    using route_owner [OF ok(1)] by blast
  have "length (filter (\<lambda>p. contains (fst p) key) ?cs) = 1"
    using owner_unique [OF ok(1), of key] ex1_nth_filter [of ?cs "\<lambda>p. contains (fst p) key"] by (simp add: owner_def)
  then have one: "length (serving_owners t key) = 1"
    unfolding ok(4) by (simp add: length_filter_sort_key filter_map comp_def serving_owners_def serving_shards_def conj_commute)
  then obtain s where s: "serving_owners t key = [s]" by (auto simp: length_Suc_conv)
  have "?cs ! k \<in> set ?cs" "contains (fst (?cs ! k)) key" using k(1) by (simp_all add: owner_def)
  then obtain u where u: "u \<in> set (serving_shards t)" "?cs ! k = (se_key_range u, serving_id u)" "contains (se_key_range u) key"
    unfolding ok(4) by auto
  then have "u \<in> set (serving_owners t key)" by (auto simp: serving_owners_def serving_shards_def)
  then show ?thesis using k(2) u(2) s by auto
qed

lemma serving_owner_member: "serving_owners t key = [s] \<Longrightarrow> s \<in> set (serving_shards t)"
proof -
  assume "serving_owners t key = [s]"
  then have "s \<in> set (serving_owners t key)" by simp
  then show ?thesis by (simp add: serving_owners_def serving_shards_def)
qed

section \<open>Lease renewal\<close>

definition announcements :: "source_validation \<Rightarrow> watch_event list \<Rightarrow> source_validation set" where
  "announcements st es = insert st {v. Announced v \<in> set es}"

definition topologies :: "topology \<Rightarrow> watch_event list \<Rightarrow> topology set" where
  "topologies topo es = insert topo {t. Published t \<in> set es}"

definition lease_inv :: "topology \<Rightarrow> source_validation \<Rightarrow> watch_event list \<Rightarrow> watch_state \<Rightarrow> bool" where
  "lease_inv topo st es s \<longleftrightarrow>
     (\<exists>t \<in> topologies topo es. router_build t = Ok (ws_router s))
     \<and> ws_update s \<in> topologies topo es \<and> ws_validated s \<in> announcements st es
     \<and> (ws_freshness s = unconfirmed \<or>
        (\<exists>v \<in> announcements st es. \<exists>t \<in> topologies topo es. ws_freshness s = seeded v \<and> sv_epoch v = t_epoch t \<and> is_ok (router_build t)))
     \<and> (\<not> ws_validated_unseen s \<longrightarrow> sv_epoch (ws_validated s) = ro_epoch (ws_router s) \<longrightarrow> sv_boot (ws_validated s) \<le> fr_boot (ws_freshness s))"

lemma build_epoch: "router_build t = Ok r \<Longrightarrow> ro_epoch r = t_epoch t"
  by (auto simp: router_build_def bind_res_eq_Inr split: if_splits)

lemma topologies_mono: "topologies topo es \<subseteq> topologies topo (es @ [e])"
  by (auto simp: topologies_def)

lemma announcements_mono: "announcements st es \<subseteq> announcements st (es @ [e])"
  by (auto simp: announcements_def)

lemma install_cases: "install v f = f \<or> install v f = seeded v"
  by (auto simp: install_def seeded_def)

lemma install_boot: "sv_boot v \<le> fr_boot (install v f)" "fr_boot f \<le> fr_boot (install v f)"
  by (auto simp: install_def)

lemma lease_inv_confirm:
  assumes "lease_inv topo st es s" and "t \<in> topologies topo es" and "router_build t = Ok r" and "sv_epoch (ws_validated s) = ro_epoch r"
  shows "ws_freshness s = unconfirmed \<or> (\<exists>v \<in> announcements st es. \<exists>t \<in> topologies topo es. ws_freshness s = seeded v \<and> sv_epoch v = t_epoch t \<and> is_ok (router_build t))"
    and "install (ws_validated s) (ws_freshness s) = unconfirmed \<or> (\<exists>v \<in> announcements st es. \<exists>t \<in> topologies topo es.
      install (ws_validated s) (ws_freshness s) = seeded v \<and> sv_epoch v = t_epoch t \<and> is_ok (router_build t))"
proof -
  show *: "ws_freshness s = unconfirmed \<or> (\<exists>v \<in> announcements st es. \<exists>t \<in> topologies topo es. ws_freshness s = seeded v \<and> sv_epoch v = t_epoch t \<and> is_ok (router_build t))"
    using assms(1) by (simp add: lease_inv_def)
  have "ws_validated s \<in> announcements st es" using assms(1) by (simp add: lease_inv_def)
  moreover have "sv_epoch (ws_validated s) = t_epoch t" "is_ok (router_build t)"
    using assms(3,4) build_epoch by (auto simp: is_ok_def)
  ultimately show "install (ws_validated s) (ws_freshness s) = unconfirmed \<or> (\<exists>v \<in> announcements st es. \<exists>t \<in> topologies topo es.
      install (ws_validated s) (ws_freshness s) = seeded v \<and> sv_epoch v = t_epoch t \<and> is_ok (router_build t))"
    using install_cases [of "ws_validated s" "ws_freshness s"] * assms(2) by metis
qed

lemma lease_inv_grow: "lease_inv topo st es s \<Longrightarrow> lease_inv topo st (es @ [e]) s"
  unfolding lease_inv_def using topologies_mono [of topo es e] announcements_mono [of st es e] by blast

lemma lease_inv_on_validated:
  assumes "lease_inv topo st es s"
  shows "lease_inv topo st es (on_validated s)"
proof (cases "sv_epoch (ws_validated s) = ro_epoch (ws_router s)")
  case True
  obtain t where t: "t \<in> topologies topo es" "router_build t = Ok (ws_router s)" using assms by (auto simp: lease_inv_def)
  from lease_inv_confirm(2) [OF assms t True] show ?thesis using assms True t install_boot
    by (auto simp: lease_inv_def on_validated_def confirm_def)
next
  case False
  then show ?thesis using assms by (auto simp: lease_inv_def on_validated_def confirm_def)
qed

lemma lease_inv_on_update:
  assumes "lease_inv topo st es s"
  shows "lease_inv topo st es (on_update s)"
proof (cases "router_build (ws_update s)")
  case (Inl e)
  then show ?thesis using assms by (auto simp: lease_inv_def on_update_def)
next
  case (Inr r)
  have t: "ws_update s \<in> topologies topo es" using assms by (simp add: lease_inv_def)
  show ?thesis
  proof (cases "sv_epoch (ws_validated s) = ro_epoch r")
    case True
    from lease_inv_confirm(2) [OF assms t Inr True] show ?thesis using assms True t Inr install_boot
      by (auto simp: lease_inv_def on_update_def confirm_def)
  next
    case False
    then show ?thesis using assms t Inr by (auto simp: lease_inv_def on_update_def confirm_def)
  qed
qed

lemma lease_inv_run: "watch_run topo st es s \<Longrightarrow> lease_inv topo st es s"
proof (induction rule: watch_run.induct)
  case (start topo st s)
  then obtain r where "router_build topo = Ok r" and s: "s = \<lparr>ws_router = r, ws_freshness = (if sv_epoch st = ro_epoch r then seeded st else unconfirmed),
           ws_update = topo, ws_update_unseen = False, ws_validated = st, ws_validated_unseen = False\<rparr>"
    by (auto simp: watch_start_def bind_res_eq_Inr)
  then show ?case using build_epoch
    by (auto simp: lease_inv_def topologies_def announcements_def is_ok_def seeded_def)
next
  case (published topo st es s t)
  from lease_inv_grow [OF published(2), of "Published t"] show ?case
    by (simp add: lease_inv_def publish_def topologies_def)
next
  case (announced topo st es s v)
  from lease_inv_grow [OF announced(2), of "Announced v"] show ?case
    by (simp add: lease_inv_def announce_def announcements_def)
next
  case (saw_update topo st es s)
  from lease_inv_on_update [OF lease_inv_grow [OF saw_update(3)]] show ?case .
next
  case (saw_validated topo st es s)
  from lease_inv_on_validated [OF lease_inv_grow [OF saw_validated(3)]] show ?case .
qed

definition demo_topology :: "u64 \<Rightarrow> topology" where
  "demo_topology epoch = topology_default\<lparr>t_epoch := epoch, t_shards :=
     [\<lparr>se_name = ''b'', se_key_range = \<lparr>kr_start = 5, kr_end = None\<rparr>, se_state = Serving, se_primary = None, se_replicas = []\<rparr>,
      \<lparr>se_name = ''a'', se_key_range = \<lparr>kr_start = 0, kr_end = Some 5\<rparr>, se_state = Serving,
       se_primary = Some \<lparr>in_pod = ''p'', in_host = ''h'', in_port = 5432, in_can_read = True\<rparr>, se_replicas = []\<rparr>]\<rparr>"

definition demo_router :: "u64 \<Rightarrow> router" where
  "demo_router epoch = \<lparr>ro_epoch = epoch, ro_vschema = vschema_default,
     ro_catalog = \<lparr>sc_shards = [(\<lparr>kr_start = 0, kr_end = Some 5\<rparr>, ShardId ''a''), (\<lparr>kr_start = 5, kr_end = None\<rparr>, ShardId ''b'')]\<rparr>,
     ro_primaries = [(ShardId ''a'', Some \<lparr>in_pod = ''p'', in_host = ''h'', in_port = 5432, in_can_read = True\<rparr>), (ShardId ''b'', None)],
     ro_system = None, ro_write_lease = 10 * 10 ^ 9\<rparr>"

lemma demo_topology_builds: "router_build (demo_topology epoch) = Ok (demo_router epoch)"
  by (simp add: demo_topology_def demo_router_def topology_default_def router_build_def build_vschema_def default_write_lease_seconds_def
      catalog_new_def validate_partition_def Let_def)

lemma demo_topology_wf: "ranges_wf (demo_topology epoch)"
  by (simp add: ranges_wf_def demo_topology_def wf_range_def)

section \<open>Properties\<close>

text \<open>C15: A built router sends every id to the shard that owns it. A topology accepted by \<open>build\<close> has exactly
  one serving shard whose range contains any given id, the router's catalog routes the id to that shard, and
  the shard resolves to its own primary and its own database, or to unavailable when it has no primary.\<close>

theorem build_routes_to_owner:
  assumes "router_build t = Ok r" and "ranges_wf t"
  shows "\<exists>s. serving_owners t key = [s] \<and> route (ro_catalog r) key = Some (ShardId (se_name s))
    \<and> router_resolve r (SingleShard (ShardId (se_name s)))
        = (case se_primary s of
             Some ep \<Rightarrow> RShard \<lparr>tg_endpoint = ep, tg_database = se_name s\<rparr>
           | None \<Rightarrow> RUnavailable (NoPrimary (ShardId (se_name s))))"
proof -
  obtain s where s: "serving_owners t key = [s]" "route (ro_catalog r) key = Some (serving_id s)"
    using router_owner [OF assms] by blast
  from router_target_serving [OF assms serving_owner_member [OF s(1)]] show ?thesis
    using s by (auto simp: router_resolve_def serving_id_def split: option.splits)
qed

theorem build_routes_to_owner_witness:
  "\<exists>r s. router_build (demo_topology 1) = Ok r \<and> serving_owners (demo_topology 1) 7 = [s]
     \<and> route (ro_catalog r) 7 = Some (ShardId (se_name s))"
  using build_routes_to_owner [OF demo_topology_builds demo_topology_wf, of 1 7] demo_topology_builds [of 1] by blast

text \<open>C7: The write lease is renewed only by a source the router follows, and never missed. Along every run of
  the watch loop, in any order of publications, announcements and deliveries, the freshness is unconfirmed
  or the stamp of an announced validation of an epoch whose topology built; and once the loop has seen the
  latest announcement, if it confirms the active epoch, the freshness is at least as recent as it, whichever
  of the swap and the announcement was delivered first.\<close>

theorem lease_renewal_sound:
  assumes "watch_run topo st es s"
  shows "(ws_freshness s = unconfirmed \<or>
      (\<exists>v t. (v = st \<or> Announced v \<in> set es) \<and> (t = topo \<or> Published t \<in> set es)
         \<and> ws_freshness s = seeded v \<and> sv_epoch v = t_epoch t \<and> is_ok (router_build t)))
    \<and> (\<not> ws_validated_unseen s \<longrightarrow> sv_epoch (ws_validated s) = ro_epoch (ws_router s) \<longrightarrow>
         sv_boot (ws_validated s) \<le> fr_boot (ws_freshness s))"
  using lease_inv_run [OF assms] by (auto simp: lease_inv_def announcements_def topologies_def)

theorem lease_renewal_sound_witness:
  "\<exists>es s. watch_run (demo_topology 1) \<lparr>sv_epoch = 1, sv_boot = 3, sv_wall = 3\<rparr> es s \<and> ro_epoch (ws_router s) = 2
     \<and> 8 \<le> fr_boot (ws_freshness s)"
proof -
  let ?v = "\<lparr>sv_epoch = 1, sv_boot = 3, sv_wall = 3\<rparr>"
  let ?w = "\<lparr>sv_epoch = 2, sv_boot = 8, sv_wall = 8\<rparr>"
  obtain s0 where s0: "watch_start (demo_topology 1) ?v = Ok s0" by (simp add: watch_start_def demo_topology_builds)
  let ?s1 = "announce ?w (publish (demo_topology 2) s0)"
  have "watch_run (demo_topology 1) ?v (([] @ [Published (demo_topology 2)]) @ [Announced ?w]) ?s1"
    by (intro watch_run.intros s0)
  then have "watch_run (demo_topology 1) ?v ((([] @ [Published (demo_topology 2)]) @ [Announced ?w]) @ [SawValidated]) (on_validated ?s1)"
    by (rule watch_run.saw_validated) (simp add: announce_def)
  then have run: "watch_run (demo_topology 1) ?v (((([] @ [Published (demo_topology 2)]) @ [Announced ?w]) @ [SawValidated]) @ [SawUpdate]) (on_update (on_validated ?s1))"
    by (rule watch_run.saw_update) (simp add: announce_def publish_def on_validated_def)
  have "ro_epoch (ws_router (on_update (on_validated ?s1))) = 2" "\<not> ws_validated_unseen (on_update (on_validated ?s1))"
      "ws_validated (on_update (on_validated ?s1)) = ?w"
    by (simp_all add: on_update_def on_validated_def announce_def publish_def demo_topology_builds demo_router_def)
  then show ?thesis using lease_renewal_sound [OF run] run by (intro exI conjI) auto
qed

end
