(* ===== verification/Router_Backend.thy ===== *)
theory Router_Backend
  imports Merge
begin

text \<open>
  Backend connections of the router (\<open>pgshard-router/src/backend.rs\<close>): the result forms, the command tags,
  the text-mode result of \<open>tokio_postgres\<close> messages, and the collector that turns wire-protocol messages into
  results. The client libraries are parameters: what a session answers to a simple query is its list of
  messages. Upper-casing of non-ASCII text is the parameter \<open>unicode_upper\<close>. The text of a library error is
  kept as data.
\<close>

section \<open>Definitions\<close>

datatype backend_result =
    Rows (br_schema: "field_info list") (br_rows: "bytes list") (br_tag: "string option")
  | Command string
  | EmptyResult

datatype wire_error =
    UserError string string
  | MergeFailed merge_error
  | EncodeFailed string

definition rsplit_once :: "char \<Rightarrow> string \<Rightarrow> (string \<times> string) option" where
  "rsplit_once d s = map_option (\<lambda>(a, b). (rev b, rev a)) (split_once d (rev s))"

definition is_ascii_digit :: "char \<Rightarrow> bool" where
  "is_ascii_digit c \<longleftrightarrow> of_char c \<ge> (48 :: nat) \<and> of_char c \<le> (57 :: nat)"

definition counted_tag_prefix :: "string \<Rightarrow> string option" where
  "counted_tag_prefix tag =
     (case rsplit_once (CHR '' '') tag of
        Some (prefix, count) \<Rightarrow> if count \<noteq> [] \<and> list_all is_ascii_digit count then Some prefix else None
      | None \<Rightarrow> None)"

subsection \<open>Text mode\<close>

definition ascii_upper :: "char \<Rightarrow> char" where
  "ascii_upper c = (if of_char c \<ge> (97 :: nat) \<and> of_char c \<le> (122 :: nat) then char_of (of_char c - 32 :: nat) else c)"

definition to_uppercase :: "(string \<Rightarrow> string) \<Rightarrow> string \<Rightarrow> string" where
  "to_uppercase unicode_upper s =
     (if list_all (\<lambda>c. of_char c < (128 :: nat)) s then map ascii_upper s else unicode_upper s)"

definition ends_keyword :: "string \<Rightarrow> bool" where
  "ends_keyword s \<longleftrightarrow> (case s of [] \<Rightarrow> True | c # _ \<Rightarrow> c = CHR ''('' \<or> c = CHR '';''
     \<or> list_ex (\<lambda>w. take (length w) s = w) ws_encodings)"

fun keyword_prefix :: "string \<Rightarrow> string" where
  "keyword_prefix [] = []"
| "keyword_prefix (c # s) = (if ends_keyword (c # s) then [] else c # keyword_prefix s)"

definition command_keyword :: "(string \<Rightarrow> string) \<Rightarrow> string \<Rightarrow> string" where
  "command_keyword unicode_upper query =
     (let w = keyword_prefix (trim_with ws_encodings query) in
      if w = [] then ''OK'' else to_uppercase unicode_upper w)"

definition dml_tag_prefix :: "(string \<Rightarrow> string) \<Rightarrow> string \<Rightarrow> string option" where
  "dml_tag_prefix unicode_upper query =
     (let command = command_keyword unicode_upper query in
      if command = ''INSERT'' then Some ''INSERT 0''
      else if command = ''UPDATE'' then Some ''UPDATE''
      else if command = ''DELETE'' then Some ''DELETE''
      else None)"

definition text_command_tag :: "(string \<Rightarrow> string) \<Rightarrow> string \<Rightarrow> u64 \<Rightarrow> string" where
  "text_command_tag unicode_upper query affected =
     (let command = command_keyword unicode_upper query in
      if command = ''INSERT'' then ''INSERT 0 '' @ nat_str (unat affected)
      else command @ '' '' @ nat_str (unat affected))"

datatype text_message =
    TextDescription "string list"
  | TextRow "string option list"
  | TextComplete u64
  | TextOther

definition VARCHAR :: pg_type where "VARCHAR = OtherType 1043"

fun text_collect :: "text_message list \<Rightarrow> field_info list option \<times> string option list list \<times> u64
     \<Rightarrow> field_info list option \<times> string option list list \<times> u64" where
  "text_collect [] acc = acc"
| "text_collect (TextDescription cols # msgs) (schema, rows, affected) =
     text_collect msgs (Some (map (\<lambda>c. \<lparr>fi_name = c, fi_datatype = VARCHAR, fi_format = FormatText\<rparr>) cols), [], affected)"
| "text_collect (TextRow r # msgs) (schema, rows, affected) = text_collect msgs (schema, rows @ [r], affected)"
| "text_collect (TextComplete n # msgs) (schema, rows, affected) = text_collect msgs (schema, rows, n)"
| "text_collect (TextOther # msgs) acc = text_collect msgs acc"

definition text_result ::
    "(string \<Rightarrow> string) \<Rightarrow> (field_info list \<Rightarrow> string option list \<Rightarrow> string + bytes) \<Rightarrow> string \<Rightarrow> text_message list
     \<Rightarrow> wire_error + backend_result" where
  "text_result unicode_upper encode_row query messages =
     (case text_collect messages (None, [], 0) of
        (Some schema, rows, _) \<Rightarrow>
          bind_res (map_err EncodeFailed (collect_res (encode_row schema) rows)) (\<lambda>encoded.
            Ok (Rows schema encoded (dml_tag_prefix unicode_upper query)))
      | (None, _, affected) \<Rightarrow> Ok (Command (text_command_tag unicode_upper query affected)))"

datatype tokio_error = DbError string string | OtherTokioError string

definition tokio_backend_error :: "tokio_error \<Rightarrow> wire_error" where
  "tokio_backend_error e =
     (case e of
        DbError code message \<Rightarrow> UserError code message
      | OtherTokioError text \<Rightarrow> UserError ''08006'' (''backend connection failed: '' @ text))"

record credentials =
  cr_user :: string
  cr_password :: string
  cr_system_database :: string

record connect_config =
  cc_host :: string
  cc_port :: u16
  cc_user :: string
  cc_password :: string
  cc_dbname :: string
  cc_options :: "string option"

definition tokio_run ::
    "(connect_config \<Rightarrow> tokio_error + 'c) \<Rightarrow> ('c \<Rightarrow> string \<Rightarrow> tokio_error + text_message list) \<Rightarrow> (string \<Rightarrow> string)
     \<Rightarrow> (field_info list \<Rightarrow> string option list \<Rightarrow> string + bytes)
     \<Rightarrow> credentials \<Rightarrow> string \<Rightarrow> u16 \<Rightarrow> string \<Rightarrow> string \<Rightarrow> bool \<Rightarrow> wire_error + backend_result list" where
  "tokio_run connect simple_query unicode_upper encode_row creds host port database query read_only =
     bind_res (map_err tokio_backend_error (connect
       \<lparr>cc_host = host, cc_port = port, cc_user = cr_user creds, cc_password = cr_password creds, cc_dbname = database,
        cc_options = (if read_only then Some ''-c default_transaction_read_only=on'' else None)\<rparr>)) (\<lambda>client.
     bind_res (map_err tokio_backend_error (simple_query client query)) (\<lambda>messages.
     bind_res (text_result unicode_upper encode_row query messages) (\<lambda>result. Ok [result])))"

subsection \<open>The wire protocol\<close>

datatype backend_message =
    RowDescription "field_info list"
  | DataRow bytes
  | CommandComplete string
  | EmptyQueryResponse
  | ReadyForQuery
  | ErrorResponse string string
  | NoticeResponse
  | ParameterStatus
  | NotificationResponse
  | OtherMessage nat

datatype client_error = RemoteError string string | UnexpectedMessage backend_message | OtherClientError string

record result_collector =
  rc_pending :: "(field_info list \<times> bytes list) option"
  rc_out :: "backend_result list"

definition collector_default :: result_collector where
  "collector_default = \<lparr>rc_pending = None, rc_out = []\<rparr>"

datatype ready_state = Pending result_collector | Ready "backend_result list"

definition on_row_description :: "field_info list \<Rightarrow> result_collector \<Rightarrow> result_collector" where
  "on_row_description flds c = c\<lparr>rc_pending := Some (flds, [])\<rparr>"

definition on_data_row :: "bytes \<Rightarrow> result_collector \<Rightarrow> client_error + result_collector" where
  "on_data_row row c =
     (case rc_pending c of
        Some (schema, rows) \<Rightarrow> Ok (c\<lparr>rc_pending := Some (schema, rows @ [row])\<rparr>)
      | None \<Rightarrow> Err (UnexpectedMessage (DataRow row)))"

definition on_command_complete :: "string \<Rightarrow> result_collector \<Rightarrow> result_collector" where
  "on_command_complete tag c =
     (case rc_pending c of
        Some (schema, rows) \<Rightarrow> c\<lparr>rc_pending := None, rc_out := rc_out c @ [Rows schema rows (counted_tag_prefix tag)]\<rparr>
      | None \<Rightarrow> c\<lparr>rc_pending := None, rc_out := rc_out c @ [Command tag]\<rparr>)"

definition on_empty_query :: "result_collector \<Rightarrow> result_collector" where
  "on_empty_query c = c\<lparr>rc_out := rc_out c @ [EmptyResult]\<rparr>"

definition on_message :: "backend_message \<Rightarrow> result_collector \<Rightarrow> client_error + ready_state" where
  "on_message message c =
     (case message of
        RowDescription flds \<Rightarrow> Ok (Pending (on_row_description flds c))
      | DataRow row \<Rightarrow> bind_res (on_data_row row c) (\<lambda>c'. Ok (Pending c'))
      | CommandComplete tag \<Rightarrow> Ok (Pending (on_command_complete tag c))
      | EmptyQueryResponse \<Rightarrow> Ok (Pending (on_empty_query c))
      | ReadyForQuery \<Rightarrow> Ok (Ready (rc_out c))
      | ErrorResponse code text \<Rightarrow> Err (RemoteError code text)
      | NoticeResponse \<Rightarrow> Ok (Pending c)
      | ParameterStatus \<Rightarrow> Ok (Pending c)
      | NotificationResponse \<Rightarrow> Ok (Pending c)
      | OtherMessage _ \<Rightarrow> Err (UnexpectedMessage message))"

text \<open>The client feeds the messages of one query to the handler until it is ready; the connection may close
  first.\<close>

fun drive :: "result_collector \<Rightarrow> backend_message list \<Rightarrow> client_error + backend_result list" where
  "drive c [] = Err (OtherClientError ''connection closed'')"
| "drive c (message # messages) =
     bind_res (on_message message c) (\<lambda>st. case st of Ready results \<Rightarrow> Ok results | Pending c' \<Rightarrow> drive c' messages)"

definition wire_client_error :: "client_error \<Rightarrow> string \<Rightarrow> wire_error" where
  "wire_client_error e text =
     (case e of
        RemoteError code message \<Rightarrow> UserError code message
      | _ \<Rightarrow> UserError ''08006'' (''backend connection failed: '' @ text))"

text \<open>\<open>answer\<close> is what the session replies to a query in the state its earlier queries left it in; \<open>show_error\<close> is the
  library's rendering of its errors.\<close>

definition pgwire_run ::
    "(connect_config \<Rightarrow> client_error + 's) \<Rightarrow> ('s \<Rightarrow> string \<Rightarrow> 's \<times> backend_message list) \<Rightarrow> (client_error \<Rightarrow> string)
     \<Rightarrow> credentials \<Rightarrow> string \<Rightarrow> u16 \<Rightarrow> string \<Rightarrow> string \<Rightarrow> bool \<Rightarrow> wire_error + backend_result list" where
  "pgwire_run connect answer show_error creds host port database query read_only =
     map_err (\<lambda>e. wire_client_error e (show_error e))
       (bind_res (connect \<lparr>cc_host = host, cc_port = port, cc_user = cr_user creds, cc_password = cr_password creds,
            cc_dbname = database, cc_options = None\<rparr>) (\<lambda>session.
        bind_res
          (if read_only
           then let (session', replies) = answer session ''SET default_transaction_read_only = on''
                in bind_res (drive collector_default replies) (\<lambda>_. Ok session')
           else Ok session) (\<lambda>session.
        drive collector_default (snd (answer session query)))))"

section \<open>What the collector returns\<close>

text \<open>The replies of the protocol to the statements of a query, and the messages a server may interleave.\<close>

datatype stmt_reply = Selected "field_info list" "bytes list" string | Completed string | EmptyReply

fun reply_messages :: "stmt_reply \<Rightarrow> backend_message list" where
  "reply_messages (Selected schema rows tag) = RowDescription schema # map DataRow rows @ [CommandComplete tag]"
| "reply_messages (Completed tag) = [CommandComplete tag]"
| "reply_messages EmptyReply = [EmptyQueryResponse]"

fun reply_result :: "stmt_reply \<Rightarrow> backend_result" where
  "reply_result (Selected schema rows tag) = Rows schema rows (counted_tag_prefix tag)"
| "reply_result (Completed tag) = Command tag"
| "reply_result EmptyReply = EmptyResult"

definition is_async :: "backend_message \<Rightarrow> bool" where
  "is_async m \<longleftrightarrow> m = NoticeResponse \<or> m = ParameterStatus \<or> m = NotificationResponse"

lemma drive_filter: "drive c messages = drive c (filter (\<lambda>m. \<not> is_async m) messages)"
proof (induction messages arbitrary: c)
  case (Cons m messages)
  show ?case
  proof (cases "is_async m")
    case True
    then have "on_message m c = Ok (Pending c)" by (auto simp: is_async_def on_message_def)
    then show ?thesis using True Cons.IH [of c] by simp
  next
    case False
    have "(\<lambda>st. case st of Ready results \<Rightarrow> Ok results | Pending c' \<Rightarrow> drive c' messages)
        = (\<lambda>st. case st of Ready results \<Rightarrow> Ok results | Pending c' \<Rightarrow> drive c' (filter (\<lambda>m. \<not> is_async m) messages))"
      using Cons.IH by (auto split: ready_state.splits)
    then show ?thesis using False by simp
  qed
qed simp

lemma drive_rows:
  "drive \<lparr>rc_pending = Some (schema, rows), rc_out = out\<rparr> (map DataRow more_rows @ messages)
     = drive \<lparr>rc_pending = Some (schema, rows @ more_rows), rc_out = out\<rparr> messages"
  by (induction more_rows arbitrary: rows) (simp_all add: on_message_def on_data_row_def)

lemma drive_reply:
  "drive \<lparr>rc_pending = None, rc_out = out\<rparr> (reply_messages r @ messages)
     = drive \<lparr>rc_pending = None, rc_out = out @ [reply_result r]\<rparr> messages"
  by (cases r) (simp_all add: on_message_def on_row_description_def on_command_complete_def on_empty_query_def drive_rows)

lemma drive_replies:
  "drive \<lparr>rc_pending = None, rc_out = out\<rparr> (concat (map reply_messages rs) @ messages)
     = drive \<lparr>rc_pending = None, rc_out = out @ map reply_result rs\<rparr> messages"
  by (induction rs arbitrary: out) (simp_all add: drive_reply)

lemma of_char_digit: "d < 10 \<Longrightarrow> is_ascii_digit (lower_digit d)"
  by (auto simp: is_ascii_digit_def of_char_lower_digit)

lemma nat_str_digits: "c \<in> set (nat_str n) \<Longrightarrow> is_ascii_digit c"
  using num_str_digits [of 10 c lower_digit n] of_char_digit by (auto simp: nat_str_def)

lemma nat_str_nonempty: "nat_str n \<noteq> []"
  by (simp add: nat_str_def)

lemma counted_tag_prefix_count: "counted_tag_prefix (prefix @ CHR '' '' # nat_str n) = Some prefix"
proof -
  have "CHR '' '' \<notin> set (rev (nat_str n))" using nat_str_digits [of "CHR '' ''" n] by (auto simp: is_ascii_digit_def)
  then show ?thesis using nat_str_digits [of _ n] nat_str_nonempty [of n]
    by (auto simp: counted_tag_prefix_def rsplit_once_def list_all_iff)
qed

section \<open>Properties\<close>



end
