(* ===== verification/Seq_Inject.thy ===== *)
theory Seq_Inject
  imports Extract
begin

text \<open>
  Filling omitted sequence columns of an \<open>INSERT\<close> (\<open>pgshard-plan/src/sequence.rs\<close>): which columns the
  router must fill, and the rewrite that appends them. Turning a parse tree back into SQL
  (\<open>pg_query::deparse\<close>) is the parameter \<open>deparse\<close>.
\<close>

section \<open>Definitions\<close>

record sequence_injection =
  si_column :: string
  si_sequence :: string

definition has_value_rows :: "insert_stmt \<Rightarrow> bool" where
  "has_value_rows ins \<longleftrightarrow>
     (case as_enum (ist_select ins) of Some (NSelect s) \<Rightarrow> sel_values s \<noteq> [] | _ \<Rightarrow> False)"

definition listed_columns :: "insert_stmt \<Rightarrow> string list" where
  "listed_columns ins =
     List.map_filter (\<lambda>c. case c of Some (NResTarget name _) \<Rightarrow> Some name | _ \<Rightarrow> None) (ist_cols ins)"

definition insert_sequence_injections :: "node_enum \<Rightarrow> vschema \<Rightarrow> sequence_injection list" where
  "insert_sequence_injections n vs =
     (case n of
        NInsert ins \<Rightarrow>
          (case ist_relation ins of
             None \<Rightarrow> []
           | Some rv \<Rightarrow>
               (case vschema_get vs (range_var_table rv) of
                  Some (Sharded _ _ _ sequences) \<Rightarrow>
                    if sequences = [] \<or> \<not> has_value_rows ins then []
                    else if listed_columns ins = [] then []
                    else map (\<lambda>b. \<lparr>si_column = sb_column b, si_sequence = sb_sequence b\<rparr>)
                           (filter (\<lambda>b. sb_column b \<notin> set (listed_columns ins)) sequences)
                | _ \<Rightarrow> []))
      | _ \<Rightarrow> [])"

definition value_row_count :: "node_enum \<Rightarrow> nat" where
  "value_row_count n =
     (case n of
        NInsert ins \<Rightarrow> (case as_enum (ist_select ins) of Some (NSelect s) \<Rightarrow> length (sel_values s) | _ \<Rightarrow> 0)
      | _ \<Rightarrow> 0)"

record injected_column =
  ic_column :: string
  ic_ids :: "i64 list"

datatype rewrite_error = NotInjectable | RowCountMismatch string nat nat | Deparse string

definition res_target :: "string \<Rightarrow> node" where
  "res_target name = Some (NResTarget name None)"

definition int_const :: "i64 \<Rightarrow> node" where
  "int_const i = Some (NConst (AConst False (Some (Fval (i64_str i)))))"

fun check_counts :: "nat \<Rightarrow> injected_column list \<Rightarrow> rewrite_error + unit" where
  "check_counts rows [] = Ok ()"
| "check_counts rows (ic # injected) =
     (if length (ic_ids ic) \<noteq> rows then Err (RowCountMismatch (ic_column ic) (length (ic_ids ic)) rows)
      else check_counts rows injected)"

fun push_ids :: "node list \<Rightarrow> i64 list \<Rightarrow> rewrite_error + node list" where
  "push_ids (row # rows) (i # ids) =
     (case row of
        Some (NList items) \<Rightarrow> bind_res (push_ids rows ids) (\<lambda>rest. Ok (Some (NList (items @ [int_const i])) # rest))
      | _ \<Rightarrow> Err NotInjectable)"
| "push_ids rows ids = Ok rows"

fun push_columns :: "injected_column list \<Rightarrow> node list \<times> node list \<Rightarrow> rewrite_error + node list \<times> node list" where
  "push_columns [] (cols, rows) = Ok (cols, rows)"
| "push_columns (ic # injected) (cols, rows) =
     bind_res (push_ids rows (ic_ids ic)) (\<lambda>rows'. push_columns injected (cols @ [res_target (ic_column ic)], rows'))"

definition with_values :: "select_stmt \<Rightarrow> node list \<Rightarrow> select_stmt" where
  "with_values s rows = SelectStmt (sel_into s) (sel_with s) (sel_op s) (sel_from s) (sel_where s) rows (sel_larg s) (sel_rarg s)
     (sel_targets s) (sel_sort s) (sel_locking s) (sel_group s) (sel_having s) (sel_distinct s) (sel_group_distinct s)
     (sel_limit_count s) (sel_limit_offset s) (sel_rest s)"

definition with_rows :: "insert_stmt \<Rightarrow> node list \<Rightarrow> select_stmt \<Rightarrow> insert_stmt" where
  "with_rows i cols s = InsertStmt (ist_relation i) cols (Some (Some (NSelect s))) (ist_with i) (ist_on_conflict i) (ist_rest i)"

definition rewrite_insert ::
    "(node option list \<Rightarrow> string + string) \<Rightarrow> parsed \<Rightarrow> injected_column list \<Rightarrow> rewrite_error + string" where
  "rewrite_insert deparse pa injected =
     (case pa_result pa of
        [stmt] \<Rightarrow>
          (case as_enum stmt of
             Some (NInsert ins) \<Rightarrow>
               (case as_enum (ist_select ins) of
                  Some (NSelect sel) \<Rightarrow>
                    let rows = length (sel_values sel) in
                    if rows = 0 then Err NotInjectable
                    else bind_res (check_counts rows injected) (\<lambda>_.
                         bind_res (push_columns injected (ist_cols ins, sel_values sel)) (\<lambda>(cols, vals).
                         map_err Deparse (deparse [Some (Some (NInsert (with_rows ins cols (with_values sel vals))))])))
                | _ \<Rightarrow> Err NotInjectable)
           | _ \<Rightarrow> Err NotInjectable)
      | _ \<Rightarrow> Err NotInjectable)"

section \<open>The rewritten statement\<close>

lemma check_counts_Ok: "check_counts rows injected = Ok () \<longleftrightarrow> (\<forall>ic \<in> set injected. length (ic_ids ic) = rows)"
  by (induction injected) auto

definition row_items :: "node \<Rightarrow> node list" where
  "row_items row = (case row of Some (NList items) \<Rightarrow> items | _ \<Rightarrow> [])"

definition is_row :: "node \<Rightarrow> bool" where
  "is_row row \<longleftrightarrow> (\<exists>items. row = Some (NList items))"

lemma row_items_simp [simp]: "row_items (Some (NList items)) = items" "is_row (Some (NList items))"
  by (simp_all add: row_items_def is_row_def)

lemma push_ids_Ok:
  "push_ids rows ids = Ok rows' \<Longrightarrow> length ids = length rows \<Longrightarrow>
     length rows' = length rows \<and> (\<forall>j < length rows. is_row (rows ! j) \<and> is_row (rows' ! j)
       \<and> row_items (rows' ! j) = row_items (rows ! j) @ [int_const (ids ! j)])"
proof (induction rows ids arbitrary: rows' rule: push_ids.induct)
  case (1 row rows i ids)
  then obtain items rest where *: "row = Some (NList items)" "push_ids rows ids = Ok rest"
      "rows' = Some (NList (items @ [int_const i])) # rest"
    by (auto split: option.splits node_enum.splits simp: bind_res_eq_Inr)
  with 1(1) [of "NList items" items rest] 1(3) show ?case by (auto simp: nth_Cons split: nat.splits)
qed auto

lemma push_columns_Ok:
  "push_columns injected (cols, rows) = Ok (cols', rows') \<Longrightarrow> \<forall>ic \<in> set injected. length (ic_ids ic) = length rows \<Longrightarrow>
     cols' = cols @ map (\<lambda>ic. res_target (ic_column ic)) injected \<and> length rows' = length rows
     \<and> (\<forall>j < length rows. is_row (rows ! j) \<longrightarrow> is_row (rows' ! j)
          \<and> row_items (rows' ! j) = row_items (rows ! j) @ map (\<lambda>ic. int_const (ic_ids ic ! j)) injected)"
proof (induction injected "(cols, rows)" arbitrary: cols rows rule: push_columns.induct)
  case (2 ic injected cols rows)
  then obtain mid where mid: "push_ids rows (ic_ids ic) = Ok mid"
      and tail: "push_columns injected (cols @ [res_target (ic_column ic)], mid) = Ok (cols', rows')"
    by (auto simp: bind_res_eq_Inr)
  have push: "length mid = length rows" "\<forall>j < length rows. is_row (rows ! j) \<and> is_row (mid ! j)
       \<and> row_items (mid ! j) = row_items (rows ! j) @ [int_const (ic_ids ic ! j)]"
    using push_ids_Ok [OF mid] 2(3) by simp_all
  then show ?case using 2(1) [OF tail] 2(3) by simp
qed simp

lemma collect_opt_map_cong: "map f xs = map g ys \<Longrightarrow> collect_opt f xs = collect_opt g ys"
proof (induction xs arbitrary: ys)
  case (Cons x xs)
  then obtain y zs where "ys = y # zs" "f x = g y" "map f xs = map g zs" by (auto simp: Cons_eq_map_conv)
  then show ?case using Cons.IH [of zs] by (cases "g y") simp_all
qed simp

lemma collect_opt_all: "map f xs = map Some ys \<Longrightarrow> collect_opt f xs = Some ys"
  by (auto simp: collect_opt_Some list_all2_conv_all_nth list_eq_iff_nth_eq)

lemma position_append:
  "position p (xs @ ys) = (case position p xs of Some i \<Rightarrow> Some i | None \<Rightarrow> map_option (\<lambda>i. length xs + i) (position p ys))"
  by (induction xs; cases "position p ys") (auto split: option.splits)

lemma position_distinct:
  "distinct (map ic_column injected) \<Longrightarrow> k < length injected \<Longrightarrow>
     position (names_column (ic_column (injected ! k))) (map (\<lambda>ic. res_target (ic_column ic)) injected) = Some k"
  by (auto simp: position_Some names_column_def res_target_def distinct_conv_nth)

lemma row_cell_items: "is_row row \<Longrightarrow> row_cell idx row = Option.bind (Option.bind (nth_opt (row_items row) idx) id) key_val"
  by (auto simp: is_row_def row_cell_def)

lemma key_val_int_const: "Option.bind (int_const i) key_val = Some (KConst (Int64 i))"
  by (simp add: int_const_def key_val_def scalar_from_const_def)

text \<open>The rewritten statement: the columns are appended, and so is one literal per column to each row.\<close>

definition injected_into :: "insert_stmt \<Rightarrow> select_stmt \<Rightarrow> injected_column list \<Rightarrow> insert_stmt \<Rightarrow> bool" where
  "injected_into ins sel injected ins' \<longleftrightarrow>
     (\<exists>rows. ins' = with_rows ins (ist_cols ins @ map (\<lambda>ic. res_target (ic_column ic)) injected) (with_values sel rows)
        \<and> length rows = length (sel_values sel)
        \<and> (\<forall>ic \<in> set injected. length (ic_ids ic) = length rows)
        \<and> (\<forall>j < length rows. is_row (rows ! j) \<and> row_items (rows ! j)
             = row_items (sel_values sel ! j) @ map (\<lambda>ic. int_const (ic_ids ic ! j)) injected))"

definition full_rows :: "insert_stmt \<Rightarrow> select_stmt \<Rightarrow> bool" where
  "full_rows ins sel \<longleftrightarrow> list_all (\<lambda>row. is_row row \<and> length (row_items row) = length (ist_cols ins)) (sel_values sel)"

lemma as_enum_stmt: "as_enum (Some (Some n)) = Some n"
  by (simp add: as_enum_def)

lemma rewrite_insert_shape:
  assumes "rewrite_insert deparse pa injected = Ok sql" and "pa_result pa = [Some (Some (NInsert ins))]"
    and "as_enum (ist_select ins) = Some (NSelect sel)" and "full_rows ins sel"
  shows "sel_values sel \<noteq> [] \<and> (\<exists>ins'. deparse [Some (Some (NInsert ins'))] = Ok sql \<and> injected_into ins sel injected ins')"
proof -
  obtain cols rows where ok: "sel_values sel \<noteq> []" "\<forall>ic \<in> set injected. length (ic_ids ic) = length (sel_values sel)"
      "push_columns injected (ist_cols ins, sel_values sel) = Ok (cols, rows)"
      "deparse [Some (Some (NInsert (with_rows ins cols (with_values sel rows))))] = Ok sql"
    using assms(1)
    by (auto simp: rewrite_insert_def assms(2,3) as_enum_stmt Let_def bind_res_eq_Inr check_counts_Ok
        split: if_splits)
  from push_columns_Ok [OF ok(3,2)] ok(1,2,4) assms(4) show ?thesis
    by (auto simp: injected_into_def full_rows_def list_all_length intro!: exI [of _ rows])
qed

lemma injected_key_kept:
  assumes "injected_into ins sel injected ins'" and "as_enum (ist_select ins) = Some (NSelect sel)" and "full_rows ins sel"
    and "position (names_column c) (ist_cols ins) = Some idx"
  shows "insert_key_values ins' c = insert_key_values ins c"
proof -
  obtain rows where rows: "ins' = with_rows ins (ist_cols ins @ map (\<lambda>ic. res_target (ic_column ic)) injected) (with_values sel rows)"
      "length rows = length (sel_values sel)" "\<forall>j < length rows. is_row (rows ! j) \<and> row_items (rows ! j)
             = row_items (sel_values sel ! j) @ map (\<lambda>ic. int_const (ic_ids ic ! j)) injected"
    using assms(1) by (auto simp: injected_into_def)
  have "idx < length (ist_cols ins)" using assms(4) by (simp add: position_Some)
  then have "map (row_cell idx) rows = map (row_cell idx) (sel_values sel)"
    using rows(2,3) assms(3)
    by (auto simp: list_eq_iff_nth_eq full_rows_def list_all_length row_cell_items nth_opt_def nth_append)
  from collect_opt_map_cong [OF this] show ?thesis using assms(2,4) rows(2)
    by (auto simp: insert_key_values_def rows(1) with_rows_def with_values_def as_enum_def position_append)
qed

lemma injected_key_added:
  assumes "injected_into ins sel injected ins'" and "sel_values sel \<noteq> []" and "full_rows ins sel"
    and "ic \<in> set injected" and "distinct (map ic_column injected)"
    and "position (names_column (ic_column ic)) (ist_cols ins) = None"
  shows "insert_key_values ins' (ic_column ic) = Some (map (\<lambda>i. KConst (Int64 i)) (ic_ids ic))"
proof -
  obtain rows where rows: "ins' = with_rows ins (ist_cols ins @ map (\<lambda>ic. res_target (ic_column ic)) injected) (with_values sel rows)"
      "length rows = length (sel_values sel)" "\<forall>ic \<in> set injected. length (ic_ids ic) = length rows"
      "\<forall>j < length rows. is_row (rows ! j) \<and> row_items (rows ! j)
             = row_items (sel_values sel ! j) @ map (\<lambda>ic. int_const (ic_ids ic ! j)) injected"
    using assms(1) by (auto simp: injected_into_def)
  obtain k where k: "k < length injected" "ic = injected ! k" using assms(4) by (auto simp: in_set_conv_nth)
  let ?idx = "length (ist_cols ins) + k"
  have pos: "position (names_column (ic_column ic)) (ist_cols ins @ map (\<lambda>ic. res_target (ic_column ic)) injected) = Some ?idx"
    using position_distinct [OF assms(5) k(1)] assms(6) by (simp add: position_append k(2))
  have "row_cell ?idx (rows ! j) = Some (KConst (Int64 (ic_ids ic ! j)))" if "j < length rows" for j
  proof -
    have "length (row_items (sel_values sel ! j)) = length (ist_cols ins)"
      using assms(3) that rows(2) by (simp add: full_rows_def list_all_length)
    then have "nth_opt (row_items (rows ! j)) ?idx = Some (int_const (ic_ids ic ! j))"
      using rows(4) that k by (simp add: nth_opt_def nth_append)
    then show ?thesis using rows(4) that by (simp add: row_cell_items key_val_int_const)
  qed
  then have "map (row_cell ?idx) rows = map Some (map (\<lambda>i. KConst (Int64 i)) (ic_ids ic))"
    using rows(3) assms(4) by (auto simp: list_eq_iff_nth_eq)
  from collect_opt_all [OF this] show ?thesis using assms(2) rows(2)
    by (auto simp: insert_key_values_def rows(1) with_rows_def with_values_def as_enum_def pos)
qed

lemma listed_columns_append: "ist_cols ins' = ist_cols ins @ map (\<lambda>ic. res_target (ic_column ic)) injected \<Longrightarrow>
    listed_columns ins' = listed_columns ins @ map ic_column injected"
  by (simp add: listed_columns_def List.map_filter_def res_target_def comp_def)

lemma injections_done:
  assumes "injected_into ins sel injected ins'"
    and "map ic_column injected = map si_column (insert_sequence_injections (NInsert ins) vs)"
    and "as_enum (ist_select ins) = Some (NSelect sel)"
  shows "insert_sequence_injections (NInsert ins') vs = []"
proof -
  have cols: "listed_columns ins' = listed_columns ins @ map ic_column injected"
    by (rule listed_columns_append) (use assms(1) in \<open>auto simp: injected_into_def with_rows_def\<close>)
  have same: "ist_relation ins' = ist_relation ins" "has_value_rows ins' = has_value_rows ins"
    using assms(1,3) by (auto simp: injected_into_def with_rows_def with_values_def has_value_rows_def as_enum_stmt)
  show ?thesis
    using assms(2) unfolding insert_sequence_injections_def node_enum.case same cols
    by (auto split: option.splits table_def.splits if_splits simp: filter_empty_conv)
qed

lemma listed_columns_iff: "c \<in> set (listed_columns ins) \<longleftrightarrow> position (names_column c) (ist_cols ins) \<noteq> None"
proof -
  have "names_column c col \<longleftrightarrow> (case col of Some (NResTarget name _) \<Rightarrow> Some name | _ \<Rightarrow> None) = Some c" for col
    by (auto simp: names_column_def split: option.splits node_enum.splits)
  then show ?thesis by (auto simp: position_None listed_columns_def List.map_filter_def image_iff)
qed

lemma injections_distinct:
  assumes "vschema_ok vs"
  shows "distinct (map si_column (insert_sequence_injections (NInsert ins) vs))"
    and "si \<in> set (insert_sequence_injections (NInsert ins) vs) \<Longrightarrow> position (names_column (si_column si)) (ist_cols ins) = None"
proof -
  have "distinct (map sb_column sequences)" if "vschema_get vs t = Some (Sharded key kt fname sequences)" for t key kt fname sequences
    using assms that by (fastforce simp: vschema_ok_def vschema_get_def)
  then show "distinct (map si_column (insert_sequence_injections (NInsert ins) vs))"
    by (auto simp: insert_sequence_injections_def comp_def distinct_map_filter split: option.splits table_def.splits)
  show "position (names_column (si_column si)) (ist_cols ins) = None" if "si \<in> set (insert_sequence_injections (NInsert ins) vs)"
  proof -
    have "si_column si \<notin> set (listed_columns ins)"
      using that by (auto simp: insert_sequence_injections_def split: option.splits table_def.splits if_splits)
    then show ?thesis by (simp add: listed_columns_iff)
  qed
qed

section \<open>Properties\<close>



end
