(* ===== verification/Wire.thy ===== *)
theory Wire
  imports Router Router_Backend Seq_Inject
begin

text \<open>
  The wire frontend (\<open>pgshard-router/src/wire.rs\<close>): one simple query, from its text to the backend runs it
  causes and the response it gets. Everything outside the router is a field of \<open>externals\<close>: the SQL parser and
  deparser, the digest, serialisation, the backend connections and the sequence allocator, whose state is
  threaded through, and the debug rendering of a string inside messages. Clock readings are arguments. A query's outcome lists the backend runs it caused.
\<close>

section \<open>Definitions\<close>

record 'q externals =
  ex_parse :: "string \<Rightarrow> string + node option list \<times> string list"
  ex_fingerprint :: "string \<Rightarrow> string + u64"
  ex_deparse :: "node option list \<Rightarrow> string + string"
  ex_xxh64 :: "bytes \<Rightarrow> u64 \<Rightarrow> u64"
  ex_to_value :: "node_enum \<Rightarrow> json option"
  ex_parse_f64 :: "string \<Rightarrow> f64 option"
  ex_run :: "endpoint \<Rightarrow> string \<Rightarrow> string \<Rightarrow> bool \<Rightarrow> wire_error + backend_result list"
  ex_debug :: "string \<Rightarrow> string"
  ex_next_id :: "'q \<Rightarrow> string \<Rightarrow> 'q \<times> (string + i64)"

record proxy =
  px_router :: router
  px_system_database :: string
  px_has_seq :: bool
  px_freshness :: "freshness option"

record backend_run =
  rn_endpoint :: endpoint
  rn_database :: string
  rn_sql :: string
  rn_read_only :: bool

datatype response = EmptyQuery | Execution string "nat option" | Query "field_info list" "bytes list" "string option"

type_synonym 'q outcome = "backend_run list \<times> 'q \<times> (wire_error + response list)"

definition is_transaction_control :: "parsed \<Rightarrow> bool" where
  "is_transaction_control pa = list_ex (\<lambda>k. k \<in> {KTxnBegin, KTxnCommit, KTxnRollback, KTxnOther}) (pa_statements pa)"

definition is_write :: "parsed \<Rightarrow> bool" where
  "is_write pa = list_ex (\<lambda>k. k \<in> {KInsert, KUpdate, KDelete, KDdl, KMerge, KCopy, KOther}) (pa_statements pa)"

definition schemas_match :: "field_info list \<Rightarrow> field_info list \<Rightarrow> bool" where
  "schemas_match a b \<longleftrightarrow> length a = length b
     \<and> list_all (\<lambda>(x, y). fi_name x = fi_name y \<and> fi_datatype x = fi_datatype y \<and> fi_format x = fi_format y) (zip a b)"

definition response_from :: "backend_result \<Rightarrow> response" where
  "response_from result =
     (case result of
        Rows schema rows command_tag \<Rightarrow> Query schema rows command_tag
      | Command tag \<Rightarrow> Execution tag None
      | EmptyResult \<Rightarrow> EmptyQuery)"

subsection \<open>Scatter classification\<close>

datatype scatter_plan = Concat | Ordered "sort_key_spec list" | Unsupported

definition sort_column_of :: "node option \<Rightarrow> sort_column option" where
  "sort_column_of n =
     (case as_enum n of
        Some (NColumnRef [Some (NString name)]) \<Rightarrow> Some (ByName name)
      | Some (NConst (AConst _ (Some (Ival i)))) \<Rightarrow> if sint i \<ge> 1 then Some (ByPosition (nat (sint i))) else None
      | _ \<Rightarrow> None)"

definition nulls_first :: "sortby_nulls \<Rightarrow> bool \<Rightarrow> bool" where
  "nulls_first nulls descending = (case nulls of NullsFirst \<Rightarrow> True | NullsLast \<Rightarrow> False | _ \<Rightarrow> descending)"

definition is_plain_column_target :: "node \<Rightarrow> bool" where
  "is_plain_column_target n \<longleftrightarrow>
     (case n of Some (NResTarget _ val) \<Rightarrow> (case as_enum val of Some (NColumnRef _) \<Rightarrow> True | _ \<Rightarrow> False) | _ \<Rightarrow> False)"

definition plain_projection :: "select_stmt \<Rightarrow> bool" where
  "plain_projection s \<longleftrightarrow> sel_op s = SetopNone \<and> sel_with s = None \<and> \<not> sel_into s \<and> sel_locking s = [] \<and> sel_group s = []
     \<and> sel_having s = None \<and> sel_distinct s = [] \<and> \<not> sel_group_distinct s \<and> sel_limit_count s = None
     \<and> sel_limit_offset s = None \<and> sel_targets s \<noteq> [] \<and> list_all is_plain_column_target (sel_targets s)"

definition sort_key_of :: "node \<Rightarrow> sort_key_spec option" where
  "sort_key_of item =
     (case item of
        Some (NSortBy dir nulls n) \<Rightarrow>
          if dir = SortbyUsing then None
          else map_option (\<lambda>column. let descending = (dir = SortbyDesc) in
            \<lparr>sk_column = column, sk_descending = descending, sk_nulls_first = nulls_first nulls descending\<rparr>) (sort_column_of n)
      | _ \<Rightarrow> None)"

definition classify_scatter :: "(string \<Rightarrow> string + node option list \<times> string list) \<Rightarrow> string \<Rightarrow> scatter_plan" where
  "classify_scatter pg_parse query =
     (case pg_parse query of
        Ok ([stmt], _) \<Rightarrow>
          (case as_enum stmt of
             Some (NSelect s) \<Rightarrow>
               if \<not> plain_projection s then Unsupported
               else if sel_sort s = [] then Concat
               else (case collect_opt sort_key_of (sel_sort s) of Some keys \<Rightarrow> Ordered keys | None \<Rightarrow> Unsupported)
           | _ \<Rightarrow> Unsupported)
      | _ \<Rightarrow> Unsupported)"

subsection \<open>Backend runs\<close>

definition run_on :: "'q externals \<Rightarrow> endpoint \<Rightarrow> string \<Rightarrow> string \<Rightarrow> bool \<Rightarrow> 'q \<Rightarrow> 'q outcome" where
  "run_on ex ep database query read_only q =
     ([\<lparr>rn_endpoint = ep, rn_database = database, rn_sql = query, rn_read_only = read_only\<rparr>], q,
      bind_res (ex_run ex ep database query read_only) (\<lambda>results. Ok (map response_from results)))"

fun alloc_ids :: "('q \<Rightarrow> string \<Rightarrow> 'q \<times> (string + i64)) \<Rightarrow> string \<Rightarrow> nat \<Rightarrow> 'q \<Rightarrow> 'q \<times> (string + i64 list)" where
  "alloc_ids next_id sequence 0 q = (q, Ok [])"
| "alloc_ids next_id sequence (Suc n) q =
     (case next_id q sequence of
        (q', Err e) \<Rightarrow> (q', Err e)
      | (q', Ok i) \<Rightarrow>
          (case alloc_ids next_id sequence n q' of
             (q'', Err e) \<Rightarrow> (q'', Err e)
           | (q'', Ok ids) \<Rightarrow> (q'', Ok (i # ids))))"

fun alloc_columns ::
    "('q \<Rightarrow> string \<Rightarrow> 'q \<times> (string + i64)) \<Rightarrow> nat \<Rightarrow> sequence_injection list \<Rightarrow> 'q \<Rightarrow> 'q \<times> (string + injected_column list)" where
  "alloc_columns next_id rows [] q = (q, Ok [])"
| "alloc_columns next_id rows (si # sis) q =
     (case alloc_ids next_id (si_sequence si) rows q of
        (q', Err e) \<Rightarrow> (q', Err e)
      | (q', Ok ids) \<Rightarrow>
          (case alloc_columns next_id rows sis q' of
             (q'', Err e) \<Rightarrow> (q'', Err e)
           | (q'', Ok cols) \<Rightarrow> (q'', Ok (\<lparr>ic_column = si_column si, ic_ids = ids\<rparr> # cols))))"

definition rewrite_error_text :: "(string \<Rightarrow> string) \<Rightarrow> rewrite_error \<Rightarrow> string" where
  "rewrite_error_text debug e =
     (case e of
        NotInjectable \<Rightarrow> ''statement is not a single INSERT with VALUES rows''
      | RowCountMismatch column ids rows \<Rightarrow> nat_str ids @ '' ids for column '' @ debug column @ '' but the INSERT has '' @ nat_str rows @ '' value rows''
      | Deparse text \<Rightarrow> ''deparse failed: '' @ text)"

definition inject_sequences :: "'q externals \<Rightarrow> proxy \<Rightarrow> parsed \<Rightarrow> 'q \<Rightarrow> 'q \<times> (wire_error + string option)" where
  "inject_sequences ex px pa q =
     (case pa_result pa of
        [] \<Rightarrow> (q, Ok None)
      | stmt # _ \<Rightarrow>
          (case as_enum stmt of
             None \<Rightarrow> (q, Ok None)
           | Some n \<Rightarrow>
               let injections = insert_sequence_injections n (ro_vschema (px_router px)) in
               if injections = [] then (q, Ok None)
               else if \<not> px_has_seq px
               then (q, Err (UserError ''55000'' ''cannot allocate sequence ids: the router has no system database''))
               else (case alloc_columns (ex_next_id ex) (value_row_count n) injections q of
                       (q', Err e) \<Rightarrow> (q', Err (UserError ''55000'' (''sequence allocation failed: '' @ e)))
                     | (q', Ok columns) \<Rightarrow>
                         (q', bind_res (map_err (\<lambda>e. UserError ''XX000'' (''could not inject sequence ids: '' @ rewrite_error_text (ex_debug ex) e))
                                (rewrite_insert (ex_deparse ex) pa columns)) (\<lambda>sql. Ok (Some sql))))))"

fun merge_shard ::
    "backend_result list \<Rightarrow> field_info list option \<times> bytes list \<Rightarrow> wire_error + field_info list option \<times> bytes list" where
  "merge_shard [] acc = Ok acc"
| "merge_shard (Rows shard_schema shard_rows _ # results) (schema, rows) =
     (case schema of
        None \<Rightarrow> merge_shard results (Some shard_schema, rows @ shard_rows)
      | Some first \<Rightarrow>
          if schemas_match first shard_schema then merge_shard results (schema, rows @ shard_rows)
          else Err (UserError ''0A000'' ''shards returned different result schemas; a schema change may be mid-rollout''))"
| "merge_shard (_ # results) acc = merge_shard results acc"

fun merge_shards ::
    "(wire_error + backend_result list) list \<Rightarrow> field_info list option \<times> bytes list \<Rightarrow> wire_error + field_info list option \<times> bytes list" where
  "merge_shards [] acc = Ok acc"
| "merge_shards (result # results) acc =
     bind_res result (\<lambda>shard_results. bind_res (merge_shard shard_results acc) (\<lambda>acc'. merge_shards results acc'))"

definition target_run :: "string \<Rightarrow> bool \<Rightarrow> target \<Rightarrow> backend_run" where
  "target_run query read_only t =
     \<lparr>rn_endpoint = tg_endpoint t, rn_database = tg_database t, rn_sql = query, rn_read_only = read_only\<rparr>"

definition collect_scatter ::
    "'q externals \<Rightarrow> target list \<Rightarrow> string \<Rightarrow> bool \<Rightarrow> backend_run list \<times> (wire_error + (field_info list \<times> bytes list) option)" where
  "collect_scatter ex targets query read_only =
     (map (target_run query read_only) targets,
      bind_res (merge_shards (map (\<lambda>t. ex_run ex (tg_endpoint t) (tg_database t) query read_only) targets) (None, []))
        (\<lambda>(schema, rows). Ok (map_option (\<lambda>sc. (sc, rows)) schema)))"

definition run_scatter :: "'q externals \<Rightarrow> target list \<Rightarrow> string \<Rightarrow> bool \<Rightarrow> 'q \<Rightarrow> 'q outcome" where
  "run_scatter ex targets query read_only q =
     (case collect_scatter ex targets query read_only of
        (runs, collected) \<Rightarrow> (runs, q, bind_res collected (\<lambda>c. case c of
            Some (schema, rows) \<Rightarrow> Ok [Query schema rows None]
          | None \<Rightarrow> Ok [Execution ''SELECT'' (Some 0)])))"

definition run_ordered_scatter ::
    "'q externals \<Rightarrow> target list \<Rightarrow> string \<Rightarrow> sort_key_spec list \<Rightarrow> bool \<Rightarrow> 'q \<Rightarrow> 'q outcome" where
  "run_ordered_scatter ex targets query keys read_only q =
     (case collect_scatter ex targets query read_only of
        (runs, collected) \<Rightarrow> (runs, q, bind_res collected (\<lambda>c. case c of
            Some (schema, rows) \<Rightarrow>
              bind_res (map_err MergeFailed (merge_ordered (ex_parse_f64 ex) schema rows keys)) (\<lambda>merged. Ok [Query schema merged None])
          | None \<Rightarrow> Ok [Execution ''SELECT'' (Some 0)])))"

subsection \<open>Dispatch\<close>

definition unavailable_text :: "unavailable \<Rightarrow> string" where
  "unavailable_text u =
     (case u of
        NoPrimary i \<Rightarrow> ''shard '' @ shard_name i @ '' has no primary''
      | NotInTopology i \<Rightarrow> ''shard '' @ shard_name i @ '' is not in the topology''
      | NoSystemEndpoint \<Rightarrow> ''system database has no endpoint'')"

definition reason_text :: "(string \<Rightarrow> string) \<Rightarrow> reason \<Rightarrow> string" where
  "reason_text debug r = (case r of Because text \<Rightarrow> text | BadFunction name \<Rightarrow> ''unknown shard function '' @ debug name)"

definition as_secs :: "nat \<Rightarrow> nat" where
  "as_secs d = d div 10 ^ 9"

definition view_age :: "proxy \<Rightarrow> int \<Rightarrow> nat option \<Rightarrow> nat option" where
  "view_age px wall boot = map_option (\<lambda>f. age f wall boot) (px_freshness px)"

definition stale :: "proxy \<Rightarrow> int \<Rightarrow> nat option \<Rightarrow> bool" where
  "stale px wall boot = (case view_age px wall boot of Some a \<Rightarrow> a > ro_write_lease (px_router px) | None \<Rightarrow> False)"

definition lease_expired_error :: "proxy \<Rightarrow> int \<Rightarrow> nat option \<Rightarrow> wire_error" where
  "lease_expired_error px wall boot = UserError ''57P01''
     (''write lease expired: topology last confirmed '' @ nat_str (as_secs (the (view_age px wall boot))) @ ''s ago (limit '' @
      nat_str (as_secs (ro_write_lease (px_router px))) @ ''s); refusing writes until the view refreshes'')"

definition dispatch ::
    "'q externals \<Rightarrow> proxy \<Rightarrow> int \<Rightarrow> nat option \<Rightarrow> parsed \<Rightarrow> route_to \<Rightarrow> string \<Rightarrow> 'q \<Rightarrow> 'q outcome" where
  "dispatch ex px wall boot pa rt query q =
     (let old = stale px wall boot; refuse = (\<lambda>code text. ([], q, Err (UserError code text))) in
      if old \<and> is_write pa then ([], q, Err (lease_expired_error px wall boot))
      else (case rt of
          RShard t \<Rightarrow>
            (case inject_sequences ex px pa q of
               (q', Err e) \<Rightarrow> ([], q', Err e)
             | (q', Ok injected) \<Rightarrow>
                 run_on ex (tg_endpoint t) (tg_database t) (case injected of Some sql \<Rightarrow> sql | None \<Rightarrow> query) old q')
        | RSystem ep \<Rightarrow> run_on ex ep (px_system_database px) query old q
        | RLocal \<Rightarrow>
            if is_transaction_control pa
            then refuse ''0A000'' ''transactions are not supported by this router version''
            else (case any_shard_target (px_router px) of
                    Some t \<Rightarrow> run_on ex (tg_endpoint t) (tg_database t) query old q
                  | None \<Rightarrow> refuse ''57P01'' ''no serving shard primary is available to run this statement'')
        | RReject code why \<Rightarrow> refuse code (reason_text (ex_debug ex) why)
        | RUnavailable u \<Rightarrow> refuse ''57P01'' (unavailable_text u)
        | RScatter targets \<Rightarrow>
            (case classify_scatter (ex_parse ex) query of
               Concat \<Rightarrow> run_scatter ex targets query old q
             | Ordered keys \<Rightarrow> run_ordered_scatter ex targets query keys old q
             | Unsupported \<Rightarrow> refuse ''0A000'' ''this scatter read needs limiting or aggregation that is not supported yet'')
        | RBroadcast _ \<Rightarrow> refuse ''0A000'' ''broadcast (multi-shard DDL) is not supported yet''
        | RNeedsBind _ \<Rightarrow> refuse ''0A000'' ''parameterized queries require the extended protocol''))"

definition sql_error_text :: "sql_error \<Rightarrow> string" where
  "sql_error_text e =
     (case e of ParseError text \<Rightarrow> ''syntax error: '' @ text | FingerprintError text \<Rightarrow> ''fingerprint failed: '' @ text)"

definition do_query :: "'q externals \<Rightarrow> proxy \<Rightarrow> int \<Rightarrow> nat option \<Rightarrow> string \<Rightarrow> 'q \<Rightarrow> 'q outcome option" where
  "do_query ex px wall boot query q =
     (case sql_parse (ex_parse ex) (ex_fingerprint ex) query of
        Err e \<Rightarrow> Some ([], q, Err (UserError ''42601'' (''could not parse query: '' @ sql_error_text e)))
      | Ok pa \<Rightarrow>
          map_option (\<lambda>routes.
            case routes of
              [] \<Rightarrow> ([], q, Ok [EmptyQuery])
            | [rt] \<Rightarrow> dispatch ex px wall boot pa rt query q
            | _ \<Rightarrow> ([], q, Err (UserError ''0A000'' ''multi-statement simple queries are not supported yet'')))
          (route_parsed (ex_xxh64 ex) (ex_to_value ex) (px_router px) pa))"

section \<open>What a query runs\<close>

lemma run_on_runs: "run_on ex ep database query read_only q
    = ([\<lparr>rn_endpoint = ep, rn_database = database, rn_sql = query, rn_read_only = read_only\<rparr>], q,
       bind_res (ex_run ex ep database query read_only) (\<lambda>results. Ok (map response_from results)))"
  by (simp add: run_on_def)

lemma scatter_runs:
  "fst (run_scatter ex targets query read_only q) = map (target_run query read_only) targets"
  "fst (run_ordered_scatter ex targets query keys read_only q) = map (target_run query read_only) targets"
  by (simp_all add: run_scatter_def run_ordered_scatter_def collect_scatter_def)

lemma dispatch_read_only:
  "run \<in> set (fst (dispatch ex px wall boot pa rt query q)) \<Longrightarrow> rn_read_only run = stale px wall boot"
  by (auto simp: dispatch_def Let_def run_on_runs scatter_runs target_run_def
      split: if_splits route_to.splits scatter_plan.splits option.splits prod.splits sum.splits)

lemma dispatch_stale_write:
  "stale px wall boot \<Longrightarrow> is_write pa \<Longrightarrow> dispatch ex px wall boot pa rt query q = ([], q, Err (lease_expired_error px wall boot))"
  by (simp add: dispatch_def)

lemma sql_parse_statements:
  "sql_parse pg_parse pg_fingerprint query = Ok pa \<Longrightarrow> pa_statements pa = map (\<lambda>raw. classify (as_enum raw)) (pa_result pa)"
  by (auto simp: sql_parse_def bind_res_eq_Inr)

lemma route_parsed_single:
  assumes "pa_result pa = [raw]" and "pa_statements pa = [classify (as_enum raw)]"
  shows "route_parsed xxh64 to_value r pa
    = map_option (\<lambda>p. [router_resolve r p]) (case as_enum raw of
        Some n \<Rightarrow> plan_stmt xxh64 to_value (classify (Some n)) n (ro_vschema r) (ro_catalog r) | None \<Rightarrow> Some RouterLocal)"
  using assms by (auto simp: route_parsed_def plan_all_def split: option.splits)

lemma route_parsed_length: "route_parsed xxh64 to_value r pa = Some routes \<Longrightarrow> length routes = length (pa_result pa)"
  by (auto simp: route_parsed_def plan_all_def dest!: length_collect_opt)

lemma do_query_cases:
  assumes "do_query ex px wall boot query q = Some (runs, q', res)"
  obtains (unparsed) "\<not> is_ok (sql_parse (ex_parse ex) (ex_fingerprint ex) query)" "runs = []" "q' = q" "\<not> is_ok res"
  | (empty) pa where "sql_parse (ex_parse ex) (ex_fingerprint ex) query = Ok pa" "pa_statements pa = []" "runs = []" "q' = q" "res = Ok [EmptyQuery]"
  | (multi) pa where "sql_parse (ex_parse ex) (ex_fingerprint ex) query = Ok pa" "length (pa_statements pa) > 1" "runs = []" "q' = q" "\<not> is_ok res"
  | (single) pa raw rt where "sql_parse (ex_parse ex) (ex_fingerprint ex) query = Ok pa" "pa_result pa = [raw]"
      "route_parsed (ex_xxh64 ex) (ex_to_value ex) (px_router px) pa = Some [rt]" "dispatch ex px wall boot pa rt query q = (runs, q', res)"
proof (cases "sql_parse (ex_parse ex) (ex_fingerprint ex) query")
  case (Inl e)
  then show thesis using assms unparsed by (auto simp: do_query_def is_ok_def)
next
  case (Inr pa)
  then obtain routes where routes: "route_parsed (ex_xxh64 ex) (ex_to_value ex) (px_router px) pa = Some routes"
    using assms by (auto simp: do_query_def)
  have len: "length routes = length (pa_result pa)" "length (pa_statements pa) = length (pa_result pa)"
    using route_parsed_length [OF routes] sql_parse_statements [OF Inr] by auto
  show thesis
  proof (cases routes rule: remdups_adj.cases)
    case 1
    then show thesis using assms Inr routes len empty by (auto simp: do_query_def)
  next
    case (2 rt)
    then obtain raw where "pa_result pa = [raw]" using len by (cases "pa_result pa") auto
    then show thesis using assms Inr routes 2 single by (auto simp: do_query_def)
  next
    case (3 a b l)
    then show thesis using assms Inr routes len multi by (auto simp: do_query_def is_ok_def)
  qed
qed

lemma transaction_plan:
  assumes "classify (as_enum raw) \<in> {KTxnBegin, KTxnCommit, KTxnRollback, KTxnOther}" and "as_enum raw = Some n"
  shows "plan_stmt xxh64 to_value (classify (Some n)) n vs shards = Some RouterLocal"
  using assms by (cases n) (auto simp: classify_def plan_stmt_def split: option.splits if_splits txn_kind.splits)

section \<open>Scatter reads\<close>

fun rows_of :: "backend_result \<Rightarrow> bytes list" where
  "rows_of (Rows _ rows _) = rows"
| "rows_of _ = []"

fun schema_of :: "backend_result \<Rightarrow> field_info list option" where
  "schema_of (Rows schema _ _) = Some schema"
| "schema_of _ = None"

definition shard_results :: "(wire_error + backend_result list) list \<Rightarrow> backend_result list" where
  "shard_results results = concat (map (\<lambda>r. case r of Ok brs \<Rightarrow> brs | Err _ \<Rightarrow> []) results)"

lemma schemas_match_eq: "schemas_match a b \<longleftrightarrow> a = b"
proof
  assume match: "schemas_match a b"
  then show "a = b"
    by (intro nth_equalityI) (auto simp: schemas_match_def list_all_length intro: field_info.equality)
qed (auto simp: schemas_match_def list_all_length)

definition first_schema :: "field_info list option \<Rightarrow> backend_result list \<Rightarrow> field_info list option" where
  "first_schema schema brs =
     (case schema of Some sc \<Rightarrow> Some sc | None \<Rightarrow> (case List.map_filter schema_of brs of [] \<Rightarrow> None | sc # _ \<Rightarrow> Some sc))"

definition one_schema :: "field_info list option \<Rightarrow> backend_result list \<Rightarrow> bool" where
  "one_schema schema brs \<longleftrightarrow> (\<forall>br \<in> set brs. \<forall>sc. schema_of br = Some sc \<longrightarrow> schema = Some sc)"

lemma first_schema_simps [simp]:
  "first_schema schema [] = schema"
  "first_schema (Some sc) brs = Some sc"
  "first_schema None (Rows sc rows tag # brs) = Some sc"
  "first_schema schema (Command verb # brs) = first_schema schema brs"
  "first_schema schema (EmptyResult # brs) = first_schema schema brs"
  by (auto simp: first_schema_def map_filter_simps split: option.splits)

lemma first_schema_append: "first_schema schema (xs @ ys) = first_schema (first_schema schema xs) ys"
proof (induction xs arbitrary: schema)
  case (Cons x xs)
  then show ?case by (cases x; cases schema) auto
qed simp

lemma merge_shard_Ok:
  "merge_shard brs (schema, rows) = Ok (schema', rows') \<Longrightarrow>
     rows' = rows @ concat (map rows_of brs) \<and> schema' = first_schema schema brs \<and> one_schema schema' brs"
proof (induction brs "(schema, rows)" arbitrary: schema rows rule: merge_shard.induct)
  case (2 sc shard_rows tag results schema rows)
  then show ?case
    by (cases schema) (auto simp: schemas_match_eq one_schema_def split: if_splits)
qed (auto simp: one_schema_def)

lemma merge_shards_Ok:
  "merge_shards results (schema, rows) = Ok (schema', rows') \<Longrightarrow>
     (\<forall>r \<in> set results. is_ok r) \<and> rows' = rows @ concat (map rows_of (shard_results results))
     \<and> schema' = first_schema schema (shard_results results) \<and> one_schema schema' (shard_results results)"
proof (induction results arbitrary: schema rows)
  case Nil
  then show ?case by (simp add: shard_results_def one_schema_def)
next
  case (Cons r results)
  then obtain brs sc1 rows1 where r: "r = Ok brs" and first: "merge_shard brs (schema, rows) = Ok (sc1, rows1)"
      and rest: "merge_shards results (sc1, rows1) = Ok (schema', rows')"
    by (auto simp: bind_res_eq_Inr)
  have split: "shard_results (r # results) = brs @ shard_results results" by (simp add: shard_results_def r)
  note IH = Cons.IH [OF rest] and head = merge_shard_Ok [OF first]
  have "schema' = sc1" if "sc1 \<noteq> None" using IH that by auto
  then have "one_schema schema' brs" using head unfolding one_schema_def by fastforce
  then show ?case using head IH unfolding split first_schema_append by (auto simp: r one_schema_def)
qed

lemma merge_ordered_mset: "merge_ordered parse_f64 schema rows keys = Ok out \<Longrightarrow> mset out = mset rows"
  by (auto simp: merge_ordered_def bind_res_eq_Inr merge_rows)

text \<open>What the shards of a scatter returned.\<close>

definition scatter_results :: "'q externals \<Rightarrow> target list \<Rightarrow> string \<Rightarrow> bool \<Rightarrow> (wire_error + backend_result list) list" where
  "scatter_results ex targets query read_only = map (\<lambda>t. ex_run ex (tg_endpoint t) (tg_database t) query read_only) targets"

lemma collect_scatter_Ok:
  assumes "snd (collect_scatter ex targets query read_only) = Ok c"
  shows "\<forall>r \<in> set (scatter_results ex targets query read_only). is_ok r"
    and "c = map_option (\<lambda>sc. (sc, concat (map rows_of (shard_results (scatter_results ex targets query read_only)))))
           (first_schema None (shard_results (scatter_results ex targets query read_only)))"
    and "one_schema (first_schema None (shard_results (scatter_results ex targets query read_only)))
           (shard_results (scatter_results ex targets query read_only))"
proof -
  obtain schema rows where m: "merge_shards (scatter_results ex targets query read_only) (None, []) = Ok (schema, rows)"
      and c: "c = map_option (\<lambda>sc. (sc, rows)) schema"
    using assms by (auto simp: collect_scatter_def scatter_results_def bind_res_eq_Inr)
  from merge_shards_Ok [OF m] c show "\<forall>r \<in> set (scatter_results ex targets query read_only). is_ok r"
    and "c = map_option (\<lambda>sc. (sc, concat (map rows_of (shard_results (scatter_results ex targets query read_only)))))
           (first_schema None (shard_results (scatter_results ex targets query read_only)))"
    and "one_schema (first_schema None (shard_results (scatter_results ex targets query read_only)))
           (shard_results (scatter_results ex targets query read_only))"
    by auto
qed

lemma dispatch_scatter_Ok:
  assumes "dispatch ex px wall boot pa (RScatter targets) query q = (runs, q', Ok responses)"
  obtains c where "snd (collect_scatter ex targets query (stale px wall boot)) = Ok c"
    and "runs = map (target_run query (stale px wall boot)) targets" and "q' = q"
    and "case c of
        None \<Rightarrow> responses = [Execution ''SELECT'' (Some 0)]
      | Some (schema, rows) \<Rightarrow> \<exists>out. responses = [Query schema out None] \<and> mset out = mset rows"
proof -
  let ?ro = "stale px wall boot"
  consider (concat) "run_scatter ex targets query ?ro q = (runs, q', Ok responses)"
    | (ordered) keys where "run_ordered_scatter ex targets query keys ?ro q = (runs, q', Ok responses)"
    using assms by (auto simp: dispatch_def Let_def split: if_splits scatter_plan.splits)
  then show thesis
  proof cases
    case concat
    then show thesis
      by (intro that [of "case snd (collect_scatter ex targets query ?ro) of Ok c \<Rightarrow> c | Err _ \<Rightarrow> None"])
        (auto simp: run_scatter_def bind_res_eq_Inr collect_scatter_def split: prod.splits option.splits)
  next
    case ordered
    show thesis
    proof (rule that [of "case snd (collect_scatter ex targets query ?ro) of Ok c \<Rightarrow> c | Err _ \<Rightarrow> None"])
      show "case case snd (collect_scatter ex targets query ?ro) of Ok c \<Rightarrow> c | Err _ \<Rightarrow> None of
          None \<Rightarrow> responses = [Execution ''SELECT'' (Some 0)]
        | Some (schema, rows) \<Rightarrow> \<exists>out. responses = [Query schema out None] \<and> mset out = mset rows"
        using ordered
        by (auto simp: run_ordered_scatter_def bind_res_eq_Inr collect_scatter_def split: prod.splits option.splits)
          (erule merge_ordered_mset)
    qed (use ordered in \<open>auto simp: run_ordered_scatter_def bind_res_eq_Inr collect_scatter_def split: prod.splits option.splits\<close>)
  qed
qed

lemma do_query_total:
  assumes "catalog_ok (ro_catalog (px_router px))" and "vschema_ok (ro_vschema (px_router px))"
  shows "\<exists>runs q' res. do_query ex px wall boot query q = Some (runs, q', res)"
proof (cases "sql_parse (ex_parse ex) (ex_fingerprint ex) query")
  case (Inr pa)
  obtain ps where "plan_all (ex_xxh64 ex) (ex_to_value ex) pa (ro_vschema (px_router px)) (ro_catalog (px_router px)) = Some ps"
    using plan_all_total [OF assms] by blast
  then obtain out where "do_query ex px wall boot query q = Some out" using Inr by (simp add: do_query_def route_parsed_def)
  then show ?thesis by (cases out) simp
qed (simp add: do_query_def)

subsection \<open>An example\<close>

definition demo_endpoint :: endpoint where
  "demo_endpoint = \<lparr>in_pod = ''p'', in_host = ''h'', in_port = 5432, in_can_read = True\<rparr>"

definition demo_proxy :: proxy where
  "demo_proxy = \<lparr>px_router = \<lparr>ro_epoch = 1, ro_vschema = demo_schema, ro_catalog = demo_shards,
     ro_primaries = [(ShardId ''a'', Some demo_endpoint), (ShardId ''b'', Some demo_endpoint)], ro_system = None,
     ro_write_lease = 10 * 10 ^ 9\<rparr>, px_system_database = ''sys'', px_has_seq = False,
     px_freshness = Some \<lparr>fr_boot = 0, fr_wall = 0\<rparr>\<rparr>"

definition demo_parse :: "string \<Rightarrow> string + node option list \<times> string list" where
  "demo_parse query =
     (if query = ''BEGIN'' then Ok ([Some (Some (NTransaction (Some TransBegin)))], [])
      else if query = ''DELETE'' then Ok ([Some (Some (NDelete (DeleteStmt (Some (RangeVar [] ''orders'')) demo_where [] None [])))], [])
      else Ok ([Some (Some (NSelect (SelectStmt False None SetopNone [Some (NRangeVar (RangeVar [] ''orders''))] None [] None None
        [Some (NResTarget [] (Some (Some (NColumnRef [Some (NString ''region'')]))))] [] [] [] None [] False None None [])))], []))"

definition demo_externals :: "unit externals" where
  "demo_externals = \<lparr>ex_parse = demo_parse, ex_fingerprint = (\<lambda>_. Ok 0), ex_deparse = (\<lambda>_. Err []), ex_xxh64 = demo_digest,
     ex_to_value = demo_tree, ex_parse_f64 = (\<lambda>_. None), ex_run = (\<lambda>ep db sql ro. Ok [Rows [] [as_bytes db] None]), ex_debug = id,
     ex_next_id = (\<lambda>q _. (q, Err []))\<rparr>"

lemma demo_proxy_total: "\<exists>runs q' res. do_query ex demo_proxy wall boot query q = Some (runs, q', res)"
  by (rule do_query_total) (simp_all add: demo_proxy_def demo_shards_ok demo_schema_ok)

lemma demo_statements:
  "sql_parse demo_parse (\<lambda>_. Ok 0) ''BEGIN'' = Ok \<lparr>pa_fingerprint = 0, pa_statements = [KTxnBegin], pa_tables = [], pa_result = fst (projr (demo_parse ''BEGIN''))\<rparr>"
  "sql_parse demo_parse (\<lambda>_. Ok 0) ''DELETE'' = Ok \<lparr>pa_fingerprint = 0, pa_statements = [KDelete], pa_tables = [], pa_result = fst (projr (demo_parse ''DELETE''))\<rparr>"
  "sql_parse demo_parse (\<lambda>_. Ok 0) ''SELECT'' = Ok \<lparr>pa_fingerprint = 0, pa_statements = [KSelect], pa_tables = [], pa_result = fst (projr (demo_parse ''SELECT''))\<rparr>"
  by (simp_all add: sql_parse_def demo_parse_def classify_def as_enum_def has_writable_cte_def)

definition demo_parsed :: parsed where
  "demo_parsed = \<lparr>pa_fingerprint = 0, pa_statements = [KSelect], pa_tables = [], pa_result = fst (projr (demo_parse ''SELECT''))\<rparr>"

definition demo_targets :: "target list" where
  "demo_targets = [\<lparr>tg_endpoint = demo_endpoint, tg_database = ''a''\<rparr>, \<lparr>tg_endpoint = demo_endpoint, tg_database = ''b''\<rparr>]"

lemma demo_select_parse: "sql_parse (ex_parse demo_externals) (ex_fingerprint demo_externals) ''SELECT'' = Ok demo_parsed"
  using demo_statements(3) by (simp add: demo_externals_def demo_parsed_def)

lemma demo_select_route:
  "route_parsed (ex_xxh64 demo_externals) (ex_to_value demo_externals) (px_router demo_proxy) demo_parsed = Some [RScatter demo_targets]"
  by (simp add: demo_externals_def demo_parsed_def demo_targets_def route_parsed_single demo_parse_def as_enum_def classify_def
      has_writable_cte_def plan_stmt_def plan_select_def
      demo_tree_def unknown_relation_def find_unresolved_relation_def as_object_def analyze_from_def sharded_tables_def map_filter_simps
      placement_of_def demo_proxy_def vschema_get_def demo_schema_def range_var_table_def contains_sublink_def contains_node_def
      where_key_values_def route_values_def catalog_all_def demo_shards_def router_resolve_def resolve_many_def router_target_def)

lemma demo_select_run:
  "do_query demo_externals demo_proxy 0 (Some 0) ''SELECT'' ()
     = Some (map (target_run ''SELECT'' False) demo_targets, (), Ok [Query [] [as_bytes ''a'', as_bytes ''b''] None])"
proof -
  have fresh: "stale demo_proxy 0 (Some 0) = False" by (simp add: stale_def view_age_def demo_proxy_def age_def)
  have cls: "classify_scatter (ex_parse demo_externals) ''SELECT'' = Concat"
    by (simp add: classify_scatter_def demo_externals_def demo_parse_def as_enum_def plain_projection_def is_plain_column_target_def)
  have "run_scatter demo_externals demo_targets ''SELECT'' False ()
      = (map (target_run ''SELECT'' False) demo_targets, (), Ok [Query [] [as_bytes ''a'', as_bytes ''b''] None])"
    by (simp add: run_scatter_def collect_scatter_def demo_externals_def demo_targets_def schemas_match_eq)
  then show ?thesis by (simp add: do_query_def demo_select_parse demo_select_route dispatch_def fresh cls)
qed

section \<open>Properties\<close>

text \<open>C6: The write lease is enforced on every query. If the topology was last confirmed longer ago than the
  lease, a query with any writing statement causes no backend run, allocates no id and fails, and whatever
  does run is run read-only; while the lease holds nothing is run read-only.\<close>

theorem lease_enforced:
  assumes "do_query ex px wall boot query q = Some (runs, q', res)" and "px_freshness px = Some f"
  shows "(\<forall>run \<in> set runs. rn_read_only run = (age f wall boot > ro_write_lease (px_router px)))
    \<and> (\<forall>pa. sql_parse (ex_parse ex) (ex_fingerprint ex) query = Ok pa \<longrightarrow> is_write pa \<longrightarrow>
          age f wall boot > ro_write_lease (px_router px) \<longrightarrow> runs = [] \<and> q' = q \<and> \<not> is_ok res)"
proof -
  have stale: "stale px wall boot = (age f wall boot > ro_write_lease (px_router px))"
    by (simp add: stale_def view_age_def assms(2))
  show ?thesis using assms(1)
  proof (cases rule: do_query_cases)
    case (single pa raw rt)
    have "rn_read_only run = stale px wall boot" if "run \<in> set runs" for run
      using dispatch_read_only [of run ex px wall boot pa rt query q] single(4) that by simp
    moreover have "runs = [] \<and> q' = q \<and> \<not> is_ok res" if "stale px wall boot" "is_write pa"
      using dispatch_stale_write [OF that, of ex rt query q] single(4) by (auto simp: is_ok_def)
    ultimately show ?thesis using single(1) stale by auto
  qed (auto simp: is_ok_def is_write_def)
qed

theorem lease_enforced_witness:
  "\<exists>res. do_query demo_externals demo_proxy (100 * 10 ^ 9) (Some (100 * 10 ^ 9)) ''DELETE'' () = Some ([], (), res) \<and> \<not> is_ok res"
proof -
  obtain runs q' res where run: "do_query demo_externals demo_proxy (100 * 10 ^ 9) (Some (100 * 10 ^ 9)) ''DELETE'' () = Some (runs, q', res)"
    using demo_proxy_total [of demo_externals "100 * 10 ^ 9" "Some (100 * 10 ^ 9)" "''DELETE''" "()"] by blast
  have fresh: "px_freshness demo_proxy = Some \<lparr>fr_boot = 0, fr_wall = 0\<rparr>" by (simp add: demo_proxy_def)
  from lease_enforced [OF run fresh] demo_statements(2) run show ?thesis
    by (simp add: demo_externals_def demo_proxy_def age_def is_write_def)
qed

text \<open>C32: No transaction is silently autocommitted. A query with a transaction-control statement, however it is
  spelled or commented, causes no backend run and fails.\<close>

theorem transactions_refused:
  assumes "do_query ex px wall boot query q = Some (runs, q', res)"
    and "sql_parse (ex_parse ex) (ex_fingerprint ex) query = Ok pa" and "is_transaction_control pa"
  shows "runs = [] \<and> q' = q \<and> \<not> is_ok res"
  using assms(1)
proof (cases rule: do_query_cases)
  case (single pa' raw rt)
  then have pa: "pa_result pa = [raw]" "pa_statements pa = [classify (as_enum raw)]"
    using assms(2) sql_parse_statements [OF assms(2)] by auto
  then have kind: "classify (as_enum raw) \<in> {KTxnBegin, KTxnCommit, KTxnRollback, KTxnOther}"
    using assms(3) by (simp add: is_transaction_control_def)
  then obtain n where n: "as_enum raw = Some n" by (cases "as_enum raw") (auto simp: classify_def)
  have "rt = RLocal"
    using single(1,3) assms(2) route_parsed_single [OF pa] transaction_plan [OF kind n]
    by (auto simp: n router_resolve_def)
  moreover have "\<not> is_write pa" using kind pa by (auto simp: is_write_def)
  ultimately show ?thesis using single(1,4) assms(2,3) by (auto simp: dispatch_def Let_def is_ok_def split: if_splits)
qed (use assms in \<open>auto simp: is_transaction_control_def is_ok_def\<close>)

theorem transactions_refused_witness:
  "\<exists>res. do_query demo_externals demo_proxy 0 (Some 0) ''BEGIN'' () = Some ([], (), res) \<and> \<not> is_ok res"
proof -
  obtain runs q' res where run: "do_query demo_externals demo_proxy 0 (Some 0) ''BEGIN'' () = Some (runs, q', res)"
    using demo_proxy_total [of demo_externals 0 "Some 0" "''BEGIN''" "()"] by blast
  have parse: "sql_parse (ex_parse demo_externals) (ex_fingerprint demo_externals) ''BEGIN''
      = Ok \<lparr>pa_fingerprint = 0, pa_statements = [KTxnBegin], pa_tables = [], pa_result = fst (projr (demo_parse ''BEGIN''))\<rparr>"
    using demo_statements(1) by (simp add: demo_externals_def)
  from transactions_refused [OF run parse] run show ?thesis by (simp add: is_transaction_control_def)
qed



end
