(* ===== verification/Query_Path.thy ===== *)
theory Query_Path
  imports Wire
begin

text \<open>
  The path of a simple query through the router: from its text, over parser, planner and routing snapshot, to
  the backend runs it causes, against the topology the router was built from.
\<close>

section \<open>From the query to the shard\<close>

definition runs_at :: "shard_entry \<Rightarrow> backend_run \<Rightarrow> bool" where
  "runs_at s run \<longleftrightarrow> se_primary s = Some (rn_endpoint run) \<and> rn_database run = se_name s"

lemma dispatch_shard:
  assumes "dispatch ex px wall boot pa (RShard t) query q = (runs, q', res)"
  shows "(\<forall>run \<in> set runs. rn_endpoint run = tg_endpoint t \<and> rn_database run = tg_database t) \<and> length runs \<le> 1 \<and> (is_ok res \<longrightarrow> runs \<noteq> [])"
  using assms by (auto simp: dispatch_def Let_def run_on_runs is_ok_def split: if_splits prod.splits sum.splits)

lemma dispatch_refused:
  assumes "dispatch ex px wall boot pa rt query q = (runs, q', res)"
    and "rt = RUnavailable u \<or> rt = RReject code why \<or> rt = RNeedsBind z \<or> rt = RBroadcast ts"
  shows "runs = [] \<and> \<not> is_ok res"
  using assms by (auto simp: dispatch_def Let_def is_ok_def split: if_splits)

lemma single_dispatch:
  assumes "do_query ex px wall boot query q = Some (runs, q', res)"
    and "sql_parse (ex_parse ex) (ex_fingerprint ex) query = Ok pa" and "pa_result pa = [Some (Some n)]"
    and "plan_stmt (ex_xxh64 ex) (ex_to_value ex) (classify (Some n)) n (ro_vschema (px_router px)) (ro_catalog (px_router px)) = Some p"
  shows "dispatch ex px wall boot pa (router_resolve (px_router px) p) query q = (runs, q', res)"
proof -
  have "pa_statements pa = [classify (as_enum (Some (Some n)))]" using sql_parse_statements [OF assms(2)] assms(3) by simp
  from route_parsed_single [OF assms(3) this] assms show ?thesis by (simp add: do_query_def as_enum_stmt)
qed

lemma owner_home:
  assumes "router_build t = Ok r" and "ranges_wf t" and "shard_function fname = Ok f"
    and "serving_owners t (keyspace_id xxh64 f v) = [s]"
  shows "home xxh64 (ro_catalog r) fname v = Some (serving_id s)" and "s \<in> set (serving_shards t)"
  using router_owner [OF assms(1,2), of "keyspace_id xxh64 f v"] assms(3,4) serving_owner_member by (auto simp: home_def)

text \<open>A simple query has no bound parameters: a parameterized plan is refused.\<close>

lemma resolve_final:
  assumes "final_plan xxh64 [] shards p = Some q" and "is_reject q \<or> q = SingleShard i"
  shows "(\<exists>code why. router_resolve r p = RReject code why) \<or> (\<exists>z. router_resolve r p = RNeedsBind z) \<or> p = SingleShard i"
  using assms by (cases p; cases q) (auto simp: final_plan_def router_resolve_def)

lemma resolve_single:
  assumes "router_build t = Ok r" and "ranges_wf t" and "s \<in> set (serving_shards t)"
  shows "(\<exists>u. router_resolve r (SingleShard (serving_id s)) = RUnavailable u)
    \<or> (\<exists>ep. se_primary s = Some ep \<and> router_resolve r (SingleShard (serving_id s)) = RShard \<lparr>tg_endpoint = ep, tg_database = se_name s\<rparr>)"
  using router_target_serving [OF assms] by (auto simp: router_resolve_def split: option.splits)

lemma collect_target_Err: "collect_res (router_target r) ids = Err e \<Longrightarrow> \<exists>u. e = RUnavailable u"
  by (induction ids) (auto simp: router_target_def split: sum.splits option.splits)

lemma resolve_broadcast: "\<exists>u ts. router_resolve r (Broadcast ids) = RUnavailable u \<or> router_resolve r (Broadcast ids) = RBroadcast ts"
  using collect_target_Err [of r ids] by (auto simp: router_resolve_def resolve_many_def split: sum.splits)

lemma resolve_scatter:
  assumes "router_build t = Ok r" and "ranges_wf t" and "s \<in> set (serving_shards t)" and "serving_id s \<in> set ids"
  shows "(\<exists>u. router_resolve r (Scatter ids) = RUnavailable u)
    \<or> (\<exists>ep ts. se_primary s = Some ep \<and> router_resolve r (Scatter ids) = RScatter ts \<and> \<lparr>tg_endpoint = ep, tg_database = se_name s\<rparr> \<in> set ts)"
proof (cases "collect_res (router_target r) ids")
  case (Inl unavail)
  then show ?thesis using Inl collect_target_Err by (auto simp: router_resolve_def resolve_many_def)
next
  case (Inr ts)
  then have "list_all2 (\<lambda>i t. router_target r i = Ok t) ids ts" by (simp add: collect_res_Inr)
  moreover obtain k where "k < length ids" "ids ! k = serving_id s" using assms(4) by (auto simp: in_set_conv_nth)
  ultimately have "ts ! k \<in> set ts" "router_target r (serving_id s) = Ok (ts ! k)"
    by (auto simp: list_all2_conv_all_nth)
  then show ?thesis using Inr router_target_serving [OF assms(1-3)]
    by (auto simp: router_resolve_def resolve_many_def split: option.splits)
qed

subsection \<open>An example\<close>

definition demo_cluster :: topology where
  "demo_cluster = topology_default\<lparr>t_epoch := 1,
     t_shards := [\<lparr>se_name = ''b'', se_key_range = \<lparr>kr_start = 5, kr_end = None\<rparr>, se_state = Serving, se_primary = Some demo_endpoint, se_replicas = []\<rparr>,
       \<lparr>se_name = ''a'', se_key_range = \<lparr>kr_start = 0, kr_end = Some 5\<rparr>, se_state = Serving, se_primary = Some demo_endpoint, se_replicas = []\<rparr>],
     t_tables := [\<lparr>te_schema = ''public'', te_name = ''orders'', te_table_type = TableSharded, te_shard_key_column = Some ''region'',
       te_shard_key_type = Some KeyText, te_sequences = []\<rparr>]\<rparr>"

lemma demo_cluster_builds: "router_build demo_cluster = Ok (px_router demo_proxy)"
  by (simp add: demo_cluster_def demo_proxy_def demo_schema_def demo_shards_def topology_default_def router_build_def build_vschema_def
      build_table_def vschema_insert_def check_def_def shard_function_def default_hash_function_def vschema_default_def table_name_new_def
      default_write_lease_seconds_def catalog_new_def validate_partition_def Let_def)

lemma demo_cluster_wf: "ranges_wf demo_cluster"
  by (simp add: ranges_wf_def demo_cluster_def wf_range_def)

lemma demo_cluster_owner:
  "\<exists>s. serving_owners demo_cluster (keyspace_id demo_digest XxHash64V1 (Text ''eu'')) = [s] \<and> se_name s = ''a''"
  by (simp add: serving_owners_def demo_cluster_def contains_def end_exclusive_def demo_digest_def as_bytes_def)

definition demo_delete :: node_enum where
  "demo_delete = NDelete (DeleteStmt (Some (RangeVar [] ''orders'')) (Some (Some (demo_eq ''region'' (NConst (AConst False (Some (Sval ''eu''))))))) [] None [])"

definition demo_literal_row :: row_sem where
  "demo_literal_row = demo_row\<lparr>rs_param := bound_param []\<rparr>"

lemma demo_delete_affects: "affects demo_literal_row [] demo_delete ''region'' (Some TyText) (Text ''eu'')"
  by (simp add: demo_delete_def demo_literal_row_def matching_row_def demo_row_def demo_eq_def as_enum_def truth_a_expr_def is_eq_operator_def equals_def
      column_of_def column_name_def key_val_def scalar_from_const_def compare_col_def operand_value_def canonical_def)

lemma demo_vschema: "vschema_get (ro_vschema (px_router demo_proxy)) (range_var_table (RangeVar [] ''orders'')) = Some (Sharded ''region'' (Some TyText) ''xxhash64_v1'' [])"
  using demo_orders by (simp add: demo_proxy_def)

end
