(* ===== verification/Operator_Ranges.thy ===== *)
theory Operator_Ranges
  imports Shardfn "HOL-Library.Multiset"
begin

text \<open>
  The operator's keyspace arithmetic (\<open>operator/internal/topology/keyrange.go\<close>, \<open>keyspaceid.go\<close>) and the
  partition check of a reshard (\<open>operator/internal/controller/reshard.go\<close>). The Go package has to stay in
  lockstep with the Rust crate \<open>pgshard-core\<close>; the lemmas here say that every operation agrees with the Rust
  one on the range it denotes. A Go range is a start, an end and the flag \<open>closed\<close>; \<open>of_go\<close> is the range it
  denotes. A call that would panic (a \<open>bits.Div64\<close> whose quotient overflows) is \<open>None\<close>. Error texts are
  kept as data. The digest (\<open>xxhash.Sum64\<close>) is the parameter \<open>sum64\<close>.
\<close>

section \<open>Definitions\<close>

subsection \<open>Key ranges\<close>

record go_key_range =
  gk_start :: u64
  gk_end :: u64
  gk_closed :: bool

datatype go_range_error =
    EmptyRange u64 u64
  | ZeroParts
  | TooNarrow go_key_range u32
  | BadBoundLength string
  | BadBoundDigit string
  | BadRangeSyntax string
  | NoRanges
  | FirstNotZero u64
  | NotAdjacent nat u64 go_key_range
  | LastNotOpen u64
  | FewTargets nat
  | TargetsStart go_key_range go_key_range
  | TargetUnbounded go_key_range
  | TargetsGap go_key_range go_key_range
  | TargetsEnd go_key_range go_key_range

definition FullRange :: go_key_range where
  "FullRange = \<lparr>gk_start = 0, gk_end = 0, gk_closed = False\<rparr>"

definition NewKeyRange :: "u64 \<Rightarrow> u64 \<Rightarrow> go_range_error + go_key_range" where
  "NewKeyRange start end =
     (if start \<ge> end then Err (EmptyRange start end) else Ok \<lparr>gk_start = start, gk_end = end, gk_closed = True\<rparr>)"

definition NewOpenKeyRange :: "u64 \<Rightarrow> go_key_range" where
  "NewOpenKeyRange start = \<lparr>gk_start = start, gk_end = 0, gk_closed = False\<rparr>"

definition IsFull :: "go_key_range \<Rightarrow> bool" where
  "IsFull r \<longleftrightarrow> \<not> gk_closed r \<and> gk_start r = 0"

definition go_contains :: "go_key_range \<Rightarrow> keyspace_id \<Rightarrow> bool" where
  "go_contains r i \<longleftrightarrow> i \<ge> gk_start r \<and> (\<not> gk_closed r \<or> i < gk_end r)"

definition go_intersects :: "go_key_range \<Rightarrow> go_key_range \<Rightarrow> bool" where
  "go_intersects r other \<longleftrightarrow>
     (\<not> gk_closed other \<or> gk_start r < gk_end other) \<and> (\<not> gk_closed r \<or> gk_start other < gk_end r)"

text \<open>\<open>bits.Mul64\<close> and \<open>bits.Div64\<close>, the latter panicking on a quotient of more than 64 bits.\<close>

definition mul64 :: "u64 \<Rightarrow> u64 \<Rightarrow> u64 \<times> u64" where
  "mul64 x y = (let p = (ucast x :: u128) * ucast y in (ucast (drop_bit 64 p), ucast p))"

definition div64 :: "u64 \<Rightarrow> u64 \<Rightarrow> u64 \<Rightarrow> (u64 \<times> u64) option" where
  "div64 h l y =
     (if y = 0 \<or> y \<le> h then None
      else let n = push_bit 64 (ucast h :: u128) + ucast l
           in Some (ucast (n div ucast y), ucast (n mod ucast y)))"

definition go_width :: "go_key_range \<Rightarrow> u64" where
  "go_width r = (if gk_closed r then gk_end r - gk_start r else - gk_start r)"

definition go_bound :: "go_key_range \<Rightarrow> u32 \<Rightarrow> u64 \<Rightarrow> u64 option" where
  "go_bound r parts i =
     (if IsFull r then map_option fst (div64 i 0 (ucast parts))
      else let (h, l) = mul64 i (go_width r)
           in map_option (\<lambda>(q, _). gk_start r + q) (div64 h l (ucast parts)))"

definition go_part :: "go_key_range \<Rightarrow> u32 \<Rightarrow> nat \<Rightarrow> go_key_range option" where
  "go_part r parts i =
     Option.bind (go_bound r parts (of_nat i)) (\<lambda>start.
       if i = unat parts - 1 then Some \<lparr>gk_start = start, gk_end = gk_end r, gk_closed = gk_closed r\<rparr>
       else map_option (\<lambda>end. \<lparr>gk_start = start, gk_end = end, gk_closed = True\<rparr>) (go_bound r parts (of_nat i + 1)))"

definition SplitEvenly :: "go_key_range \<Rightarrow> u32 \<Rightarrow> (go_range_error + go_key_range list) option" where
  "SplitEvenly r parts =
     (if parts = 0 then Some (Err ZeroParts)
      else if \<not> IsFull r \<and> go_width r < ucast parts then Some (Err (TooNarrow r parts))
      else map_option Ok (collect_opt (go_part r parts) [0..<unat parts]))"

definition FormatBound :: "u64 \<Rightarrow> string" where
  "FormatBound v =
     (if v = 0 then []
      else let s = rev (dropWhile (\<lambda>c. c = CHR ''0'') (rev (hex_fixed 16 (unat v))))
           in if odd (length s) then s @ ''0'' else s)"

definition bound_digit :: "char \<Rightarrow> u64 option" where
  "bound_digit c =
     (let n = (of_char c :: nat) in
      if 48 \<le> n \<and> n \<le> 57 then Some (of_nat (n - 48))
      else if 97 \<le> n \<and> n \<le> 102 then Some (of_nat (n - 97) + 10)
      else None)"

fun bound_digits :: "u64 \<Rightarrow> string \<Rightarrow> u64 option" where
  "bound_digits v [] = Some v"
| "bound_digits v (c # cs) =
     (case bound_digit c of None \<Rightarrow> None | Some d \<Rightarrow> bound_digits (or (push_bit 4 v) d) cs)"

definition ParseBound :: "string \<Rightarrow> go_range_error + u64" where
  "ParseBound s =
     (if s = [] then Ok 0
      else if odd (length s) \<or> length s > 16 then Err (BadBoundLength s)
      else (case bound_digits 0 s of
              None \<Rightarrow> Err (BadBoundDigit s)
            | Some v \<Rightarrow> Ok (push_bit (4 * (16 - length s)) v)))"

definition go_range_string :: "go_key_range \<Rightarrow> string" where
  "go_range_string r = FormatBound (gk_start r) @ ''-'' @ (if gk_closed r then FormatBound (gk_end r) else [])"

definition ParseKeyRange :: "string \<Rightarrow> go_range_error + go_key_range" where
  "ParseKeyRange s =
     (case split_once (CHR ''-'') s of
        None \<Rightarrow> Err (BadRangeSyntax s)
      | Some (start_str, end_str) \<Rightarrow>
          bind_res (ParseBound start_str) (\<lambda>start.
          if end_str = [] then Ok (NewOpenKeyRange start)
          else bind_res (ParseBound end_str) (NewKeyRange start)))"

fun go_windows :: "nat \<Rightarrow> go_key_range list \<Rightarrow> go_range_error + unit" where
  "go_windows i (prev # nxt # rest) =
     (if \<not> gk_closed prev \<or> gk_end prev \<noteq> gk_start nxt then Err (NotAdjacent i (gk_start nxt) prev)
      else go_windows (Suc i) (nxt # rest))"
| "go_windows i _ = Ok ()"

definition ValidatePartition :: "go_key_range list \<Rightarrow> go_range_error + unit" where
  "ValidatePartition ranges =
     (case ranges of
        [] \<Rightarrow> Err NoRanges
      | first # _ \<Rightarrow>
          if gk_start first \<noteq> 0 then Err (FirstNotZero (gk_start first))
          else bind_res (go_windows 1 ranges) (\<lambda>_.
                 if gk_closed (last ranges) then Err (LastNotOpen (gk_end (last ranges))) else Ok ()))"

subsection \<open>The shard function\<close>

definition HashInt64 :: "(bytes \<Rightarrow> u64) \<Rightarrow> i64 \<Rightarrow> keyspace_id" where
  "HashInt64 sum64 v = sum64 (to_be_bytes64 v)"

definition HashText :: "(bytes \<Rightarrow> u64) \<Rightarrow> string \<Rightarrow> keyspace_id" where
  "HashText sum64 s = sum64 (as_bytes s)"

definition HashUUID :: "(bytes \<Rightarrow> u64) \<Rightarrow> bytes \<Rightarrow> keyspace_id" where
  "HashUUID sum64 u = sum64 u"

definition HashBytes :: "(bytes \<Rightarrow> u64) \<Rightarrow> bytes \<Rightarrow> keyspace_id" where
  "HashBytes sum64 b = sum64 b"

subsection \<open>The partition check of a reshard\<close>

record crd_key_range =
  ck_start :: string
  ck_end :: string

text \<open>The admission pattern of a bound: even-length lowercase hex of at most eight bytes whose last byte is not
  zero, or empty.\<close>

definition crd_bound_ok :: "string \<Rightarrow> bool" where
  "crd_bound_ok s \<longleftrightarrow> s = [] \<or> even (length s) \<and> length s \<le> 16 \<and> list_all bound_char s \<and> take 2 (rev s) \<noteq> ''00''"

definition toRange :: "crd_key_range \<Rightarrow> go_range_error + go_key_range" where
  "toRange kr = ParseKeyRange (ck_start kr @ ''-'' @ ck_end kr)"

fun target_windows :: "go_key_range list \<Rightarrow> go_range_error + unit" where
  "target_windows (a # b # rest) =
     (if \<not> gk_closed a then Err (TargetUnbounded a)
      else if gk_end a \<noteq> gk_start b then Err (TargetsGap a b)
      else target_windows (b # rest))"
| "target_windows _ = Ok ()"

definition validateReshardPartition :: "go_key_range \<Rightarrow> go_key_range list \<Rightarrow> go_range_error + unit" where
  "validateReshardPartition source targets =
     (if length targets < 2 then Err (FewTargets (length targets))
      else let sorted_targets = sort_key gk_start targets in
        if gk_start (hd sorted_targets) \<noteq> gk_start source then Err (TargetsStart source (hd sorted_targets))
        else bind_res (target_windows sorted_targets) (\<lambda>_.
          let final = last sorted_targets in
          if gk_closed final \<noteq> gk_closed source \<or> gk_closed final \<and> gk_end final \<noteq> gk_end source
          then Err (TargetsEnd source final)
          else Ok ()))"

section \<open>Agreement with the Rust key ranges\<close>

definition of_go :: "go_key_range \<Rightarrow> key_range" where
  "of_go r = \<lparr>kr_start = gk_start r, kr_end = (if gk_closed r then Some (gk_end r) else None)\<rparr>"

lemma of_go_simps [simp]:
  "kr_start (of_go r) = gk_start r" "kr_end (of_go r) = (if gk_closed r then Some (gk_end r) else None)"
  by (simp_all add: of_go_def)

lemma lo_of_go [simp]: "lo (of_go r) = unat (gk_start r)"
  by (simp add: lo_def)

lemma hi_of_go: "hi (of_go r) = (if gk_closed r then unat (gk_end r) else 2 ^ 64)"
  by (simp add: unat_end_exclusive)

lemma go_contains_eq: "go_contains r i \<longleftrightarrow> contains (of_go r) i"
  using unat_lt [of i] by (simp add: go_contains_def contains_iff hi_of_go word_le_nat_alt word_less_nat_alt)

lemma go_intersects_eq: "go_intersects r s \<longleftrightarrow> intersects (of_go r) (of_go s)"
  using unat_lt [of "gk_start r"] unat_lt [of "gk_start s"]
  by (simp add: go_intersects_def intersects_iff hi_of_go word_less_nat_alt)

lemma trim_pairs:
  assumes "even (length s)"
  shows "trim_end_00 s = (let d = dropWhile (\<lambda>c. c = CHR ''0'') s in if odd (length d) then CHR ''0'' # d else d)"
  using assms by (induction s rule: trim_end_00.induct) (auto simp: Let_def)

lemma FormatBound_eq: "FormatBound v = format_bound v"
  by (simp add: FormatBound_def format_bound_def trim_pairs Let_def)

lemma go_range_string_eq: "go_range_string r = key_range_to_string (of_go r)"
  by (simp add: go_range_string_def key_range_to_string_def FormatBound_eq)

lemma bound_digit_hex: "bound_char c \<Longrightarrow> bound_digit c = map_option of_nat (hex_val c)"
  by (auto simp: bound_char_def bound_digit_def hex_val_def is_ascii_digit_def Let_def of_nat_diff)

lemma bound_digit_None: "bound_digit c = None \<longleftrightarrow> \<not> bound_char c"
  by (auto simp: bound_char_def bound_digit_def is_ascii_digit_def Let_def)

lemma hex_val_less: "hex_val c = Some d \<Longrightarrow> d < 16"
  by (auto simp: hex_val_def Let_def split: if_splits)

lemma bound_char_hex_val: "bound_char c \<Longrightarrow> \<exists>d. hex_val c = Some d"
  by (auto simp: bound_char_def hex_val_def is_ascii_digit_def Let_def)

lemma shift_in_digit:
  assumes "d < 16"
  shows "or (push_bit 4 (of_nat n :: u64)) (of_nat d) = of_nat (n * 16 + d)"
proof -
  have "and (push_bit 4 (of_nat n :: u64)) (of_nat d) = 0"
  proof (rule bit_eqI)
    fix k
    have "\<not> bit (of_nat d :: u64) k" if "4 \<le> k"
    proof -
      have "d < 2 ^ k" using assms power_increasing [OF that, of "2 :: nat"] by simp
      then have "\<not> bit d k" by (simp add: bit_iff_odd)
      then show ?thesis by (simp add: bit_of_nat_iff)
    qed
    then show "bit (and (push_bit 4 (of_nat n :: u64)) (of_nat d)) k = bit (0 :: u64) k"
      by (auto simp: bit_and_iff bit_push_bit_iff)
  qed
  then have "or (push_bit 4 (of_nat n :: u64)) (of_nat d) = push_bit 4 (of_nat n) + of_nat d"
    by (simp add: disjunctive_add_eq_or)
  then show ?thesis by (simp add: push_bit_eq_mult mult.commute)
qed

lemma bound_digits_radix:
  assumes "list_all bound_char s"
  shows "bound_digits (of_nat n) s = map_option of_nat (radix_val hex_val 16 n s)"
  using assms
proof (induction s arbitrary: n)
  case (Cons c s)
  then obtain d where "hex_val c = Some d" "d < 16" using bound_char_hex_val hex_val_less by fastforce
  with Cons show ?case by (simp add: bound_digit_hex shift_in_digit del: of_nat_add of_nat_mult)
qed simp

lemma bound_digits_None: "\<not> list_all bound_char s \<Longrightarrow> bound_digits v s = None"
  by (induction v s rule: bound_digits.induct) (auto simp: bound_digit_None [symmetric] split: option.splits)

lemma radix_val_ex: "list_all bound_char s \<Longrightarrow> \<exists>m. radix_val hex_val 16 n s = Some m"
  by (induction s arbitrary: n) (auto dest: bound_char_hex_val)

lemma bound_char_plus: "bound_char c \<Longrightarrow> c \<noteq> CHR ''+''"
  by (auto simp: bound_char_def is_ascii_digit_def Let_def)

lemma ParseBound_eq: "ok_of (ParseBound s) = ok_of (parse_bound s)"
proof (cases "s = [] \<or> odd (length s) \<or> length s > 16 \<or> \<not> list_all bound_char s")
  case True
  then show ?thesis by (auto simp: ParseBound_def parse_bound_def ok_of_def bound_digits_None)
next
  case False
  then obtain m where m: "radix_val hex_val 16 0 s = Some m" using radix_val_ex by blast
  then have "m < 2 ^ 64"
    using radix_val_bound [OF m] False power_increasing [of "length s" 16 "16 :: nat"] by simp
  moreover have "bound_digits 0 s = Some (of_nat m)" using bound_digits_radix [of s 0] False m by simp
  moreover have "parse_unsigned hex_val 16 s = Some m"
    using False m bound_char_plus by (cases s) (auto simp: parse_unsigned_def)
  ultimately show ?thesis using False
    by (simp add: ParseBound_def parse_bound_def from_str_radix16_u64_def ok_of_def)
qed

lemma ok_of_bind: "ok_of (bind_res m f) = Option.bind (ok_of m) (\<lambda>x. ok_of (f x))"
  by (cases m) (simp_all add: ok_of_def)

lemma NewKeyRange_eq: "map_option of_go (ok_of (NewKeyRange a b)) = ok_of (key_range_new a (Some b))"
  by (simp add: NewKeyRange_def key_range_new_def ok_of_def of_go_def)

lemma ParseKeyRange_eq: "map_option of_go (ok_of (ParseKeyRange s)) = ok_of (key_range_from_str s)"
proof (cases "split_once (CHR ''-'') s")
  case None
  then show ?thesis by (simp add: ParseKeyRange_def key_range_from_str_def ok_of_def)
next
  case (Some p)
  obtain x y where p: "p = (x, y)" by force
  show ?thesis using ParseBound_eq [of x] ParseBound_eq [of y] Some p
    by (cases "ParseBound x"; cases "parse_bound x"; cases "ParseBound y"; cases "parse_bound y")
      (auto simp: ParseKeyRange_def key_range_from_str_def ok_of_def NewKeyRange_def NewOpenKeyRange_def key_range_new_def of_go_def)
qed

lemma go_windows_Ok: "go_windows i rs = Ok () \<longleftrightarrow> adjacent (map of_go rs)"
proof (induction i rs rule: go_windows.induct)
  case (1 i a b rest)
  have "hi (of_go a) = lo (of_go b) \<longleftrightarrow> gk_closed a \<and> gk_end a = gk_start b"
    using unat_lt [of "gk_start b"] by (auto simp: hi_of_go)
  with 1 show ?case by (cases "gk_closed a \<and> gk_end a = gk_start b") (auto simp: adjacent_Cons_Cons)
qed (simp_all add: adjacent_def)

lemma ValidatePartition_Ok: "ValidatePartition rs = Ok () \<longleftrightarrow> validate_partition (map of_go rs) = Ok ()"
proof (cases rs)
  case (Cons r rest)
  have open_iff: "hi (of_go (last rs)) = 2 ^ 64 \<longleftrightarrow> \<not> gk_closed (last rs)"
    using unat_lt [of "gk_end (last rs)"] by (simp add: hi_of_go)
  show ?thesis
  proof (cases "go_windows 1 rs")
    case (Inl e)
    then have "\<not> adjacent (map of_go rs)" using go_windows_Ok [of 1 rs] by auto
    with Inl show ?thesis using Cons by (simp add: ValidatePartition_def validate_partition_Ok)
  next
    case (Inr u)
    then have "adjacent (map of_go rs)" using go_windows_Ok [of 1 rs] by simp
    with Inr open_iff show ?thesis using Cons
      by (auto simp: ValidatePartition_def validate_partition_Ok last_map unat_eq_0)
  qed
qed (simp add: ValidatePartition_def validate_partition_Ok)

lemma unat_mul64:
  assumes "mul64 x y = (h, l)"
  shows "unat h * 2 ^ 64 + unat l = unat x * unat y"
proof -
  let ?p = "(ucast x :: u128) * ucast y"
  have "unat x * unat y < 2 ^ 64 * 2 ^ 64" using unat_lt [of x] unat_lt [of y] by (intro mult_strict_mono) simp_all
  then have p: "unat ?p = unat x * unat y" by (simp add: unat_word_ariths unat_ucast_up)
  have "h = ucast (drop_bit 64 ?p)" and "l = ucast ?p" using assms by (simp_all add: mul64_def Let_def)
  then have "unat h = unat x * unat y div 2 ^ 64 mod 2 ^ 64" and "unat l = unat x * unat y mod 2 ^ 64"
    using p by (simp_all add: unat_ucast unat_div drop_bit_eq_div)
  moreover have "unat x * unat y div 2 ^ 64 < 2 ^ 64"
    using \<open>unat x * unat y < 2 ^ 64 * 2 ^ 64\<close> by (simp add: less_mult_imp_div_less)
  ultimately show ?thesis by simp
qed

lemma unat_div64:
  assumes "y \<noteq> 0" and "(unat h * 2 ^ 64 + unat l) div unat y < 2 ^ 64"
  shows "\<exists>q r. div64 h l y = Some (q, r) \<and> unat q = (unat h * 2 ^ 64 + unat l) div unat y"
proof -
  have "h < y"
  proof (rule ccontr)
    assume "\<not> h < y"
    then have "unat y * 2 ^ 64 \<le> unat h * 2 ^ 64 + unat l" by (simp add: word_less_nat_alt)
    then have "2 ^ 64 \<le> (unat h * 2 ^ 64 + unat l) div unat y"
      using assms(1) by (simp add: less_eq_div_iff_mult_less_eq unat_gt_0 mult.commute)
    with assms(2) show False by simp
  qed
  let ?n = "push_bit 64 (ucast h :: u128) + ucast l"
  have bound: "unat h * 2 ^ 64 + unat l < 2 ^ 128"
  proof -
    have "unat h * 2 ^ 64 \<le> (2 ^ 64 - 1) * 2 ^ 64" using unat_lt [of h] by (intro mult_right_mono) simp_all
    then show ?thesis using unat_lt [of l] by simp
  qed
  have "unat ?n = unat h * 2 ^ 64 + unat l"
    using bound unat_lt [of h] unat_lt [of l]
    by (simp add: push_bit_eq_mult unat_word_ariths unat_ucast_up)
  then have "unat (ucast (?n div ucast y) :: u64) = (unat h * 2 ^ 64 + unat l) div unat y"
    using assms(2) unat_lt [of y] by (simp add: unat_ucast unat_div)
  with \<open>h < y\<close> assms(1) show ?thesis by (simp add: div64_def Let_def linorder_not_le)
qed

subsection \<open>Even splitting\<close>

lemma unat_uminus: "w \<noteq> 0 \<Longrightarrow> unat (- w :: u64) = 2 ^ 64 - unat w"
  using unat_sub_if_size [of 0 w] by (simp add: word_size unat_gt_0)

lemma unat_go_width:
  assumes "wf_range (of_go r)" and "\<not> IsFull r"
  shows "unat (go_width r) = hi (of_go r) - lo (of_go r)"
  using assms by (auto simp: go_width_def IsFull_def hi_of_go wf_range_def unat_uminus unat_sub order_less_imp_le)

lemma go_bound_cut:
  assumes wf: "wf_range (of_go r)" and i: "i < unat parts"
  shows "\<exists>w. go_bound r parts (of_nat i) = Some w \<and> unat w = cut (of_go r) parts i"
proof -
  let ?r = "of_go r"
  have parts: "parts \<noteq> 0" "unat parts < 2 ^ 32" using i unat_lt [of parts] by (auto simp: unat_gt_0)
  have ui: "unat (of_nat i :: u64) = i" using i parts by (simp add: unat_of_nat)
  have up: "unat (ucast parts :: u64) = unat parts" and pn: "(ucast parts :: u64) \<noteq> 0"
    using parts by (simp_all add: unat_ucast_up flip: unat_eq_0)
  have width: "0 < hi ?r - lo ?r" "hi ?r - lo ?r \<le> 2 ^ 64" using wf hi_le [of ?r] by (auto simp: wf_range_iff)
  have quot: "i * (hi ?r - lo ?r) div unat parts < hi ?r - lo ?r"
    using i width by (simp add: less_mult_imp_div_less mult.commute)
  show ?thesis
  proof (cases "IsFull r")
    case True
    then have "hi ?r = 2 ^ 64" "lo ?r = 0" by (simp_all add: IsFull_def hi_of_go)
    with True show ?thesis using unat_div64 [OF pn, of "of_nat i" 0] quot
      by (auto simp: go_bound_def cut_def ui up)
  next
    case False
    obtain h l where m: "mul64 (of_nat i) (go_width r) = (h, l)" by force
    then have hl: "unat h * 2 ^ 64 + unat l = i * (hi ?r - lo ?r)"
      using unat_mul64 [OF m] unat_go_width [OF wf False] by (simp add: ui)
    obtain q x where q: "div64 h l (ucast parts) = Some (q, x)" "unat q = i * (hi ?r - lo ?r) div unat parts"
      using unat_div64 [OF pn, of h l] hl quot width up by auto
    have "unat (gk_start r) + unat q < 2 ^ 64" using q quot hi_le [of ?r] width by simp
    then show ?thesis using False m q by (simp add: go_bound_def cut_def unat_plus_simple [THEN iffD1] unat_add_lem [THEN iffD1])
  qed
qed

lemma go_part_cut:
  assumes wf: "wf_range (of_go r)" and i: "i < unat parts"
  shows "\<exists>p. go_part r parts i = Some p \<and> lo (of_go p) = cut (of_go r) parts i \<and> hi (of_go p) = cut (of_go r) parts (Suc i)"
proof -
  obtain w where w: "go_bound r parts (of_nat i) = Some w" "unat w = cut (of_go r) parts i"
    using go_bound_cut [OF assms] by blast
  have parts: "parts \<noteq> 0" using i by (auto simp: unat_gt_0)
  show ?thesis
  proof (cases "i = unat parts - 1")
    case True
    then have "Suc i = unat parts" using i by simp
    then have "hi (of_go r) = cut (of_go r) parts (Suc i)" using cut_ends(2) [OF wf parts] by simp
    with True w show ?thesis by (auto simp: go_part_def hi_of_go split: if_splits)
  next
    case False
    then have "Suc i < unat parts" using i by simp
    then obtain e where "go_bound r parts (of_nat (Suc i)) = Some e" "unat e = cut (of_go r) parts (Suc i)"
      using go_bound_cut [OF wf] by blast
    with False w show ?thesis by (simp add: go_part_def hi_of_go add.commute)
  qed
qed

lemma collect_opt_the: "(\<And>x. x \<in> set xs \<Longrightarrow> \<exists>y. f x = Some y) \<Longrightarrow> collect_opt f xs = Some (map (\<lambda>x. the (f x)) xs)"
  by (induction xs) force+

lemma SplitEvenly_eq:
  assumes wf: "wf_range (of_go r)"
  shows "\<exists>res. SplitEvenly r parts = Some res \<and> map_option (map of_go) (ok_of res) = ok_of (split_evenly (of_go r) parts)"
proof (cases "parts = 0")
  case True
  then show ?thesis by (simp add: SplitEvenly_def split_evenly_def ok_of_def)
next
  case False
  have narrow: "\<not> IsFull r \<and> go_width r < ucast parts \<longleftrightarrow> hi (of_go r) - lo (of_go r) < unat parts"
  proof (cases "IsFull r")
    case True
    then show ?thesis using unat_lt [of parts] by (simp add: IsFull_def hi_of_go)
  next
    case False
    then show ?thesis using unat_go_width [OF wf False] by (simp add: word_less_nat_alt unat_ucast_up)
  qed
  have rust: "end_exclusive (of_go r) - ucast (gk_start r) < ucast parts \<longleftrightarrow> hi (of_go r) - lo (of_go r) < unat parts"
    using unat_width [OF wf] by (simp add: word_less_nat_alt unat_ucast_up)
  show ?thesis
  proof (cases "hi (of_go r) - lo (of_go r) < unat parts")
    case True
    then show ?thesis using narrow rust False
      by (auto simp: SplitEvenly_def split_evenly_def ok_of_def Let_def)
  next
    case fits: False
    let ?gs = "map (\<lambda>i. the (go_part r parts i)) [0..<unat parts]"
    have "collect_opt (go_part r parts) [0..<unat parts] = Some ?gs"
      using go_part_cut [OF wf] by (intro collect_opt_the) fastforce
    then have go: "SplitEvenly r parts = Some (Ok ?gs)" using False narrow fits by (auto simp: SplitEvenly_def)
    obtain rs where rs: "split_evenly (of_go r) parts = Ok rs"
      using False rust fits by (auto simp: split_evenly_def Let_def)
    note ok = split_evenly_Ok [OF wf rs]
    have "map of_go ?gs = rs"
    proof (rule nth_equalityI)
      fix i
      assume "i < length (map of_go ?gs)"
      then have i: "i < unat parts" by simp
      obtain p where "go_part r parts i = Some p" "lo (of_go p) = cut (of_go r) parts i" "hi (of_go p) = cut (of_go r) parts (Suc i)"
        using go_part_cut [OF wf i] by blast
      then show "map of_go ?gs ! i = rs ! i" using i ok(3,4,5) by (auto intro: key_range_eqI)
    qed (use ok(3) in simp)
    then show ?thesis using go rs by (simp add: ok_of_def)
  qed
qed

subsection \<open>Admitted bounds are canonical\<close>

lemma lower_digit_hex: "bound_char c \<Longrightarrow> hex_val c = Some d \<Longrightarrow> lower_digit d = c"
  by (auto simp: bound_char_def hex_val_def is_ascii_digit_def lower_digit_def Let_def split: if_splits)

lemma hex_fixed_radix: "list_all bound_char s \<Longrightarrow> radix_val hex_val 16 0 s = Some n \<Longrightarrow> hex_fixed (length s) n = s"
proof (induction s arbitrary: n rule: rev_induct)
  case (snoc c s)
  then obtain m d where "radix_val hex_val 16 0 s = Some m" "hex_val c = Some d" "n = m * 16 + d"
    by (auto simp: radix_val_append split: option.splits)
  moreover from this have "d < 16" using hex_val_less by blast
  ultimately show ?case using snoc lower_digit_hex [of c d] by simp
qed simp

lemma hex_fixed_shift: "hex_fixed (k + m) (n * 16 ^ m) = hex_fixed k n @ replicate m (CHR ''0'')"
proof (induction m)
  case (Suc m)
  have "n * 16 ^ Suc m div 16 = n * 16 ^ m" "n * 16 ^ Suc m mod 16 = 0" by simp_all
  moreover have "lower_digit 0 = CHR ''0''" by (rule lower_digit_hex) (simp_all add: bound_char_def is_ascii_digit_def hex_val_def)
  ultimately show ?case using Suc by (simp add: replicate_append_same del: power_Suc)
qed simp

lemma trim_replicate: "trim_end_00 (replicate (2 * j) (CHR ''0'') @ t) = trim_end_00 t"
  by (induction j) auto

lemma crd_bound_canonical:
  assumes "crd_bound_ok s"
  shows "\<exists>v. parse_bound s = Ok v \<and> format_bound v = s"
proof (cases "s = []")
  case True
  then show ?thesis by (simp add: parse_bound_def format_bound_def)
next
  case False
  let ?k = "length s"
  have ok: "even ?k" "?k \<le> 16" "list_all bound_char s" "take 2 (rev s) \<noteq> ''00''"
    using assms False by (auto simp: crd_bound_ok_def)
  obtain n where n: "radix_val hex_val 16 0 s = Some n" using radix_val_ex [OF ok(3)] by blast
  have less: "n < 16 ^ ?k" using radix_val_bound [OF n] .
  have digits: "hex_fixed ?k n = s" using hex_fixed_radix [OF ok(3) n] .
  have pow: "(16 :: nat) ^ ?k * 16 ^ (16 - ?k) = 2 ^ 64" using ok(2) by (simp flip: power_add)
  have big: "n * 16 ^ (16 - ?k) < 2 ^ 64"
    using mult_strict_right_mono [OF less, of "16 ^ (16 - ?k)"] pow by simp
  have "n < 2 ^ 64" using big by (metis mult.right_neutral mult_le_mono2 one_le_numeral one_le_power order_le_less_trans)
  let ?v = "push_bit (4 * (16 - ?k)) (of_nat n :: u64)"
  have "parse_unsigned hex_val 16 s = Some n"
    using ok(3) n False bound_char_plus by (cases s) (auto simp: parse_unsigned_def)
  then have parse: "parse_bound s = Ok ?v"
    using False ok \<open>n < 2 ^ 64\<close> by (simp add: parse_bound_def from_str_radix16_u64_def)
  have "?v = of_nat (n * 16 ^ (16 - ?k))" by (simp add: push_bit_eq_mult power_mult)
  then have unat: "unat ?v = n * 16 ^ (16 - ?k)" using big by (simp only: unat_of_nat) simp
  have hex: "hex_fixed 16 (unat ?v) = s @ replicate (16 - ?k) (CHR ''0'')"
    using hex_fixed_shift [of ?k "16 - ?k" n] ok(2) digits unat by simp
  obtain j where j: "16 - ?k = 2 * j" using ok(1,2) by (intro that [of "(16 - ?k) div 2"]) simp
  have "trim_end_00 (rev s) = rev s"
    using ok(4) by (cases "rev s" rule: trim_end_00.cases) auto
  moreover have "?v \<noteq> 0"
  proof
    assume "?v = 0"
    then have "n = 0" using unat by simp
    then have "s = replicate ?k (CHR ''0'')" using digits hex_fixed_shift [of 0 ?k 0] by simp
    moreover have "?k \<noteq> 0" "?k \<noteq> 1" using False ok(1) by auto
    then obtain m where "?k = Suc (Suc m)" by (metis One_nat_def not0_implies_Suc)
    ultimately have "rev s = CHR ''0'' # CHR ''0'' # replicate m (CHR ''0'')" by (metis replicate_Suc rev_replicate)
    then have "take 2 (rev s) = ''00''" by simp
    with ok(4) show False by simp
  qed
  ultimately have "format_bound ?v = s" using hex j by (simp add: format_bound_def trim_replicate)
  with parse show ?thesis by blast
qed

section \<open>Ranges that cover an interval exactly once\<close>

text \<open>In start order, ranges are adjacent from one end of an interval to the other exactly when every id
  lies in one of them if it is in the interval, and in none if it is not.\<close>

definition times_covered :: "key_range list \<Rightarrow> keyspace_id \<Rightarrow> nat" where
  "times_covered rs key = length (filter (\<lambda>r. contains r key) rs)"

lemma times_covered_card: "times_covered rs key = card {i. i < length rs \<and> contains (rs ! i) key}"
  by (simp add: times_covered_def length_filter_conv_card)

lemma card_Ex1: "card {i. P i} = Suc 0 \<longleftrightarrow> (\<exists>!i. P i)"
  unfolding card_1_singleton_iff Ex1_def by blast

lemma times_covered_one: "times_covered rs key = Suc 0 \<longleftrightarrow> (\<exists>!i. i < length rs \<and> contains (rs ! i) key)"
  unfolding times_covered_card card_Ex1 by blast

lemma times_covered_zero: "times_covered rs key = 0 \<longleftrightarrow> (\<forall>i < length rs. \<not> contains (rs ! i) key)"
  by (auto simp: times_covered_card)

lemma adjacent_covers_once:
  assumes "adjacent rs" and "\<forall>r \<in> set rs. wf_range r" and "rs \<noteq> []"
  shows "times_covered rs key = (if lo (hd rs) \<le> unat key \<and> unat key < hi (last rs) then 1 else 0)"
proof (cases "lo (hd rs) \<le> unat key \<and> unat key < hi (last rs)")
  case True
  then show ?thesis using adjacent_cover [OF assms] by (simp add: times_covered_one)
next
  case False
  then show ?thesis using contained_in_adjacent [OF assms(1,2)] by (auto simp: times_covered_zero)
qed

definition covers_once :: "key_range list \<Rightarrow> nat \<Rightarrow> nat \<Rightarrow> bool" where
  "covers_once rs a b \<longleftrightarrow> (\<forall>r \<in> set rs. wf_range r) \<and> rs \<noteq> [] \<and> sorted (map lo rs) \<and> a < b \<and> b \<le> 2 ^ 64
     \<and> (\<forall>key. times_covered rs key = (if a \<le> unat key \<and> unat key < b then 1 else 0))"

lemma covers_once_proper: "covers_once rs a b \<Longrightarrow> i < length rs \<Longrightarrow> lo (rs ! i) < hi (rs ! i)"
  by (simp add: covers_once_def wf_range_iff)

lemma covers_once_times:
  assumes "covers_once rs a b" and "n < 2 ^ 64"
  shows "times_covered rs (of_nat n) = (if a \<le> n \<and> n < b then 1 else 0)"
proof -
  have "unat (of_nat n :: u64) = n" using assms(2) by (simp add: unat_of_nat)
  then show ?thesis using assms(1) unfolding covers_once_def by metis
qed

lemma contains_of_nat: "lo r \<le> n \<Longrightarrow> n < hi r \<Longrightarrow> contains r (of_nat n) \<and> n < 2 ^ 64"
  using hi_le [of r] by (simp add: contains_iff unat_of_nat)

lemma covers_once_inside:
  assumes "covers_once rs a b" and "i < length rs" "lo (rs ! i) \<le> n" "n < hi (rs ! i)"
  shows "a \<le> n \<and> n < b"
proof -
  have "contains (rs ! i) (of_nat n)" "n < 2 ^ 64" using contains_of_nat assms by blast+
  then have "times_covered rs (of_nat n) \<noteq> 0" using assms(2) by (auto simp: times_covered_zero)
  then show ?thesis using covers_once_times [OF assms(1) \<open>n < 2 ^ 64\<close>] by (auto split: if_splits)
qed

lemma covers_once_unique:
  assumes "covers_once rs a b" and "i < length rs" "lo (rs ! i) \<le> n" "n < hi (rs ! i)"
    and "j < length rs" "lo (rs ! j) \<le> n" "n < hi (rs ! j)"
  shows "i = j"
proof -
  have c: "contains (rs ! i) (of_nat n)" "contains (rs ! j) (of_nat n)" "n < 2 ^ 64" using contains_of_nat assms by blast+
  have "times_covered rs (of_nat n) = 1"
    using covers_once_times [OF assms(1) c(3)] covers_once_inside [OF assms(1,2,3,4)] by simp
  then show ?thesis using c assms(2,5) by (auto simp: times_covered_one)
qed

lemma covers_once_covered:
  assumes "covers_once rs a b" and "a \<le> n" "n < b"
  shows "\<exists>i < length rs. lo (rs ! i) \<le> n \<and> n < hi (rs ! i)"
proof -
  have n: "n < 2 ^ 64" using assms by (simp add: covers_once_def)
  then have "times_covered rs (of_nat n) = 1" using covers_once_times [OF assms(1)] assms by simp
  then have "\<exists>i < length rs. contains (rs ! i) (of_nat n)" by (auto simp: times_covered_one)
  then show ?thesis using n by (simp add: contains_iff unat_of_nat)
qed

lemma covers_once_starts:
  assumes c: "covers_once rs a b" and "i < j" "j < length rs"
  shows "lo (rs ! i) < lo (rs ! j)"
proof -
  have "sorted (map lo rs)" using c by (simp add: covers_once_def)
  then have le: "lo (rs ! i) \<le> lo (rs ! j)" using sorted_nth_mono [of "map lo rs" i j] assms by simp
  have "lo (rs ! i) \<noteq> lo (rs ! j)"
  proof
    assume "lo (rs ! i) = lo (rs ! j)"
    then have "i = j" using assms covers_once_unique [OF c, of i "lo (rs ! i)" j] covers_once_proper [OF c, of i]
      covers_once_proper [OF c, of j] by simp
    with assms show False by simp
  qed
  with le show ?thesis by simp
qed

lemma covers_once_end:
  assumes c: "covers_once rs a b" and i: "i < length rs"
    and later: "\<And>j. i < j \<Longrightarrow> j < length rs \<Longrightarrow> hi (rs ! i) < lo (rs ! j)"
  shows "b \<le> hi (rs ! i)"
proof (rule ccontr)
  assume "\<not> b \<le> hi (rs ! i)"
  moreover have "a \<le> hi (rs ! i)"
    using covers_once_inside [OF c i, of "lo (rs ! i)"] covers_once_proper [OF c i] by simp
  ultimately obtain k where k: "k < length rs" "lo (rs ! k) \<le> hi (rs ! i)" "hi (rs ! i) < hi (rs ! k)"
    using covers_once_covered [OF c, of "hi (rs ! i)"] by auto
  then have "k < i" using later [of k] by (cases k i rule: linorder_cases) auto
  then have "lo (rs ! k) \<le> lo (rs ! i)" using covers_once_starts [OF c, of k i] i by simp
  then have "k = i" using covers_once_unique [OF c, of k "lo (rs ! i)" i] k i covers_once_proper [OF c i] by simp
  with \<open>k < i\<close> show False by simp
qed

lemma covers_once_adjacent:
  assumes c: "covers_once rs a b"
  shows "adjacent rs"
  unfolding adjacent_def
proof (intro allI impI)
  fix i
  assume i: "Suc i < length rs"
  note starts = covers_once_starts [OF c] and proper = covers_once_proper [OF c]
  have "\<not> lo (rs ! Suc i) < hi (rs ! i)"
    using covers_once_unique [OF c, of i "lo (rs ! Suc i)" "Suc i"] starts [of i "Suc i"] proper [of "Suc i"] i by auto
  moreover have "\<not> hi (rs ! i) < lo (rs ! Suc i)"
  proof
    assume less: "hi (rs ! i) < lo (rs ! Suc i)"
    then have "hi (rs ! i) < lo (rs ! j)" if "i < j" "j < length rs" for j
      using starts [of "Suc i" j] that by (cases "j = Suc i") auto
    then have "b \<le> hi (rs ! i)" using covers_once_end [OF c, of i] i by simp
    then show False using covers_once_inside [OF c, of "Suc i" "lo (rs ! Suc i)"] proper [of "Suc i"] i less by simp
  qed
  ultimately show "hi (rs ! i) = lo (rs ! Suc i)" by simp
qed

lemma covers_once_ends:
  assumes c: "covers_once rs a b"
  shows "lo (hd rs) = a" and "hi (last rs) = b"
proof -
  have ne: "rs \<noteq> []" and ab: "a < b" using c by (simp_all add: covers_once_def)
  obtain i where i: "i < length rs" "lo (rs ! i) \<le> a" using covers_once_covered [OF c, of a] ab by auto
  have "lo (rs ! 0) \<le> lo (rs ! i)" using covers_once_starts [OF c, of 0 i] i by (cases "i = 0") auto
  moreover have "a \<le> lo (rs ! 0)" using covers_once_inside [OF c, of 0 "lo (rs ! 0)"] covers_once_proper [OF c, of 0] ne by simp
  ultimately show "lo (hd rs) = a" using i ne by (simp add: hd_conv_nth)
  let ?n = "length rs - 1"
  have n: "?n < length rs" using ne by simp
  have "b \<le> hi (rs ! ?n)" using n by (intro covers_once_end [OF c]) auto
  moreover have "hi (rs ! ?n) - 1 < b" using covers_once_inside [OF c n, of "hi (rs ! ?n) - 1"] covers_once_proper [OF c n] by simp
  ultimately show "hi (last rs) = b" using ne ab by (simp add: last_conv_nth)
qed

section \<open>Reshard targets\<close>

lemma target_windows_Ok: "target_windows rs = Ok () \<longleftrightarrow> adjacent (map of_go rs)"
proof (induction rs rule: target_windows.induct)
  case (1 a b rest)
  have "hi (of_go a) = lo (of_go b) \<longleftrightarrow> gk_closed a \<and> gk_end a = gk_start b"
    using unat_lt [of "gk_start b"] by (auto simp: hi_of_go)
  with 1 show ?case by (cases "gk_closed a \<and> gk_end a = gk_start b") (auto simp: adjacent_Cons_Cons)
qed (simp_all add: adjacent_def)

lemma hi_of_go_eq: "hi (of_go r) = hi (of_go s) \<longleftrightarrow> gk_closed r = gk_closed s \<and> (gk_closed r \<longrightarrow> gk_end r = gk_end s)"
  using unat_lt [of "gk_end r"] unat_lt [of "gk_end s"] by (auto simp: hi_of_go)

lemma validateReshardPartition_Ok:
  "validateReshardPartition source targets = Ok () \<longleftrightarrow> 2 \<le> length targets \<and>
     (let rs = map of_go (sort_key gk_start targets)
      in lo (hd rs) = lo (of_go source) \<and> adjacent rs \<and> hi (last rs) = hi (of_go source))"
proof (cases "length targets < 2")
  case True
  then show ?thesis by (simp add: validateReshardPartition_def)
next
  case False
  let ?ts = "sort_key gk_start targets"
  have ne: "?ts \<noteq> []" using False by (metis length_sort list.size(3) zero_less_numeral)
  show ?thesis
  proof (cases "target_windows ?ts")
    case (Inl e)
    then have "\<not> adjacent (map of_go ?ts)" using target_windows_Ok [of ?ts] by auto
    with Inl False show ?thesis by (simp add: validateReshardPartition_def Let_def)
  next
    case (Inr u)
    then have "adjacent (map of_go ?ts)" using target_windows_Ok [of ?ts] by simp
    with Inr False ne show ?thesis
      by (auto simp: validateReshardPartition_def Let_def hd_map last_map hi_of_go_eq)
  qed
qed

lemma times_covered_mset: "mset rs = mset ss \<Longrightarrow> times_covered rs key = times_covered ss key"
  unfolding times_covered_def by (metis mset_filter size_mset)

lemma sorted_starts: "sorted (map lo (map of_go (sort_key gk_start targets)))"
proof -
  have "sorted (map gk_start (sort_key gk_start targets))" by simp
  then show ?thesis by (auto simp: sorted_iff_nth_mono word_le_nat_alt)
qed

lemma adjacent_append:
  "adjacent (xs @ ys) \<longleftrightarrow> adjacent xs \<and> adjacent ys \<and> (xs \<noteq> [] \<longrightarrow> ys \<noteq> [] \<longrightarrow> hi (last xs) = lo (hd ys))"
proof (induction xs rule: induct_list012)
  case (2 x)
  then show ?case by (cases ys) (auto simp: adjacent_Cons_Cons adjacent_def [of "[_]"] adjacent_def [of "[]"])
next
  case (3 x y zs)
  then show ?case by (simp add: adjacent_Cons_Cons)
qed (simp add: adjacent_def)

section \<open>Properties\<close>

text \<open>C17: The operator's Go arithmetic is in lockstep with the Rust data plane. On every range the Rust code can
  represent, membership, intersection and printing agree; every text parses to the same bound or range in
  both, or in neither; the same lists of ranges are accepted as partitions; even splitting never panics and
  yields the same parts; and the operator's hash of every key is the keyspace id the router computes.\<close>

theorem operator_lockstep:
  assumes "wf_range (of_go r)"
  shows "go_contains r key = contains (of_go r) key \<and> go_intersects r r' = intersects (of_go r) (of_go r')
    \<and> go_range_string r = key_range_to_string (of_go r)
    \<and> ok_of (ParseBound s) = ok_of (parse_bound s)
    \<and> map_option of_go (ok_of (ParseKeyRange s)) = ok_of (key_range_from_str s)
    \<and> (ValidatePartition rs = Ok () \<longleftrightarrow> validate_partition (map of_go rs) = Ok ())
    \<and> (\<exists>res. SplitEvenly r parts = Some res \<and> map_option (map of_go) (ok_of res) = ok_of (split_evenly (of_go r) parts))
    \<and> HashInt64 (\<lambda>b. xxh64 b 0) i = keyspace_id xxh64 XxHash64V1 (Int64 i)
    \<and> HashText (\<lambda>b. xxh64 b 0) t = keyspace_id xxh64 XxHash64V1 (Text t)
    \<and> HashUUID (\<lambda>b. xxh64 b 0) u = keyspace_id xxh64 XxHash64V1 (Uuid u)
    \<and> HashBytes (\<lambda>b. xxh64 b 0) u = keyspace_id xxh64 XxHash64V1 (Bytea u)"
  using SplitEvenly_eq [OF assms, of parts]
  by (simp add: go_contains_eq go_intersects_eq go_range_string_eq ParseBound_eq ParseKeyRange_eq ValidatePartition_Ok
      HashInt64_def HashText_def HashUUID_def HashBytes_def)

theorem operator_lockstep_witness:
  "wf_range (of_go FullRange) \<and> go_contains FullRange 7
   \<and> (\<exists>res. SplitEvenly FullRange 3 = Some res \<and> map_option (map of_go) (ok_of res) = ok_of (split_evenly (of_go FullRange) 3))"
proof -
  have wf: "wf_range (of_go FullRange)" by (simp add: wf_range_def FullRange_def of_go_def)
  show ?thesis
    using wf operator_lockstep [OF wf, of 7 FullRange "[]" "[]" 3 "\<lambda>_ _. 0" 0 "[]" "[]"]
    by (simp add: FullRange_def go_contains_def)
qed

text \<open>C16: A reshard is accepted exactly when its targets partition the source. The check answers \<open>Ok\<close> exactly when
  there are at least two targets and every keyspace id lies in exactly one target if the source contains it
  and in none otherwise, whatever the order the targets are listed in.\<close>

theorem reshard_partition_exact:
  assumes "wf_range (of_go source)" and "\<forall>t \<in> set targets. wf_range (of_go t)"
  shows "validateReshardPartition source targets = Ok () \<longleftrightarrow>
    2 \<le> length targets \<and>
    (\<forall>key. length (filter (\<lambda>t. go_contains t key) targets) = (if go_contains source key then 1 else 0))"
proof -
  let ?rs = "map of_go (sort_key gk_start targets)"
  have count: "times_covered ?rs key = length (filter (\<lambda>t. go_contains t key) targets)" for key
    using times_covered_mset [of ?rs "map of_go targets" key]
    by (simp add: times_covered_def filter_map comp_def go_contains_eq)
  have wf: "\<forall>r \<in> set ?rs. wf_range r" using assms(2) by simp
  have src: "go_contains source key \<longleftrightarrow> lo (of_go source) \<le> unat key \<and> unat key < hi (of_go source)" for key
    by (simp only: go_contains_eq contains_iff)
  show ?thesis
  proof (cases "2 \<le> length targets")
    case True
    then have ne: "?rs \<noteq> []" by (metis length_map length_sort list.size(3) not_numeral_le_zero)
    have "(\<forall>key. times_covered ?rs key = (if go_contains source key then 1 else 0)) \<longleftrightarrow>
        lo (hd ?rs) = lo (of_go source) \<and> adjacent ?rs \<and> hi (last ?rs) = hi (of_go source)" (is "?l \<longleftrightarrow> ?r")
    proof
      assume ?l
      then have "covers_once ?rs (lo (of_go source)) (hi (of_go source))"
        using wf ne assms(1) sorted_starts hi_le [of "of_go source"]
        by (simp only: covers_once_def src wf_range_iff) simp
      then show ?r using covers_once_adjacent covers_once_ends by blast
    next
      assume ?r
      then show ?l using adjacent_covers_once [OF _ wf ne] src by simp
    qed
    with True show ?thesis by (simp only: validateReshardPartition_Ok count Let_def)
  qed (simp add: validateReshardPartition_Ok)
qed

theorem reshard_partition_exact_witness:
  "\<exists>source a b. wf_range (of_go source) \<and> validateReshardPartition source [b, a] = Ok ()
     \<and> length (filter (\<lambda>t. go_contains t 7) [b, a]) = 1"
proof -
  let ?a = "\<lparr>gk_start = 0, gk_end = 8, gk_closed = True\<rparr>" and ?b = "\<lparr>gk_start = 8, gk_end = 0, gk_closed = False\<rparr>"
  have wf: "wf_range (of_go FullRange)" "wf_range (of_go ?a)" "wf_range (of_go ?b)"
    by (simp_all add: wf_range_def FullRange_def of_go_def)
  have "validateReshardPartition FullRange [?b, ?a] = Ok ()"
    by (simp add: validateReshardPartition_def FullRange_def Let_def)
  then have "length (filter (\<lambda>t. go_contains t 7) [?b, ?a]) = 1"
    using reshard_partition_exact [of FullRange "[?b, ?a]"] wf by (simp add: FullRange_def go_contains_def)
  then show ?thesis using wf \<open>validateReshardPartition FullRange [?b, ?a] = Ok ()\<close> by blast
qed

text \<open>C18: Resharding never breaks the keyspace. Replacing a serving range by targets that the check accepted leaves
  a list of serving ranges that still partitions the whole keyspace.\<close>

theorem reshard_keeps_partition:
  assumes "ValidatePartition (before @ source # after) = Ok ()" and "validateReshardPartition source targets = Ok ()"
  shows "ValidatePartition (before @ sort_key gk_start targets @ after) = Ok ()"
proof -
  let ?rs = "map of_go (sort_key gk_start targets)"
  have ne: "?rs \<noteq> []" and rs: "lo (hd ?rs) = lo (of_go source)" "adjacent ?rs" "hi (last ?rs) = hi (of_go source)"
    using assms(2) by (auto simp: validateReshardPartition_Ok Let_def simp flip: length_0_conv)
  have "adjacent (map of_go before @ [of_go source] @ map of_go after)"
    using assms(1) by (simp add: ValidatePartition_Ok validate_partition_Ok)
  then have "adjacent (map of_go before @ ?rs @ map of_go after)"
    unfolding adjacent_append using rs ne by auto
  then show ?thesis using assms(1) rs ne
    by (cases before; cases after) (auto simp: ValidatePartition_Ok validate_partition_Ok hd_append last_append)
qed

theorem reshard_keeps_partition_witness:
  "ValidatePartition [\<lparr>gk_start = 0, gk_end = 8, gk_closed = True\<rparr>, \<lparr>gk_start = 8, gk_end = 0, gk_closed = False\<rparr>] = Ok ()"
proof -
  let ?a = "\<lparr>gk_start = 0, gk_end = 8, gk_closed = True\<rparr>" and ?b = "\<lparr>gk_start = 8, gk_end = 0, gk_closed = False\<rparr>"
  have "ValidatePartition ([] @ FullRange # []) = Ok ()" by (simp add: ValidatePartition_def FullRange_def)
  moreover have "validateReshardPartition FullRange [?b, ?a] = Ok ()"
    by (simp add: validateReshardPartition_def FullRange_def Let_def)
  ultimately have "ValidatePartition ([] @ sort_key gk_start [?b, ?a] @ []) = Ok ()" by (rule reshard_keeps_partition)
  then show ?thesis by simp
qed

end
