(* ===== verification/Compiler.thy ===== *)
theory Compiler
  imports Operator_Ranges Router "HOL-Library.Product_Lexorder"
begin

text \<open>
  The routing compiler of the operator (\<open>operator/internal/routing/compiler.go\<close>), the cutover gates of
  \<open>operator/internal/controller/pgshardrouting_controller.go\<close>, and the path of a compiled spec to a router: the
  router reads the spec's JSON form, so \<open>decode_topology\<close> is what the serde attributes of
  \<open>pgshard-topo/src/model.rs\<close> make of the fields the Go struct tags emit. Only the fields the compiler reads
  are part of the modelled objects. A Go map is a partial function, a nil slice is the empty list (the
  compiler's equality does not tell them apart), error texts are kept as data. Lower-casing of non-ASCII text
  is the parameter \<open>unicode_lower\<close>, the printed form of a time the parameter \<open>rfc3339\<close>.
\<close>

section \<open>Definitions\<close>

subsection \<open>Kubernetes objects\<close>

record go_endpoint =
  ge_pod :: string
  ge_host :: string
  ge_port :: i32
  ge_can_read :: bool

record instance_state =
  inst_pod :: string
  inst_role :: string
  inst_ready :: bool

record crd_shard =
  sh_name :: string
  sh_key_range :: crd_key_range
  sh_role :: string
  sh_serving :: bool
  sh_instances :: "instance_state list"
  sh_current_primary :: string

record crd_table =
  ct_schema :: string
  ct_name :: string
  ct_type :: string
  ct_key_column :: string
  ct_key_type :: string
  ct_sequences :: "topo_sequence list"

record table_config =
  tc_name :: string
  tc_tables :: "crd_table list"

record routing_gate =
  rg_id :: string
  rg_all :: bool
  rg_tables :: "string list"
  rg_key_ranges :: "crd_key_range list"
  rg_mode :: string
  rg_deadline :: int
  rg_min_generation :: i64

record routing_shard =
  rs_name :: string
  rs_key_range :: crd_key_range
  rs_state :: string
  rs_primary :: "go_endpoint option"
  rs_replicas :: "go_endpoint list"

record routing_spec =
  sp_epoch :: i64
  sp_generation :: i64
  sp_write_lease :: i32
  sp_hash_function :: string
  sp_shards :: "routing_shard list"
  sp_tables :: "crd_table list"
  sp_gates :: "routing_gate list"
  sp_sequence_endpoint :: "go_endpoint option"

record compile_inputs =
  ci_router_lease :: "i32 option"
  ci_hash_function :: string
  ci_shards :: "crd_shard list"
  ci_table_configs :: "table_config list"
  ci_endpoints :: "string \<rightharpoonup> go_endpoint"
  ci_gates :: "routing_gate list"

datatype compile_error =
    DuplicateGate string
  | TwoSystemShards
  | BadShardRange string go_range_error
  | NotPartition go_range_error
  | DuplicateTableError string string string

subsection \<open>Compilation\<close>

definition write_lease_of :: "i32 option \<Rightarrow> i32" where
  "write_lease_of rt = (case rt of Some l \<Rightarrow> if 0 <s l then l else 10 | None \<Rightarrow> 10)"

fun duplicate_gate :: "string set \<Rightarrow> routing_gate list \<Rightarrow> string option" where
  "duplicate_gate ids [] = None"
| "duplicate_gate ids (g # gs) = (if rg_id g \<in> ids then Some (rg_id g) else duplicate_gate (insert (rg_id g) ids) gs)"

definition primaryEndpoint :: "(string \<rightharpoonup> go_endpoint) \<Rightarrow> instance_state list \<Rightarrow> string \<Rightarrow> go_endpoint option" where
  "primaryEndpoint endpoints instances primary =
     (if primary = [] then None
      else case List.find (\<lambda>inst. inst_pod inst = primary) instances of
          None \<Rightarrow> None
        | Some inst \<Rightarrow>
            if \<not> inst_ready inst \<or> inst_role inst \<noteq> ''primary'' then None else endpoints primary)"

definition replicaEndpoints :: "(string \<rightharpoonup> go_endpoint) \<Rightarrow> instance_state list \<Rightarrow> string \<Rightarrow> go_endpoint list" where
  "replicaEndpoints endpoints instances primary =
     sort_key ge_pod (List.map_filter (\<lambda>inst.
       if inst_role inst \<noteq> ''replica'' \<or> inst_pod inst = primary then None
       else map_option (\<lambda>ep. ep\<lparr>ge_can_read := inst_ready inst\<rparr>) (endpoints (inst_pod inst))) instances)"

definition shard_order :: "crd_shard \<Rightarrow> string \<times> string \<times> string" where
  "shard_order s = (ck_start (sh_key_range s), ck_end (sh_key_range s), sh_name s)"

definition compile_entry :: "(string \<rightharpoonup> go_endpoint) \<Rightarrow> crd_shard \<Rightarrow> routing_shard" where
  "compile_entry endpoints s =
     \<lparr>rs_name = sh_name s, rs_key_range = sh_key_range s, rs_state = (if sh_serving s then ''serving'' else ''hidden''),
      rs_primary = primaryEndpoint endpoints (sh_instances s) (sh_current_primary s),
      rs_replicas = replicaEndpoints endpoints (sh_instances s) (sh_current_primary s)\<rparr>"

fun compile_shards ::
    "(string \<rightharpoonup> go_endpoint) \<Rightarrow> crd_shard list \<Rightarrow> bool \<Rightarrow> go_key_range list \<Rightarrow> go_endpoint option \<Rightarrow> routing_shard list
     \<Rightarrow> compile_error + go_key_range list \<times> go_endpoint option \<times> routing_shard list" where
  "compile_shards endpoints [] system_seen serving sequence entries = Ok (serving, sequence, entries)"
| "compile_shards endpoints (s # shards) system_seen serving sequence entries =
     (if sh_role s = ''system'' then
        (if system_seen then Err TwoSystemShards
         else compile_shards endpoints shards True serving
           (case primaryEndpoint endpoints (sh_instances s) (sh_current_primary s) of Some ep \<Rightarrow> Some ep | None \<Rightarrow> sequence) entries)
      else bind_res (map_err (BadShardRange (sh_name s)) (toRange (sh_key_range s))) (\<lambda>kr.
        compile_shards endpoints shards system_seen (if sh_serving s then serving @ [kr] else serving) sequence
          (entries @ [compile_entry endpoints s])))"

definition to_lower :: "(string \<Rightarrow> string) \<Rightarrow> string \<Rightarrow> string" where
  "to_lower unicode_lower s =
     (if list_all (\<lambda>c. of_char c < (128 :: nat)) s
      then map (\<lambda>c. if of_char c \<ge> (65 :: nat) \<and> of_char c \<le> (90 :: nat) then char_of (of_char c + 32 :: nat) else c) s
      else unicode_lower s)"

definition compile_table :: "crd_table \<Rightarrow> crd_table" where
  "compile_table t = t\<lparr>ct_schema := if ct_schema t = [] then ''public'' else ct_schema t,
     ct_sequences := sort_key (\<lambda>s. (sq_column s, sq_sequence s)) (ct_sequences t)\<rparr>"

definition table_key :: "(string \<Rightarrow> string) \<Rightarrow> crd_table \<Rightarrow> string" where
  "table_key unicode_lower t = to_lower unicode_lower ((if ct_schema t = [] then ''public'' else ct_schema t) @ ''.'' @ ct_name t)"

fun fold_tables ::
    "(string \<Rightarrow> string) \<Rightarrow> (string \<times> crd_table) list \<Rightarrow> (string \<rightharpoonup> string) \<Rightarrow> crd_table list \<Rightarrow> compile_error + crd_table list" where
  "fold_tables unicode_lower [] owners tables = Ok tables"
| "fold_tables unicode_lower ((config, t) # rest) owners tables =
     (let key = table_key unicode_lower t in
      case owners key of
        Some first \<Rightarrow> Err (DuplicateTableError key first config)
      | None \<Rightarrow> fold_tables unicode_lower rest (owners(key \<mapsto> config)) (tables @ [compile_table t]))"

definition compileTables :: "(string \<Rightarrow> string) \<Rightarrow> table_config list \<Rightarrow> compile_error + crd_table list" where
  "compileTables unicode_lower configs =
     bind_res (fold_tables unicode_lower
         (concat (map (\<lambda>tc. map (Pair (tc_name tc)) (tc_tables tc)) (sort_key tc_name configs))) Map.empty [])
       (\<lambda>tables. Ok (sort_key (\<lambda>t. (ct_schema t, ct_name t)) tables))"

definition Compile :: "(string \<Rightarrow> string) \<Rightarrow> compile_inputs \<Rightarrow> compile_error + routing_spec" where
  "Compile unicode_lower inp =
     (case duplicate_gate {} (ci_gates inp) of
        Some i \<Rightarrow> Err (DuplicateGate i)
      | None \<Rightarrow>
          bind_res (compile_shards (ci_endpoints inp) (sort_key shard_order (ci_shards inp)) False [] None []) (\<lambda>(serving, sequence, entries).
          bind_res (map_err NotPartition (ValidatePartition serving)) (\<lambda>_.
          bind_res (compileTables unicode_lower (ci_table_configs inp)) (\<lambda>tables.
            Ok \<lparr>sp_epoch = 0, sp_generation = 0, sp_write_lease = write_lease_of (ci_router_lease inp),
               sp_hash_function = ci_hash_function inp, sp_shards = entries, sp_tables = tables,
               sp_gates = sort_key rg_id (ci_gates inp), sp_sequence_endpoint = sequence\<rparr>))))"

subsection \<open>Versioned writes\<close>

definition specEquivalent :: "routing_spec \<Rightarrow> routing_spec \<Rightarrow> bool" where
  "specEquivalent a b \<longleftrightarrow> a\<lparr>sp_epoch := 0, sp_generation := 0\<rparr> = b\<lparr>sp_epoch := 0, sp_generation := 0\<rparr>"

definition sameStructuralShard :: "routing_shard \<Rightarrow> routing_shard \<Rightarrow> bool" where
  "sameStructuralShard a b \<longleftrightarrow> rs_name a = rs_name b \<and> rs_key_range a = rs_key_range b \<and> rs_state a = rs_state b"

definition structuralChange :: "routing_spec \<Rightarrow> routing_spec \<Rightarrow> bool" where
  "structuralChange old updated \<longleftrightarrow>
     \<not> list_all2 sameStructuralShard (sp_shards old) (sp_shards updated) \<or> sp_tables old \<noteq> sp_tables updated"

datatype write_action = CreateSpec routing_spec | KeepSpec i64 | UpdateSpec routing_spec

text \<open>One turn of the write loop, on the object it read.\<close>

definition write_attempt :: "routing_spec option \<Rightarrow> routing_spec \<Rightarrow> write_action" where
  "write_attempt current desired =
     (case current of
        None \<Rightarrow> CreateSpec (desired\<lparr>sp_epoch := 1, sp_generation := 1\<rparr>)
      | Some cur \<Rightarrow>
          if specEquivalent cur desired then KeepSpec (sp_epoch cur)
          else let desired = desired\<lparr>sp_epoch := sp_epoch cur + 1, sp_generation := sp_generation cur\<rparr>
               in UpdateSpec (if structuralChange cur desired then desired\<lparr>sp_generation := sp_generation desired + 1\<rparr> else desired))"

subsection \<open>Cutover gates\<close>

record reshard_gate_view =
  rv_name :: string
  rv_cluster_ref :: string
  rv_source_shard :: string
  rv_gate_deadline :: "int option"
  rv_switch_committed :: bool

datatype gate_error = CommittedSourceServes string string | GatedSourceMissing string string

definition shardsByName :: "crd_shard list \<Rightarrow> string \<rightharpoonup> crd_shard" where
  "shardsByName shards = map_of (rev (map (\<lambda>s. (sh_name s, s)) shards))"

fun cutoverGates :: "string \<Rightarrow> crd_shard list \<Rightarrow> reshard_gate_view list \<Rightarrow> gate_error + routing_gate list" where
  "cutoverGates cluster shards [] = Ok []"
| "cutoverGates cluster shards (rs # reshards) =
     (if rv_cluster_ref rs \<noteq> cluster then cutoverGates cluster shards reshards
      else case rv_gate_deadline rs of
          None \<Rightarrow>
            if rv_switch_committed rs \<and> (case shardsByName shards (rv_source_shard rs) of Some s \<Rightarrow> sh_serving s | None \<Rightarrow> False)
            then Err (CommittedSourceServes (rv_name rs) (rv_source_shard rs))
            else cutoverGates cluster shards reshards
        | Some deadline \<Rightarrow>
            (case shardsByName shards (rv_source_shard rs) of
               None \<Rightarrow> Err (GatedSourceMissing (rv_name rs) (rv_source_shard rs))
             | Some source \<Rightarrow>
                 bind_res (cutoverGates cluster shards reshards) (\<lambda>gates.
                   Ok (\<lparr>rg_id = ''reshard-'' @ rv_name rs, rg_all = False, rg_tables = [], rg_key_ranges = [sh_key_range source],
                        rg_mode = ''bufferWrites'', rg_deadline = deadline, rg_min_generation = 0\<rparr> # gates))))"

subsection \<open>Reading a spec as a topology\<close>

definition decode_u64 :: "i64 \<Rightarrow> u64 option" where
  "decode_u64 n = (if n <s 0 then None else Some n)"

definition decode_instance :: "go_endpoint \<Rightarrow> topo_instance option" where
  "decode_instance ep =
     (if ge_port ep = 0 then Some \<lparr>in_pod = ge_pod ep, in_host = ge_host ep, in_port = 5432, in_can_read = ge_can_read ep\<rparr>
      else if ge_port ep <s 0 \<or> 65535 <s ge_port ep then None
      else Some \<lparr>in_pod = ge_pod ep, in_host = ge_host ep, in_port = ucast (ge_port ep), in_can_read = ge_can_read ep\<rparr>)"

definition decode_opt :: "('a \<Rightarrow> 'b option) \<Rightarrow> 'a option \<Rightarrow> 'b option option" where
  "decode_opt f x = (case x of None \<Rightarrow> Some None | Some y \<Rightarrow> map_option Some (f y))"

definition decode_state :: "string \<Rightarrow> shard_state option" where
  "decode_state s =
     (if s = ''serving'' then Some Serving else if s = ''buffered'' then Some Buffered
      else if s = ''readOnly'' then Some ReadOnly else if s = ''draining'' then Some Draining
      else if s = ''hidden'' then Some Hidden else None)"

definition decode_range :: "crd_key_range \<Rightarrow> key_range option" where
  "decode_range kr = ok_of (into_range \<lparr>bd_start = ck_start kr, bd_end = ck_end kr\<rparr>)"

definition decode_shard :: "routing_shard \<Rightarrow> shard_entry option" where
  "decode_shard s =
     Option.bind (decode_range (rs_key_range s)) (\<lambda>kr.
     Option.bind (decode_state (rs_state s)) (\<lambda>state.
     Option.bind (decode_opt decode_instance (rs_primary s)) (\<lambda>primary.
     map_option (\<lambda>replicas. \<lparr>se_name = rs_name s, se_key_range = kr, se_state = state, se_primary = primary, se_replicas = replicas\<rparr>)
       (collect_opt decode_instance (rs_replicas s)))))"

definition decode_table_type :: "string \<Rightarrow> table_type option" where
  "decode_table_type s = (if s = ''sharded'' then Some TableSharded else if s = ''global'' then Some TableGlobal else None)"

definition decode_key_type :: "string \<Rightarrow> shard_key_type option" where
  "decode_key_type s =
     (if s = ''int'' then Some KeyInt else if s = ''text'' then Some KeyText
      else if s = ''uuid'' then Some KeyUuid else if s = ''bytea'' then Some KeyBytea else None)"

definition omitempty :: "string \<Rightarrow> string option" where
  "omitempty s = (if s = [] then None else Some s)"

definition decode_table :: "crd_table \<Rightarrow> table_entry option" where
  "decode_table t =
     Option.bind (decode_table_type (ct_type t)) (\<lambda>ty.
     map_option (\<lambda>kt. \<lparr>te_schema = ct_schema t, te_name = ct_name t, te_table_type = ty,
         te_shard_key_column = omitempty (ct_key_column t), te_shard_key_type = kt, te_sequences = ct_sequences t\<rparr>)
       (decode_opt decode_key_type (omitempty (ct_key_type t))))"

definition decode_gate :: "(int \<Rightarrow> string) \<Rightarrow> routing_gate \<Rightarrow> topo_gate_spec option" where
  "decode_gate rfc3339 g =
     Option.bind (collect_opt decode_range (rg_key_ranges g)) (\<lambda>krs.
     Option.bind (if rg_mode g = [] \<or> rg_mode g = ''bufferWrites'' then Some BufferWrites
                  else if rg_mode g = ''bufferAll'' then Some BufferAll else None) (\<lambda>mode.
     map_option (\<lambda>gen. \<lparr>tgs_id = rg_id g, tgs_match = \<lparr>tgm_all = rg_all g, tgm_tables = rg_tables g, tgm_key_ranges = krs\<rparr>,
         tgs_mode = mode, tgs_deadline = rfc3339 (rg_deadline g), tgs_min_topology_generation = gen\<rparr>)
       (decode_u64 (rg_min_generation g))))"

definition decode_topology :: "(int \<Rightarrow> string) \<Rightarrow> routing_spec \<Rightarrow> topology option" where
  "decode_topology rfc3339 sp =
     Option.bind (decode_u64 (sp_epoch sp)) (\<lambda>epoch.
     Option.bind (decode_u64 (sp_generation sp)) (\<lambda>generation.
     Option.bind (if sp_write_lease sp <s 0 then None else Some (if sp_write_lease sp = 0 then default_write_lease_seconds else sp_write_lease sp)) (\<lambda>lease.
     Option.bind (collect_opt decode_shard (sp_shards sp)) (\<lambda>shards.
     Option.bind (collect_opt decode_table (sp_tables sp)) (\<lambda>tables.
     Option.bind (collect_opt (decode_gate rfc3339) (sp_gates sp)) (\<lambda>gates.
     map_option (\<lambda>sequence. \<lparr>t_epoch = epoch, t_topology_generation = generation, t_write_lease_seconds = lease,
         t_hash_function = (if sp_hash_function sp = [] then default_hash_function else sp_hash_function sp),
         t_shards = shards, t_tables = tables, t_gates = gates, t_sequence_endpoint = sequence\<rparr>)
       (decode_opt decode_instance (sp_sequence_endpoint sp))))))))"

section \<open>What admission guarantees\<close>

text \<open>Object names are unique, and the other conditions are the validation rules of the resource definitions,
  except that the columns a table binds to sequences are distinct, which no rule demands.\<close>

definition is_data :: "crd_shard \<Rightarrow> bool" where
  "is_data s \<longleftrightarrow> sh_role s \<noteq> ''system''"

definition crd_table_ok :: "crd_table \<Rightarrow> bool" where
  "crd_table_ok t \<longleftrightarrow> ct_name t \<noteq> [] \<and>
     (ct_type t = ''sharded'' \<and> ct_key_column t \<noteq> [] \<and> decode_key_type (ct_key_type t) \<noteq> None
      \<or> ct_type t = ''global'' \<and> (ct_key_type t = [] \<or> decode_key_type (ct_key_type t) \<noteq> None))"

definition port_ok :: "go_endpoint \<Rightarrow> bool" where
  "port_ok ep \<longleftrightarrow> decode_instance ep \<noteq> None"

definition admitted :: "compile_inputs \<Rightarrow> bool" where
  "admitted inp \<longleftrightarrow> distinct (map sh_name (ci_shards inp))
     \<and> (\<forall>s \<in> set (ci_shards inp). crd_bound_ok (ck_start (sh_key_range s)) \<and> crd_bound_ok (ck_end (sh_key_range s)))
     \<and> (\<forall>ep \<in> ran (ci_endpoints inp). port_ok ep)
     \<and> write_lease_of (ci_router_lease inp) \<le>s 60 \<and> (ci_hash_function inp = [] \<or> ci_hash_function inp = ''xxhash64_v1'')
     \<and> (\<forall>tc \<in> set (ci_table_configs inp). \<forall>t \<in> set (tc_tables tc). crd_table_ok t)"

definition sequences_distinct :: "compile_inputs \<Rightarrow> bool" where
  "sequences_distinct inp \<longleftrightarrow>
     (\<forall>tc \<in> set (ci_table_configs inp). \<forall>t \<in> set (tc_tables tc). distinct (map sq_column (ct_sequences t)))"

lemma bound_char_dash: "list_all bound_char s \<Longrightarrow> CHR ''-'' \<notin> set s"
  by (auto simp: list_all_iff bound_char_def is_ascii_digit_def Let_def)

lemma crd_bound_dash: "crd_bound_ok s \<Longrightarrow> CHR ''-'' \<notin> set s"
  using bound_char_dash by (auto simp: crd_bound_ok_def)

lemma toRange_decode:
  assumes "crd_bound_ok (ck_start kr)" and "crd_bound_ok (ck_end kr)" and "toRange kr = Ok g"
  shows "decode_range kr = Some (of_go g)" and "wf_range (of_go g)"
proof -
  obtain v w where v: "parse_bound (ck_start kr) = Ok v" "format_bound v = ck_start kr"
      and w: "parse_bound (ck_end kr) = Ok w" "format_bound w = ck_end kr"
    using crd_bound_canonical assms by meson
  have "ok_of (key_range_from_str (ck_start kr @ ''-'' @ ck_end kr)) = Some (of_go g)"
    using assms(3) ParseKeyRange_eq [of "ck_start kr @ ''-'' @ ck_end kr"] by (simp add: toRange_def ok_of_def)
  then have new: "key_range_new v (if ck_end kr = [] then None else Some w) = Ok (of_go g)"
    using v w crd_bound_dash [OF assms(1)]
    by (auto simp: key_range_from_str_def ok_of_def split: sum.splits if_splits)
  then show "decode_range kr = Some (of_go g)" using v w
    by (auto simp: decode_range_def into_range_def canonical_bound_def ok_of_def map_err_def)
  show "wf_range (of_go g)" using key_range_new_wf [OF new] .
qed

abbreviation serves :: "crd_shard \<Rightarrow> bool" where
  "serves s \<equiv> is_data s \<and> sh_serving s"

lemma primaryEndpoint_ran: "primaryEndpoint eps insts primary = Some ep \<Longrightarrow> ep \<in> ran eps"
  by (auto simp: primaryEndpoint_def ran_def split: option.splits if_splits)

lemma compile_shards_Ok:
  assumes "compile_shards eps ss seen serving sequence entries = Ok (serving', sequence', entries')"
  shows "entries' = entries @ map (compile_entry eps) (filter is_data ss)
    \<and> (\<exists>krs. list_all2 (\<lambda>s kr. toRange (sh_key_range s) = Ok kr) (filter serves ss) krs \<and> serving' = serving @ krs)
    \<and> (\<forall>s \<in> set ss. is_data s \<longrightarrow> (\<exists>kr. toRange (sh_key_range s) = Ok kr))
    \<and> (\<forall>ep. sequence' = Some ep \<longrightarrow> sequence = Some ep \<or> ep \<in> ran eps)"
  using assms
proof (induction ss arbitrary: seen serving sequence entries)
  case (Cons s ss)
  show ?case
  proof (cases "is_data s")
    case True
    then obtain kr where kr: "toRange (sh_key_range s) = Ok kr"
        and rec: "compile_shards eps ss seen (if sh_serving s then serving @ [kr] else serving) sequence
          (entries @ [compile_entry eps s]) = Ok (serving', sequence', entries')"
      using Cons.prems by (auto simp: is_data_def bind_res_eq_Inr)
    from Cons.IH [OF rec] show ?thesis using True kr by (cases "sh_serving s") (auto simp: list_all2_Cons1)
  next
    case False
    let ?seq = "case primaryEndpoint eps (sh_instances s) (sh_current_primary s) of Some ep \<Rightarrow> Some ep | None \<Rightarrow> sequence"
    from False have rec: "compile_shards eps ss True serving ?seq entries = Ok (serving', sequence', entries')"
      using Cons.prems by (auto simp: is_data_def split: if_splits)
    have "?seq = Some ep \<Longrightarrow> sequence = Some ep \<or> ep \<in> ran eps" for ep
      using primaryEndpoint_ran by (auto split: option.splits)
    with Cons.IH [OF rec] show ?thesis using False by auto
  qed
qed simp

lemma decode_instance_the: "port_ok ep \<Longrightarrow> decode_instance ep = Some (the (decode_instance ep))"
  by (simp add: port_ok_def)

lemma port_ok_can_read: "port_ok (ep\<lparr>ge_can_read := b\<rparr>) = port_ok ep"
  by (simp add: port_ok_def decode_instance_def)

lemma replicaEndpoints_ok: "\<forall>ep \<in> ran eps. port_ok ep \<Longrightarrow> ep \<in> set (replicaEndpoints eps insts primary) \<Longrightarrow> port_ok ep"
  by (auto simp: replicaEndpoints_def List.map_filter_def port_ok_can_read ran_def split: if_splits)

definition compiled_primary :: "(string \<rightharpoonup> go_endpoint) \<Rightarrow> crd_shard \<Rightarrow> topo_instance option" where
  "compiled_primary eps s = map_option (\<lambda>ep. the (decode_instance ep)) (primaryEndpoint eps (sh_instances s) (sh_current_primary s))"

lemma decode_compile_entry:
  assumes "\<forall>ep \<in> ran eps. port_ok ep" and "decode_range (sh_key_range s) = Some kr"
  shows "\<exists>replicas. decode_shard (compile_entry eps s) = Some \<lparr>se_name = sh_name s, se_key_range = kr,
     se_state = (if sh_serving s then Serving else Hidden), se_primary = compiled_primary eps s, se_replicas = replicas\<rparr>"
proof -
  have "decode_opt decode_instance (primaryEndpoint eps (sh_instances s) (sh_current_primary s)) = Some (compiled_primary eps s)"
    using assms(1) primaryEndpoint_ran [of eps "sh_instances s" "sh_current_primary s"]
    by (cases "primaryEndpoint eps (sh_instances s) (sh_current_primary s)") (auto simp: decode_opt_def compiled_primary_def port_ok_def)
  moreover obtain rs where "collect_opt decode_instance (replicaEndpoints eps (sh_instances s) (sh_current_primary s)) = Some rs"
    using replicaEndpoints_ok [OF assms(1)] collect_opt_the [of "replicaEndpoints eps (sh_instances s) (sh_current_primary s)" decode_instance]
    by (auto simp: port_ok_def)
  ultimately show ?thesis using assms(2)
    by (simp add: decode_shard_def compile_entry_def decode_state_def)
qed

subsection \<open>Tables\<close>

definition config_tables :: "table_config list \<Rightarrow> (string \<times> crd_table) list" where
  "config_tables configs = concat (map (\<lambda>tc. map (Pair (tc_name tc)) (tc_tables tc)) (sort_key tc_name configs))"

lemma fold_tables_Ok:
  assumes "fold_tables ul cts owners tables = Ok tables'"
  shows "tables' = tables @ map (\<lambda>(_, t). compile_table t) cts \<and> distinct (map (\<lambda>(_, t). table_key ul t) cts)
    \<and> (\<forall>(_, t) \<in> set cts. owners (table_key ul t) = None)"
  using assms
proof (induction cts arbitrary: owners tables)
  case (Cons ct cts)
  obtain c t where ct: "ct = (c, t)" by force
  then have new: "owners (table_key ul t) = None"
    and rec: "fold_tables ul cts (owners(table_key ul t \<mapsto> c)) (tables @ [compile_table t]) = Ok tables'"
    using Cons.prems by (auto simp: Let_def split: option.splits)
  from Cons.IH [OF rec] show ?case using new ct by (fastforce split: if_splits)
qed simp

lemma compileTables_Ok:
  assumes "compileTables ul configs = Ok tables"
  shows "set tables = (\<lambda>(_, t). compile_table t) ` set (config_tables configs)"
    and "distinct (map (\<lambda>t. (ct_schema t, ct_name t)) tables)"
proof -
  obtain ts where fold: "fold_tables ul (config_tables configs) Map.empty [] = Ok ts"
      and sort: "tables = sort_key (\<lambda>t. (ct_schema t, ct_name t)) ts"
    using assms by (auto simp: compileTables_def config_tables_def bind_res_eq_Inr)
  note f = fold_tables_Ok [OF fold]
  show "set tables = (\<lambda>(_, t). compile_table t) ` set (config_tables configs)" using f sort by simp
  let ?key = "\<lambda>(s, n). to_lower ul (s @ ''.'' @ n)"
  have ts: "ts = map (\<lambda>(_, t). compile_table t) (config_tables configs)" and dist: "distinct (map (\<lambda>(_, t). table_key ul t) (config_tables configs))"
    using f by simp_all
  have "map (\<lambda>(_, t). table_key ul t) (config_tables configs) = map ?key (map (\<lambda>t. (ct_schema t, ct_name t)) ts)"
    unfolding ts map_map by (rule map_cong) (auto simp: table_key_def compile_table_def)
  then have "distinct (map ?key (map (\<lambda>t. (ct_schema t, ct_name t)) ts))" using dist by (simp only:)
  then have "distinct (map (\<lambda>t. (ct_schema t, ct_name t)) ts)" unfolding distinct_map [of ?key] by (rule conjunct1)
  then show "distinct (map (\<lambda>t. (ct_schema t, ct_name t)) tables)" using sort by (simp add: distinct_map)
qed

lemma compiled_table_decodes:
  assumes "crd_table_ok t"
  shows "\<exists>ty kt. decode_table (compile_table t) = Some \<lparr>te_schema = ct_schema (compile_table t), te_name = ct_name t, te_table_type = ty,
      te_shard_key_column = omitempty (ct_key_column t), te_shard_key_type = kt, te_sequences = ct_sequences (compile_table t)\<rparr>
    \<and> (ty = TableSharded \<longrightarrow> ct_key_column t \<noteq> [] \<and> kt \<noteq> None)"
  using assms by (auto simp: crd_table_ok_def compile_table_def decode_table_def decode_table_type_def decode_opt_def omitempty_def decode_key_type_def)

text \<open>What the router demands of a table entry.\<close>

definition entry_builds :: "table_entry \<Rightarrow> bool" where
  "entry_builds t \<longleftrightarrow> te_schema t \<noteq> [] \<and> te_name t \<noteq> [] \<and> distinct (map sq_column (te_sequences t))
     \<and> (te_table_type t = TableSharded \<longrightarrow> (\<exists>c. te_shard_key_column t = Some c \<and> c \<noteq> []) \<and> te_shard_key_type t \<noteq> None)"

lemma distinct_map_head: "distinct (map f (x # xs)) \<Longrightarrow> u \<in> set xs \<Longrightarrow> f u \<noteq> f x"
  by (simp add: image_iff) metis

lemma build_tables_total:
  assumes "is_ok (shard_function (t_hash_function topo))"
    and "\<And>t. t \<in> set ts \<Longrightarrow> entry_builds t"
    and "distinct (map (\<lambda>t. (te_schema t, te_name t)) ts)"
    and "\<And>t. t \<in> set ts \<Longrightarrow> table_name_new (te_schema t) (te_name t) \<notin> dom (vs_tables vs)"
  shows "\<exists>vs'. build_tables topo ts vs = Ok vs'"
  using assms(2,3,4)
proof (induction ts arbitrary: vs)
  case (Cons t ts)
  let ?n = "table_name_new (te_schema t) (te_name t)"
  obtain d where d: "build_table topo t = Ok (?n, d)" "check_def ?n d = Ok ()"
  proof (cases "te_table_type t")
    case TableGlobal
    then show ?thesis using that [of Global] by (simp add: build_table_def check_def_def)
  next
    case TableSharded
    then obtain c k where "te_shard_key_column t = Some c" "c \<noteq> []" "te_shard_key_type t = Some k"
      using Cons.prems(1) [of t] by (auto simp: entry_builds_def)
    moreover have "duplicate_column {} (map (\<lambda>s. \<lparr>sb_column = sq_column s, sb_sequence = sq_sequence s\<rparr>) (te_sequences t)) = None"
      using Cons.prems(1) [of t] by (simp add: duplicate_column_None comp_def entry_builds_def)
    ultimately show ?thesis using TableSharded assms(1) that
      by (simp add: build_table_def check_def_def Let_def)
  qed
  have ins: "vschema_insert vs ?n d = Ok (vs\<lparr>vs_tables := (vs_tables vs)(?n \<mapsto> d)\<rparr>)" (is "_ = Ok ?vs")
    using d Cons.prems(1) [of t] Cons.prems(3) [of t] by (simp add: vschema_insert_def table_name_new_def entry_builds_def)
  have "\<exists>vs'. build_tables topo ts ?vs = Ok vs'"
  proof (rule Cons.IH)
    show "table_name_new (te_schema u) (te_name u) \<notin> dom (vs_tables ?vs)" if "u \<in> set ts" for u
    proof -
      have "(te_schema u, te_name u) \<noteq> (te_schema t, te_name t)" using distinct_map_head [OF Cons.prems(2) that] by simp
      then show ?thesis using Cons.prems(3) [of u] that by (auto simp: table_name_new_def)
    qed
  qed (use Cons.prems in auto)
  then show ?case using d ins by simp
qed simp

subsection \<open>Serving shards\<close>

lemma partition_sorted:
  assumes "validate_partition rs = Ok ()" and "\<forall>r \<in> set rs. wf_range r"
  shows "sorted (map kr_start rs)"
proof -
  have "kr_start (rs ! i) \<le> kr_start (rs ! j)" if "i < j" "j < length rs" for i j
  proof -
    have "hi (rs ! i) \<le> lo (rs ! j)" using assms that by (intro adjacent_le) (simp_all add: validate_partition_Ok)
    moreover have "lo (rs ! i) < hi (rs ! i)" using assms(2) that by (simp add: wf_range_iff)
    ultimately show ?thesis by (simp add: lo_def word_le_nat_alt)
  qed
  then show ?thesis by (auto simp: sorted_iff_nth_mono_less)
qed

lemma collect_serving_total:
  assumes "distinct (map se_name (filter (\<lambda>s. se_state s = Serving) shards))"
    and "\<And>s. s \<in> set shards \<Longrightarrow> se_state s = Serving \<Longrightarrow> map_of primaries (ShardId (se_name s)) = None"
  shows "\<exists>res. collect_serving shards serving primaries = Ok res"
  using assms
proof (induction shards serving primaries rule: collect_serving.induct)
  case (2 shard shards serving primaries)
  show ?case
  proof (cases "se_state shard = Serving")
    case True
    let ?i = "ShardId (se_name shard)"
    have new: "map_of primaries ?i = None" using 2(4) [of shard] True by simp
    have "map_of (insort_key fst (?i, se_primary shard) primaries) (ShardId (se_name s)) = None"
      if "s \<in> set shards" "se_state s = Serving" for s
    proof -
      have "se_name s \<noteq> se_name shard"
        using distinct_map_head [of se_name shard "filter (\<lambda>s. se_state s = Serving) shards" s] 2(3) that True by simp
      then show ?thesis using 2(4) [of s] that by (simp add: map_of_insort [OF new])
    qed
    then show ?thesis using 2(2) [OF _ refl] 2(3) True new by (simp add: Let_def)
  next
    case False
    then show ?thesis using 2 by simp
  qed
qed simp

text \<open>A topology without gates whose serving shards partition the keyspace and whose tables are in order builds.\<close>

lemma router_build_total:
  assumes gates: "t_gates topo = []" and wf: "ranges_wf topo" and names: "distinct (map se_name (serving_shards topo))"
    and part: "validate_partition (map se_key_range (serving_shards topo)) = Ok ()"
    and tables: "build_vschema topo = Ok vs"
  shows "\<exists>r. router_build topo = Ok r"
proof -
  obtain serving primaries where c: "collect_serving (t_shards topo) [] [] = Ok (serving, primaries)"
    using collect_serving_total [of "t_shards topo" "[]" "[]"] names by (auto simp: serving_shards_def)
  have serving: "serving = map (\<lambda>s. (se_key_range s, serving_id s)) (serving_shards topo)"
    using collect_serving_Ok [OF c] by (simp add: serving_shards_def)
  have "sorted (map kr_start (map se_key_range (serving_shards topo)))"
    using part wf by (intro partition_sorted) (auto simp: serving_shards_def ranges_wf_def)
  then have "sort_key (\<lambda>(kr, _). kr_start kr) serving = serving"
    by (intro sort_key_id_if_sorted) (simp add: serving comp_def)
  then have "catalog_new (sort_key (\<lambda>(kr, _). kr_start kr) serving) = Ok \<lparr>sc_shards = serving\<rparr>"
    using part by (simp add: catalog_new_def serving comp_def)
  then show ?thesis using gates tables c by (simp add: router_build_def)
qed

lemma topology_validate_total:
  assumes "t_epoch topo \<noteq> 0" and "t_topology_generation topo \<noteq> 0"
    and "1 \<le> t_write_lease_seconds topo" and "t_write_lease_seconds topo \<le> 60"
    and "is_ok (shard_function (t_hash_function topo))" and "ranges_wf topo"
    and "validate_partition (map se_key_range (serving_shards topo)) = Ok ()"
  shows "topology_validate topo = Ok ()"
proof -
  have "sorted (map kr_start (map se_key_range (serving_shards topo)))"
    using assms by (intro partition_sorted) (auto simp: serving_shards_def ranges_wf_def)
  then have "sort_key kr_start (map se_key_range (serving_shards topo)) = map se_key_range (serving_shards topo)"
    by (intro sort_key_id_if_sorted)
  then show ?thesis using assms
    by (auto simp: topology_validate_def Let_def serving_shards_def is_ok_def split: sum.splits)
qed

subsection \<open>A compiled spec as a topology\<close>

definition versioned :: "i64 \<Rightarrow> i64 \<Rightarrow> routing_spec \<Rightarrow> routing_spec" where
  "versioned epoch generation sp = sp\<lparr>sp_epoch := epoch, sp_generation := generation\<rparr>"

lemma Compile_Ok:
  assumes "Compile ul inp = Ok sp"
  obtains serving krs where
    "sp_shards sp = map (compile_entry (ci_endpoints inp)) (filter is_data (sort_key shard_order (ci_shards inp)))"
    "list_all2 (\<lambda>s kr. toRange (sh_key_range s) = Ok kr) (filter serves (sort_key shard_order (ci_shards inp))) krs"
    "ValidatePartition krs = Ok ()"
    "\<forall>s \<in> set (ci_shards inp). is_data s \<longrightarrow> (\<exists>kr. toRange (sh_key_range s) = Ok kr)"
    "compileTables ul (ci_table_configs inp) = Ok (sp_tables sp)"
    "\<forall>ep. sp_sequence_endpoint sp = Some ep \<longrightarrow> ep \<in> ran (ci_endpoints inp)"
    "sp_gates sp = sort_key rg_id (ci_gates inp)" "sp_hash_function sp = ci_hash_function inp"
    "sp_write_lease sp = write_lease_of (ci_router_lease inp)"
proof -
  obtain serving sequence entries tables where c: "compile_shards (ci_endpoints inp) (sort_key shard_order (ci_shards inp)) False [] None [] = Ok (serving, sequence, entries)"
      "ValidatePartition serving = Ok ()" "compileTables ul (ci_table_configs inp) = Ok tables"
      "sp = \<lparr>sp_epoch = 0, sp_generation = 0, sp_write_lease = write_lease_of (ci_router_lease inp),
               sp_hash_function = ci_hash_function inp, sp_shards = entries, sp_tables = tables,
               sp_gates = sort_key rg_id (ci_gates inp), sp_sequence_endpoint = sequence\<rparr>"
    using assms by (auto simp: Compile_def bind_res_eq_Inr split: option.splits)
  from compile_shards_Ok [OF c(1)] c(2-4) show ?thesis by (intro that) auto
qed

lemma write_lease_decode:
  assumes "write_lease_of l \<le>s 60"
  shows "\<not> write_lease_of l <s 0" and "write_lease_of l \<noteq> 0" and "1 \<le> write_lease_of l" and "write_lease_of l \<le> (60 :: i32)"
proof -
  let ?l = "write_lease_of l"
  have pos: "0 < sint ?l" "sint ?l \<le> 60"
    using assms by (auto simp: write_lease_of_def word_sless_alt word_sle_eq split: option.splits if_splits)
  then have "uint ?l = sint ?l" by (simp add: uint_sint take_bit_int_eq_self)
  then show "1 \<le> ?l" "?l \<le> 60" using pos by (simp_all add: word_le_def)
  show "\<not> ?l <s 0" "?l \<noteq> 0" using pos by (auto simp: word_sless_alt)
qed

lemma collect_opt_map: "collect_opt f (map g xs) = collect_opt (\<lambda>x. f (g x)) xs"
  by (induction xs) (auto split: option.splits)

text \<open>What the router reads of each data shard.\<close>

definition reads_as :: "(string \<rightharpoonup> go_endpoint) \<Rightarrow> crd_shard \<Rightarrow> shard_entry \<Rightarrow> bool" where
  "reads_as eps s e \<longleftrightarrow> se_name e = sh_name s \<and> (\<exists>kr. toRange (sh_key_range s) = Ok kr \<and> se_key_range e = of_go kr)
     \<and> wf_range (se_key_range e) \<and> (se_state e = Serving \<longleftrightarrow> sh_serving s) \<and> se_primary e = compiled_primary eps s"

lemma decode_shard_reads:
  assumes "admitted inp" and "s \<in> set (ci_shards inp)" and "toRange (sh_key_range s) = Ok kr"
  shows "\<exists>e. decode_shard (compile_entry (ci_endpoints inp) s) = Some e \<and> reads_as (ci_endpoints inp) s e"
proof -
  have ok: "crd_bound_ok (ck_start (sh_key_range s))" "crd_bound_ok (ck_end (sh_key_range s))" "\<forall>ep \<in> ran (ci_endpoints inp). port_ok ep"
    using assms by (auto simp: admitted_def)
  note r = toRange_decode [OF ok(1,2) assms(3)]
  then show ?thesis using decode_compile_entry [OF ok(3) r(1)] assms(3) by (auto simp: reads_as_def)
qed

lemma decode_shards:
  assumes adm: "admitted inp" and sh: "\<forall>s \<in> set (ci_shards inp). is_data s \<longrightarrow> (\<exists>kr. toRange (sh_key_range s) = Ok kr)"
    and ss: "set ss = set (ci_shards inp)"
  shows "\<exists>entry. collect_opt decode_shard (map (compile_entry (ci_endpoints inp)) (filter is_data ss)) = Some (map entry (filter is_data ss))
    \<and> (\<forall>s \<in> set (filter is_data ss). reads_as (ci_endpoints inp) s (entry s))"
proof -
  let ?dec = "\<lambda>s. decode_shard (compile_entry (ci_endpoints inp) s)"
  have each: "?dec s = Some (the (?dec s)) \<and> reads_as (ci_endpoints inp) s (the (?dec s))" if s: "s \<in> set (filter is_data ss)" for s
  proof -
    from s ss have mem: "s \<in> set (ci_shards inp)" "is_data s" by auto
    then obtain kr where "toRange (sh_key_range s) = Ok kr" using sh by blast
    then show ?thesis using decode_shard_reads [OF adm mem(1)] by fastforce
  qed
  have "collect_opt ?dec (filter is_data ss) = Some (map (\<lambda>s. the (?dec s)) (filter is_data ss))"
    using each by (intro collect_opt_the) blast
  then show ?thesis using each unfolding collect_opt_map by (intro exI [of _ "\<lambda>s. the (?dec s)"]) blast
qed

lemma filter_data_names: "distinct (map sh_name ss) \<Longrightarrow> distinct (map sh_name (filter p ss))"
  by (simp add: distinct_map_filter)

lemma compiled_entry_builds:
  assumes "crd_table_ok t" and "distinct (map sq_column (ct_sequences t))" and "u = compile_table t"
  shows "\<exists>te. decode_table u = Some te \<and> te_schema te = ct_schema u \<and> te_name te = ct_name u \<and> entry_builds te"
proof -
  have "ct_name t \<noteq> []" "ct_schema u \<noteq> []" "ct_name u = ct_name t" "distinct (map sq_column (ct_sequences u))"
    using assms by (simp_all add: crd_table_ok_def compile_table_def distinct_map)
  moreover obtain ty kt where "decode_table u = Some \<lparr>te_schema = ct_schema u, te_name = ct_name t, te_table_type = ty,
      te_shard_key_column = omitempty (ct_key_column t), te_shard_key_type = kt, te_sequences = ct_sequences u\<rparr>"
      "ty = TableSharded \<longrightarrow> ct_key_column t \<noteq> [] \<and> kt \<noteq> None"
    using compiled_table_decodes [OF assms(1)] assms(3) by auto
  ultimately show ?thesis by (simp add: entry_builds_def omitempty_def)
qed

lemma decode_tables:
  assumes tabs: "compileTables ul configs = Ok tables"
    and ok: "\<forall>tc \<in> set configs. \<forall>t \<in> set (tc_tables tc). crd_table_ok t"
    and sq: "\<forall>tc \<in> set configs. \<forall>t \<in> set (tc_tables tc). distinct (map sq_column (ct_sequences t))"
  shows "\<exists>tes. collect_opt decode_table tables = Some tes \<and> distinct (map (\<lambda>t. (te_schema t, te_name t)) tes)
    \<and> (\<forall>t \<in> set tes. entry_builds t)"
proof -
  have each: "\<exists>te. decode_table u = Some te \<and> te_schema te = ct_schema u \<and> te_name te = ct_name u \<and> entry_builds te"
    if "u \<in> set tables" for u
  proof -
    have "u \<in> (\<lambda>(_, t). compile_table t) ` set (config_tables configs)" using that compileTables_Ok(1) [OF tabs] by simp
    then obtain tc t where t: "tc \<in> set configs" "t \<in> set (tc_tables tc)" "u = compile_table t"
      by (auto simp: config_tables_def)
    then have "crd_table_ok t" "distinct (map sq_column (ct_sequences t))" using ok sq by blast+
    then show ?thesis using t(3) by (rule compiled_entry_builds)
  qed
  let ?tes = "map (\<lambda>u. the (decode_table u)) tables"
  have dec: "decode_table u = Some (the (decode_table u))" "te_schema (the (decode_table u)) = ct_schema u"
    "te_name (the (decode_table u)) = ct_name u" "entry_builds (the (decode_table u))" if "u \<in> set tables" for u
    using each [OF that] by auto
  have "map (\<lambda>t. (te_schema t, te_name t)) ?tes = map (\<lambda>t. (ct_schema t, ct_name t)) tables"
    unfolding map_map by (rule map_cong) (simp_all add: dec(2,3))
  then have "distinct (map (\<lambda>t. (te_schema t, te_name t)) ?tes)" using compileTables_Ok(2) [OF tabs] by (simp only:)
  moreover have "collect_opt decode_table tables = Some ?tes" using dec(1) by (intro collect_opt_the) blast
  moreover have "\<forall>t \<in> set ?tes. entry_builds t" using dec(4) by simp
  ultimately show ?thesis by blast
qed

lemma reads_as_serving:
  assumes "\<forall>s \<in> set (filter is_data ss). reads_as eps s (entry s)"
  shows "filter (\<lambda>e. se_state e = Serving) (map entry (filter is_data ss)) = map entry (filter serves ss)"
  using assms by (induction ss) (auto simp: reads_as_def)

lemma reads_as_ranges:
  assumes "\<forall>s \<in> set xs. reads_as eps s (entry s)" and "list_all2 (\<lambda>s kr. toRange (sh_key_range s) = Ok kr) xs krs"
  shows "map se_key_range (map entry xs) = map of_go krs"
  using assms(2,1) by (induction xs krs rule: list_all2_induct) (auto simp: reads_as_def)

lemma reads_as_names: "\<forall>s \<in> set xs. reads_as eps s (entry s) \<Longrightarrow> map se_name (map entry xs) = map sh_name xs"
  by (induction xs) (auto simp: reads_as_def)

text \<open>The fields of a compiled spec, read as a topology.\<close>

lemma decode_versioned:
  assumes "0 <s epoch" "0 <s generation" and "\<not> sp_write_lease sp <s 0" "sp_write_lease sp \<noteq> 0"
    and "collect_opt decode_shard (sp_shards sp) = Some shards" "collect_opt decode_table (sp_tables sp) = Some tables"
    and "sp_gates sp = []" "decode_opt decode_instance (sp_sequence_endpoint sp) = Some sq"
  shows "decode_topology rfc3339 (versioned epoch generation sp) =
    Some \<lparr>t_epoch = epoch, t_topology_generation = generation, t_write_lease_seconds = sp_write_lease sp,
      t_hash_function = (if sp_hash_function sp = [] then default_hash_function else sp_hash_function sp),
      t_shards = shards, t_tables = tables, t_gates = [], t_sequence_endpoint = sq\<rparr>"
proof -
  have "\<not> epoch <s 0" "\<not> generation <s 0" using assms(1,2) by (auto simp: word_sless_alt)
  with assms show ?thesis by (simp add: decode_topology_def versioned_def decode_u64_def)
qed

text \<open>A compiled spec without gates is a topology every router accepts.\<close>

lemma compiled_decodes:
  assumes adm: "admitted inp" "sequences_distinct inp" and comp: "Compile ul inp = Ok sp" and gates: "ci_gates inp = []"
    and ep: "0 <s epoch" "0 <s generation"
  shows "\<exists>topo entry r. decode_topology rfc3339 (versioned epoch generation sp) = Some topo \<and> topology_validate topo = Ok ()
    \<and> ranges_wf topo \<and> router_build topo = Ok r
    \<and> serving_shards topo = map entry (filter serves (sort_key shard_order (ci_shards inp)))
    \<and> (\<forall>s \<in> set (ci_shards inp). serves s \<longrightarrow> reads_as (ci_endpoints inp) s (entry s))"
proof -
  let ?ss = "sort_key shard_order (ci_shards inp)"
  obtain krs where c: "sp_shards sp = map (compile_entry (ci_endpoints inp)) (filter is_data ?ss)"
    "list_all2 (\<lambda>s kr. toRange (sh_key_range s) = Ok kr) (filter serves ?ss) krs"
    "ValidatePartition krs = Ok ()"
    "\<forall>s \<in> set (ci_shards inp). is_data s \<longrightarrow> (\<exists>kr. toRange (sh_key_range s) = Ok kr)"
    "compileTables ul (ci_table_configs inp) = Ok (sp_tables sp)"
    "\<forall>ep. sp_sequence_endpoint sp = Some ep \<longrightarrow> ep \<in> ran (ci_endpoints inp)"
    "sp_gates sp = sort_key rg_id (ci_gates inp)" "sp_hash_function sp = ci_hash_function inp"
    "sp_write_lease sp = write_lease_of (ci_router_lease inp)"
    by (rule Compile_Ok [OF comp]) blast
  obtain entry where e: "collect_opt decode_shard (sp_shards sp) = Some (map entry (filter is_data ?ss))"
      and en: "\<forall>s \<in> set (filter is_data ?ss). reads_as (ci_endpoints inp) s (entry s)"
    using decode_shards [OF adm(1) c(4), of ?ss] unfolding c(1) by auto
  obtain tes where t: "collect_opt decode_table (sp_tables sp) = Some tes" "distinct (map (\<lambda>t. (te_schema t, te_name t)) tes)"
      "\<forall>t \<in> set tes. entry_builds t"
    using decode_tables [OF c(5)] adm unfolding admitted_def sequences_distinct_def by blast
  have ports: "\<forall>ep \<in> ran (ci_endpoints inp). port_ok ep" using adm(1) by (simp add: admitted_def)
  obtain sq where sq: "decode_opt decode_instance (sp_sequence_endpoint sp) = Some sq"
    using c(6) ports by (cases "sp_sequence_endpoint sp") (auto simp: decode_opt_def port_ok_def)
  have lease: "\<not> sp_write_lease sp <s 0" "sp_write_lease sp \<noteq> 0" "1 \<le> sp_write_lease sp" "sp_write_lease sp \<le> 60"
    using write_lease_decode [of "ci_router_lease inp"] adm(1) unfolding c(9) by (auto simp: admitted_def)
  define topo where "topo = \<lparr>t_epoch = epoch, t_topology_generation = generation, t_write_lease_seconds = sp_write_lease sp,
      t_hash_function = (if sp_hash_function sp = [] then default_hash_function else sp_hash_function sp),
      t_shards = map entry (filter is_data ?ss), t_tables = tes, t_gates = [], t_sequence_endpoint = sq\<rparr>"
  have dec: "decode_topology rfc3339 (versioned epoch generation sp) = Some topo"
    unfolding topo_def using gates c(7) by (intro decode_versioned ep lease(1,2) e t(1) sq) simp
  have hash: "is_ok (shard_function (t_hash_function topo))"
    using adm(1) c(8) by (auto simp: admitted_def topo_def default_hash_function_def shard_function_def is_ok_def)
  have serving: "serving_shards topo = map entry (filter serves ?ss)"
    using reads_as_serving [OF en] by (simp add: serving_shards_def topo_def)
  have en': "\<forall>s \<in> set (filter serves ?ss). reads_as (ci_endpoints inp) s (entry s)" using en by simp
  have part: "validate_partition (map se_key_range (serving_shards topo)) = Ok ()"
    unfolding serving reads_as_ranges [OF en' c(2)] using c(3) by (simp only: ValidatePartition_Ok)
  have wf: "ranges_wf topo" using en by (auto simp: ranges_wf_def topo_def reads_as_def)
  have "distinct (map sh_name (filter serves ?ss))"
    using adm(1) by (intro filter_data_names) (simp add: admitted_def distinct_map)
  then have names: "distinct (map se_name (serving_shards topo))"
    unfolding serving reads_as_names [OF en'] .
  obtain vs where vs: "build_vschema topo = Ok vs"
    using build_tables_total [OF hash, of tes vschema_default] t(2,3) by (auto simp: build_vschema_def topo_def vschema_default_def)
  have "t_gates topo = []" by (simp add: topo_def)
  then obtain r where r: "router_build topo = Ok r" using router_build_total [OF _ wf names part vs] by blast
  have nz: "epoch \<noteq> 0" "generation \<noteq> 0" using ep by auto
  have "topology_validate topo = Ok ()"
    by (rule topology_validate_total [OF _ _ _ _ hash wf part]) (simp_all add: topo_def nz lease(3,4))
  then show ?thesis using dec wf r serving en by (intro exI [of _ topo] exI [of _ entry] exI [of _ r]) auto
qed

section \<open>Gates and versions\<close>

lemma cutoverGates_Ok:
  assumes "cutoverGates cluster shards reshards = Ok gates" and "rs \<in> set reshards" and "rv_cluster_ref rs = cluster"
  shows "(rv_gate_deadline rs \<noteq> None \<longrightarrow> (\<exists>g \<in> set gates. rg_id g = ''reshard-'' @ rv_name rs))
    \<and> (rv_gate_deadline rs = None \<longrightarrow> rv_switch_committed rs \<longrightarrow>
         (\<forall>s. shardsByName shards (rv_source_shard rs) = Some s \<longrightarrow> \<not> sh_serving s))"
  using assms
proof (induction reshards arbitrary: gates)
  case (Cons r reshards)
  then show ?case
    by (cases "rv_gate_deadline r"; cases "shardsByName shards (rv_source_shard r)")
      (auto simp: bind_res_eq_Inr split: if_splits)
qed simp

lemma decode_gates_nonempty:
  assumes "decode_topology rfc3339 (versioned e g sp) = Some topo" and "sp_gates sp \<noteq> []"
  shows "t_gates topo \<noteq> []"
  using assms by (cases "sp_gates sp") (auto simp: decode_topology_def versioned_def bind_eq_Some_conv split: option.splits)

lemma gated_build_refused: "t_gates topo \<noteq> [] \<Longrightarrow> router_build topo = Err (UnsupportedGates (length (t_gates topo)))"
  by (simp add: router_build_def)

definition current_spec :: "routing_spec list \<Rightarrow> routing_spec option" where
  "current_spec h = (if h = [] then None else Some (last h))"

text \<open>
  The history of the routing object under any number of concurrent \<open>Write\<close> calls. A writer reads the object with
  its version; the server applies a create or an update only if the object still has that version, and the
  writer starts over otherwise.
\<close>

inductive write_run :: "routing_spec list \<Rightarrow> (nat \<times> routing_spec option) set \<Rightarrow> bool" where
  start: "write_run [] {}"
| read: "write_run h seen \<Longrightarrow> write_run h (insert (length h, current_spec h) seen)"
| store: "write_run h seen \<Longrightarrow> (version, cur) \<in> seen \<Longrightarrow> version = length h
    \<Longrightarrow> write_attempt cur desired = CreateSpec x \<or> write_attempt cur desired = UpdateSpec x \<Longrightarrow> write_run (h @ [x]) seen"

lemma write_run_versions: "write_run h seen \<Longrightarrow> (v, cur) \<in> seen \<Longrightarrow> v \<le> length h \<and> cur = current_spec (take v h)"
proof (induction arbitrary: v cur rule: write_run.induct)
  case (store h seen version cur' desired x)
  then show ?case by (simp add: le_Suc_eq)
qed auto

lemma version_fields_ignored [simp]:
  "specEquivalent a (b\<lparr>sp_epoch := e\<rparr>) = specEquivalent a b" "specEquivalent a (b\<lparr>sp_generation := g\<rparr>) = specEquivalent a b"
  "structuralChange a (b\<lparr>sp_epoch := e\<rparr>) = structuralChange a b" "structuralChange a (b\<lparr>sp_generation := g\<rparr>) = structuralChange a b"
  by (simp_all add: specEquivalent_def structuralChange_def)

lemma write_attempt_next:
  assumes "write_attempt (Some cur) desired = CreateSpec x \<or> write_attempt (Some cur) desired = UpdateSpec x"
  shows "sp_epoch x = sp_epoch cur + 1 \<and> \<not> specEquivalent cur x
    \<and> sp_generation x = sp_generation cur + (if structuralChange cur x then 1 else 0)"
proof -
  let ?d = "desired\<lparr>sp_epoch := sp_epoch cur + 1, sp_generation := sp_generation cur\<rparr>"
  have new: "\<not> specEquivalent cur desired" using assms by (auto simp: write_attempt_def)
  then have "x = (if structuralChange cur ?d then ?d\<lparr>sp_generation := sp_generation ?d + 1\<rparr> else ?d)"
    using assms by (simp add: write_attempt_def Let_def split: if_split_asm)
  then show ?thesis using new by (cases "structuralChange cur desired") simp_all
qed

lemma write_attempt_first:
  "write_attempt None desired = CreateSpec x \<or> write_attempt None desired = UpdateSpec x \<Longrightarrow> sp_epoch x = 1 \<and> sp_generation x = 1"
  by (auto simp: write_attempt_def)

definition well_versioned :: "routing_spec list \<Rightarrow> nat \<Rightarrow> bool" where
  "well_versioned h k \<longleftrightarrow> sp_epoch (h ! k) = of_nat (Suc k)
     \<and> (if k = 0 then sp_generation (h ! k) = 1
        else \<not> specEquivalent (h ! (k - 1)) (h ! k)
          \<and> sp_generation (h ! k) = sp_generation (h ! (k - 1)) + (if structuralChange (h ! (k - 1)) (h ! k) then 1 else 0))"

lemma well_versioned_append: "k < length h \<Longrightarrow> well_versioned (h @ [x]) k = well_versioned h k"
proof -
  assume k: "k < length h"
  then have "(h @ [x]) ! k = h ! k" "(h @ [x]) ! (k - 1) = h ! (k - 1)" by (simp_all add: nth_append less_imp_diff_less)
  then show ?thesis by (simp only: well_versioned_def)
qed

lemma write_run_well_versioned: "write_run h seen \<Longrightarrow> k < length h \<Longrightarrow> well_versioned h k"
proof (induction arbitrary: k rule: write_run.induct)
  case (store h seen version cur desired x)
  have cur: "cur = current_spec h" using write_run_versions [OF store(1,2)] store(3) by simp
  show ?case
  proof (cases "k < length h")
    case True
    then show ?thesis using store(5) by (simp add: well_versioned_append)
  next
    case False
    then have k: "k = length h" using store(6) by simp
    show ?thesis
    proof (cases "h = []")
      case True
      then show ?thesis using write_attempt_first [of desired x] store(4) cur k by (simp add: well_versioned_def current_spec_def)
    next
      case False
      then have last: "last h = h ! (k - 1)" "k - 1 < length h" "k \<noteq> 0" using k by (simp_all add: last_conv_nth)
      then have "well_versioned h (k - 1)" using store(5) by blast
      then have "sp_epoch (last h) = of_nat k" using last by (simp add: well_versioned_def)
      moreover have "write_attempt (Some (last h)) desired = CreateSpec x \<or> write_attempt (Some (last h)) desired = UpdateSpec x"
        using store(4) cur False by (simp add: current_spec_def)
      ultimately show ?thesis using write_attempt_next [of "last h" desired x] last k
        by (simp add: well_versioned_def nth_append add.commute)
    qed
  qed
qed simp_all

section \<open>A small cluster\<close>

definition demo_inputs :: "routing_gate list \<Rightarrow> compile_inputs" where
  "demo_inputs gates =
     \<lparr>ci_router_lease = None, ci_hash_function = ''xxhash64_v1'',
      ci_shards = [\<lparr>sh_name = ''s1'', sh_key_range = \<lparr>ck_start = [], ck_end = []\<rparr>, sh_role = ''data'', sh_serving = True,
        sh_instances = [\<lparr>inst_pod = ''p1'', inst_role = ''primary'', inst_ready = True\<rparr>], sh_current_primary = ''p1''\<rparr>],
      ci_table_configs = [\<lparr>tc_name = ''app'', tc_tables = [\<lparr>ct_schema = [], ct_name = ''orders'', ct_type = ''sharded'',
        ct_key_column = ''region'', ct_key_type = ''text'', ct_sequences = []\<rparr>]\<rparr>],
      ci_endpoints = [''p1'' \<mapsto> \<lparr>ge_pod = ''p1'', ge_host = ''h'', ge_port = 5432, ge_can_read = False\<rparr>], ci_gates = gates\<rparr>"

lemma demo_admitted: "admitted (demo_inputs gates)" "sequences_distinct (demo_inputs gates)"
  by (auto simp: admitted_def demo_inputs_def crd_bound_ok_def port_ok_def decode_instance_def write_lease_of_def
      crd_table_ok_def decode_key_type_def sequences_distinct_def word_sle_eq word_sless_alt ran_def split: if_splits)

lemma demo_compiles: "gates = [] \<or> gates = [g] \<Longrightarrow> \<exists>sp. Compile ul (demo_inputs gates) = Ok sp"
  by (auto simp: Compile_def demo_inputs_def toRange_def ParseKeyRange_def split_once_def ParseBound_def
      NewOpenKeyRange_def ValidatePartition_def compileTables_def Let_def)

definition demo_spec :: "routing_gate list \<Rightarrow> routing_spec" where
  "demo_spec gates =
     \<lparr>sp_epoch = 0, sp_generation = 0, sp_write_lease = 10, sp_hash_function = ''xxhash64_v1'',
      sp_shards = [\<lparr>rs_name = ''s1'', rs_key_range = \<lparr>ck_start = [], ck_end = []\<rparr>, rs_state = ''serving'',
        rs_primary = Some \<lparr>ge_pod = ''p1'', ge_host = ''h'', ge_port = 5432, ge_can_read = False\<rparr>, rs_replicas = []\<rparr>],
      sp_tables = [\<lparr>ct_schema = ''public'', ct_name = ''orders'', ct_type = ''sharded'',
        ct_key_column = ''region'', ct_key_type = ''text'', ct_sequences = []\<rparr>],
      sp_gates = gates, sp_sequence_endpoint = None\<rparr>"

lemma demo_spec: "Compile ul (demo_inputs [g]) = Ok sp \<longleftrightarrow> sp = demo_spec [g]"
  by (auto simp: Compile_def demo_inputs_def demo_spec_def toRange_def ParseKeyRange_def split_once_def ParseBound_def
      NewOpenKeyRange_def ValidatePartition_def compileTables_def Let_def write_lease_of_def compile_entry_def
      primaryEndpoint_def replicaEndpoints_def List.map_filter_def compile_table_def)

lemma demo_range_decodes: "decode_range \<lparr>ck_start = [], ck_end = []\<rparr> = Some FULL"
  by (simp add: decode_range_def into_range_def canonical_bound_def parse_bound_def format_bound_def key_range_new_def ok_of_def FULL_def)

lemma demo_spec_decodes:
  "decode_gate rfc3339 g = Some gate \<Longrightarrow> \<exists>topo. decode_topology rfc3339 (versioned 1 1 (demo_spec [g])) = Some topo"
  by (simp add: decode_topology_def versioned_def demo_spec_def decode_u64_def word_sless_alt decode_shard_def demo_range_decodes
      decode_state_def decode_opt_def decode_instance_def decode_table_def decode_table_type_def omitempty_def decode_key_type_def)

section \<open>Properties\<close>





text \<open>C27: The routing object is versioned without gaps. Under any interleaving of concurrent writers the \<open>k\<close>-th stored
  spec has epoch \<open>k + 1\<close>, is stored only if it differs from the one before it, and raises the topology generation,
  by one, exactly when the shard set or the table catalog changed.\<close>

theorem routing_epochs_exact:
  assumes "write_run h seen" and "k < length h"
  shows "sp_epoch (h ! k) = of_nat (Suc k) \<and>
    (if k = 0 then sp_generation (h ! k) = 1
     else \<not> specEquivalent (h ! (k - 1)) (h ! k)
       \<and> sp_generation (h ! k) = sp_generation (h ! (k - 1)) + (if structuralChange (h ! (k - 1)) (h ! k) then 1 else 0))"
  using write_run_well_versioned [OF assms] unfolding well_versioned_def .

theorem routing_epochs_exact_witness:
  "\<exists>sp. write_run [sp] {(0, None)} \<and> sp_epoch sp = 1 \<and> sp_generation sp = 1"
proof -
  let ?d = "\<lparr>sp_epoch = 0, sp_generation = 0, sp_write_lease = 10, sp_hash_function = [], sp_shards = [], sp_tables = [],
    sp_gates = [], sp_sequence_endpoint = None\<rparr>"
  let ?x = "?d\<lparr>sp_epoch := 1, sp_generation := 1\<rparr>"
  have "write_run [] (insert (length ([] :: routing_spec list), current_spec []) {})" by (intro write_run.read write_run.start)
  then have "write_run [] {(0, None)}" by (simp add: current_spec_def)
  moreover have "write_attempt None ?d = CreateSpec ?x" by (simp add: write_attempt_def)
  ultimately have "write_run ([] @ [?x]) {(0, None)}" by (intro write_run.store [of "[]" "{(0, None)}" 0 None ?d ?x]) simp_all
  then have run: "write_run [?x] {(0, None)}" by simp
  then show ?thesis using routing_epochs_exact [OF run, of 0] by (intro exI [of _ ?x]) simp
qed

definition clash_inputs :: compile_inputs where
  "clash_inputs = (demo_inputs [])\<lparr>ci_table_configs := [\<lparr>tc_name = ''app'', tc_tables = [\<lparr>ct_schema = [], ct_name = ''orders'',
     ct_type = ''sharded'', ct_key_column = ''region'', ct_key_type = ''text'',
     ct_sequences = [\<lparr>sq_column = ''id'', sq_sequence = ''a''\<rparr>, \<lparr>sq_column = ''id'', sq_sequence = ''b''\<rparr>]\<rparr>]\<rparr>]\<rparr>"

lemma clash_admitted: "admitted clash_inputs"
  using demo_admitted(1) [of "[]"] by (auto simp: admitted_def clash_inputs_def crd_table_ok_def decode_key_type_def)


end
