(* ===== verification/Spec2Isabelle.thy ===== *)
theory Spec2Isabelle
  imports Keyspace Lsn Shardfn Vschema Catalog Gate Sequence Epoch Topology Pgoutput_Wire Repl_Stream Keyspace_Filter Copy Applier_Once Merge Query_Path Compiler
begin

text \<open>
  A verification development of pgshard2, a sharding layer for PostgreSQL: a router that speaks the
  PostgreSQL wire protocol and sends each query to the shards that own its rows, an agent beside each
  PostgreSQL instance, a logical-replication engine that moves key ranges between shards, and a Kubernetes
  operator that compiles the routing every router follows. Paths below are under \<open>src/crates\<close> unless they
  begin with \<open>operator\<close>.

  \<^bold>\<open>How the parts interact.\<close> Every sharded table has a shard key; \<open>Shardfn\<close> maps a key to a 64-bit keyspace id,
  and the serving shards' ranges partition the ids (\<open>Keyspace\<close>). The operator compiles shards, tables and
  cutover gates into one versioned spec (\<open>Compiler\<close>), which routers read as a topology (\<open>Topology\<close>), check
  and build into a routing snapshot (\<open>Router\<close>). A query is parsed (\<open>Sql_Ast\<close>), its keys are extracted
  (\<open>Extract\<close>), it is planned against schema and catalog (\<open>Planner\<close>) and dispatched to backends (\<open>Wire\<close>,
  \<open>Router_Backend\<close>), with sequence ids filled in (\<open>Seq_Inject\<close>, \<open>Sequence\<close>) and results of several shards
  merged (\<open>Merge\<close>). A reshard copies the rows of a range (\<open>Copy\<close>), then replays the source's transactions
  (\<open>Pgoutput\<close>, \<open>Applier\<close>) filtered by range (\<open>Keyspace_Filter\<close>), and cuts over behind a gate.

  \<^bold>\<open>Theories and the code they model.\<close>
  \<^item> \<open>Prelude\<close>: machine integers, results, and the parts of the standard libraries that the code uses.
  \<^item> \<open>Keyspace\<close>, \<open>Lsn\<close>, \<open>Shardfn\<close>, \<open>Vschema\<close>: \<open>pgshard-core/src\<close>. Ranges, bound text, even splits and the
    partition check; log positions; coercion and hashing of keys; the sharding schema.
  \<^item> \<open>Catalog\<close>, \<open>Sql_Ast\<close>, \<open>Extract\<close>, \<open>Planner\<close>, \<open>Seq_Inject\<close>: \<open>pgshard-plan/src\<close> and \<open>pgshard-sql/src/lib.rs\<close>.
    \<open>Extract_Sound\<close> and \<open>Planner_Sound\<close> prove them against a three-valued semantics of \<open>WHERE\<close>.
  \<^item> \<open>Gate\<close>: \<open>pgshard-gate/src/lib.rs\<close>; \<open>Sequence\<close>: \<open>pgshard-seq/src/lib.rs\<close> and the router's reserver; \<open>Epoch\<close>:
    \<open>pgshard-agent/src/epoch.rs\<close>; \<open>Topology\<close>: \<open>pgshard-topo/src\<close>.
  \<^item> \<open>Reader\<close>, \<open>Pgoutput\<close>, \<open>Pgoutput_Wire\<close>, \<open>Repl_Stream\<close>, \<open>Sql_Text\<close>, \<open>Keyspace_Filter\<close>, \<open>Copy\<close>, \<open>Applier\<close>,
    \<open>Applier_Once\<close>: \<open>pgshard-repl/src\<close>, its frame decoders, filter, snapshot copy and transactional applier.
  \<^item> \<open>Merge\<close>, \<open>Router\<close>, \<open>Router_Backend\<close>, \<open>Wire\<close>: \<open>pgshard-router/src\<close>, files \<open>merge.rs\<close>, \<open>lib.rs\<close>, \<open>backend.rs\<close>,
    \<open>wire.rs\<close>. \<open>Query_Path\<close> follows a query through all of them.
  \<^item> \<open>Operator_Ranges\<close>: \<open>operator/internal/topology\<close> and the partition check of
    \<open>operator/internal/controller/reshard.go\<close>. \<open>Compiler\<close>: \<open>operator/internal/routing/compiler.go\<close>, the cutover
    gates of \<open>pgshardrouting_controller.go\<close>, and the decoding of a compiled spec by \<open>pgshard-topo/src/model.rs\<close>.

  \<^bold>\<open>Conventions.\<close> A struct is a record, an enum a datatype, a fallible function returns a sum with \<open>Err\<close> on the
  left, and a call that would panic is \<open>None\<close>. Strings are lists of bytes. Code under a mutex is one atomic step;
  where a lock is given up, the function is cut there and an inductive relation interleaves the pieces (\<open>Gate\<close>,
  \<open>Sequence\<close>, \<open>Applier_Once\<close>, the watch loop of \<open>Router\<close>, the writers of \<open>Compiler\<close>). Clock readings, and every
  library the sources only call (parser, digest, JSON, client connections), are arguments.

  \<^bold>\<open>What is shown.\<close> End to end: a write runs on the primary of the shard that owns its rows and nowhere else, a read
  misses no shard that owns a matching row, and what the operator compiles is served by every router from the
  recorded primary. Components: planning never under-routes; gates lose no session; writes stop when the lease
  expires; transactions are applied exactly once across crashes and duplicate appliers; snapshot copy and stream
  agree on which rows belong to a range; global ids never repeat; decoders are exact; the Go and the Rust
  keyspace arithmetic agree, and a reshard keeps the keyspace partitioned.

  \<^bold>\<open>Interfaces and totality.\<close> Each locale states what a client needs of a provider and is interpreted on the model:
  \<open>shard_hash\<close> on the shard functions, \<open>shard_routing\<close> on the catalog, \<open>block_reserver\<close> on the PostgreSQL reserver.
  No definition uses fuel: every loop is a total recursion, and where an endless loop is the point (watchers,
  appliers) the runs are relations.

  \<^bold>\<open>Not modelled.\<close> The agent's gRPC service, workflow engine and PostgreSQL sessions and the socket I/O of the
  replication client, which are calls to running servers; process startup and generated code; in the operator
  the failover election, the reconcile steps of resharding and of clusters, nodes and shards, the backup catalog and
  the rendering of configuration. The routing object is assumed not to be deleted. Log output is left out, and
  error texts are mostly kept as data.
\<close>

section \<open>Properties\<close>

text \<open>C1: A write reaches the primary of the shard that owns its rows, and nothing else. For a router built from a
  topology, a simple query that inserts, updates or deletes rows of a sharded table causes at most one backend
  run; that run is on the primary and the database of the serving shard whose range contains the id of every
  affected row; and the query succeeds only if it ran.\<close>

theorem query_write_owner:
  assumes "router_build t = Ok (px_router px)" and "ranges_wf t" and "do_query ex px wall boot query q = Some (runs, q', res)"
    and "sql_parse (ex_parse ex) (ex_fingerprint ex) query = Ok pa" and "pa_result pa = [Some (Some n)]"
    and "write_relation n = Some rv" and "vschema_get (ro_vschema (px_router px)) (range_var_table rv) = Some (Sharded key kt fname seqs)"
    and "shard_function fname = Ok f" and "affects sem [] n key kt v"
    and "serving_owners t (keyspace_id (ex_xxh64 ex) f v) = [s]"
  shows "list_all (runs_at s) runs \<and> length runs \<le> 1 \<and> (is_ok res \<longrightarrow> runs \<noteq> [])"
proof -
  note ok = router_build_Ok [OF assms(1,2)]
  note own = owner_home [OF assms(1,2,8,10)]
  obtain p z where p: "plan_stmt (ex_xxh64 ex) (ex_to_value ex) (classify (Some n)) n (ro_vschema (px_router px)) (ro_catalog (px_router px)) = Some p"
      "final_plan (ex_xxh64 ex) [] (ro_catalog (px_router px)) p = Some z" "is_reject z \<or> z = SingleShard (serving_id s)"
    using write_final [OF ok(1,2) assms(6,7,9) own(1)] by blast
  note run = single_dispatch [OF assms(3-5) p(1)]
  from resolve_final [OF p(2,3), of "px_router px"] resolve_single [OF assms(1,2) own(2)] show ?thesis
    using run dispatch_refused [OF run] dispatch_shard by (fastforce simp: list_all_iff runs_at_def)
qed

theorem query_write_owner_witness:
  "\<exists>runs q' res s. do_query (demo_externals\<lparr>ex_parse := \<lambda>_. Ok ([Some (Some demo_delete)], [])\<rparr>) demo_proxy 0 (Some 0) ''x'' () = Some (runs, q', res)
     \<and> se_name s = ''a'' \<and> list_all (runs_at s) runs \<and> length runs \<le> 1"
proof -
  let ?ex = "demo_externals\<lparr>ex_parse := \<lambda>_. Ok ([Some (Some demo_delete)], [])\<rparr>"
  let ?pa = "\<lparr>pa_fingerprint = 0, pa_statements = [KDelete], pa_tables = [], pa_result = [Some (Some demo_delete)]\<rparr>"
  obtain runs q' res where run: "do_query ?ex demo_proxy 0 (Some 0) ''x'' () = Some (runs, q', res)"
    using demo_proxy_total [of ?ex 0 "Some 0" "''x''" "()"] by blast
  have parse: "sql_parse (ex_parse ?ex) (ex_fingerprint ?ex) ''x'' = Ok ?pa"
    by (simp add: sql_parse_def demo_externals_def demo_delete_def classify_def as_enum_def)
  obtain s where s: "serving_owners demo_cluster (keyspace_id demo_digest XxHash64V1 (Text ''eu'')) = [s]" "se_name s = ''a''"
    using demo_cluster_owner by blast
  have "list_all (runs_at s) runs \<and> length runs \<le> 1 \<and> (is_ok res \<longrightarrow> runs \<noteq> [])"
    by (rule query_write_owner [OF demo_cluster_builds demo_cluster_wf run parse _ _ demo_vschema _ demo_delete_affects])
      (use s(1) in \<open>(simp add: demo_delete_def shard_function_def demo_externals_def)+\<close>)
  then show ?thesis using run s(2) by blast
qed

text \<open>C2: A read misses no shard that owns a matching row. For a router built from a topology, a simple \<open>SELECT\<close> that
  names a sharded table and succeeds has run on the primary and the database of the serving shard whose range
  contains the id of any row that matches its condition.\<close>

theorem query_read_owner:
  assumes "router_build t = Ok (px_router px)" and "ranges_wf t" and "do_query ex px wall boot query q = Some (runs, q', Ok responses)"
    and "sql_parse (ex_parse ex) (ex_fingerprint ex) query = Ok pa" and "pa_result pa = [Some (Some (NSelect sel))]"
    and "classify (Some (NSelect sel)) = KSelect" and "sel_op sel = SetopNone"
    and "table \<in> set (fc_tables (analyze_from (sel_from sel)))"
    and "vschema_get (ro_vschema (px_router px)) table = Some (Sharded key kt fname seqs)"
    and "shard_function fname = Ok f" and "matching_row sem [] key kt (sel_where sel) v"
    and "serving_owners t (keyspace_id (ex_xxh64 ex) f v) = [s]"
  shows "list_ex (runs_at s) runs"
proof -
  note ok = router_build_Ok [OF assms(1,2)]
  note own = owner_home [OF assms(1,2,10,12)]
  let ?r = "px_router px"
  obtain p z where p: "plan_stmt (ex_xxh64 ex) (ex_to_value ex) KSelect (NSelect sel) (ro_vschema ?r) (ro_catalog ?r) = Some p"
      "final_plan (ex_xxh64 ex) [] (ro_catalog ?r) p = Some z" "is_reject z \<or> serving_id s \<in> executes_on z"
    using select_final [OF ok(1,2) assms(7-9,11) own(1)] by blast
  have run: "dispatch ex px wall boot pa (router_resolve ?r p) query q = (runs, q', Ok responses)"
    by (rule single_dispatch [OF assms(3-5)]) (use p(1) assms(6) in simp)
  have served: "\<not> (router_resolve ?r p = RUnavailable u \<or> router_resolve ?r p = RReject code why \<or> router_resolve ?r p = RNeedsBind y \<or> router_resolve ?r p = RBroadcast ts)"
    for u code why y ts using dispatch_refused [OF run] by (auto simp: is_ok_def)
  have nb: "p \<noteq> Broadcast ids" for ids using resolve_broadcast [of ?r ids] served by metis
  consider (single) "p = SingleShard (serving_id s)" | (scatter) ids where "p = Scatter ids" "serving_id s \<in> set ids"
    using p(2,3) served nb by (cases p; cases z) (auto simp: final_plan_def router_resolve_def)
  then show ?thesis
  proof cases
    case single
    then show ?thesis using resolve_single [OF assms(1,2) own(2)] served run dispatch_shard [of ex px wall boot pa _ query q runs q' "Ok responses"]
      by (fastforce simp: list_ex_iff runs_at_def is_ok_def)
  next
    case scatter
    then obtain ep ts where "se_primary s = Some ep" "router_resolve ?r p = RScatter ts" "\<lparr>tg_endpoint = ep, tg_database = se_name s\<rparr> \<in> set ts"
      using resolve_scatter [OF assms(1,2) own(2) scatter(2)] served by auto
    moreover then have "runs = map (target_run query (stale px wall boot)) ts" using run dispatch_scatter_Ok by metis
    ultimately show ?thesis by (force simp: list_ex_iff runs_at_def target_run_def)
  qed
qed

theorem query_read_owner_witness:
  "\<exists>s. se_name s = ''a'' \<and> list_ex (runs_at s) (map (target_run ''SELECT'' False) demo_targets)"
proof -
  let ?sel = "SelectStmt False None SetopNone [Some (NRangeVar (RangeVar [] ''orders''))] None [] None None
        [Some (NResTarget [] (Some (Some (NColumnRef [Some (NString ''region'')]))))] [] [] [] None [] False None None []"
  obtain s where s: "serving_owners demo_cluster (keyspace_id demo_digest XxHash64V1 (Text ''eu'')) = [s]" "se_name s = ''a''"
    using demo_cluster_owner by blast
  have row: "matching_row demo_literal_row [] ''region'' (Some TyText) (sel_where ?sel) (Text ''eu'')"
    by (simp add: matching_row_def demo_literal_row_def demo_row_def as_enum_def)
  have "list_ex (runs_at s) (map (target_run ''SELECT'' False) demo_targets)"
    by (rule query_read_owner [OF demo_cluster_builds demo_cluster_wf demo_select_run demo_select_parse _ _ _ _ demo_vschema _ row])
      (use s(1) in \<open>(simp add: demo_parsed_def demo_parse_def classify_def has_writable_cte_def analyze_from_def shard_function_def demo_externals_def)+\<close>)
  then show ?thesis using s(2) by blast
qed

end
